(* ===== verification/Base.thy ===== *)
theory Base
  imports
    Complex_Main
    "HOL-Library.Word"
    "HOL-Library.Code_Target_Nat"
    "HOL-Library.AList"
    "HOL-Library.Char_ord"
    "HOL-Library.List_Lexorder"
    "HOL-Library.Product_Lexorder"
begin

text \<open>
  The prelude of the development: the types every component shares and the part of Go and of
  its standard library that the gateway uses.

  \<^item> A Go \<^verbatim>\<open>[]byte\<close> is a list of \<open>8 word\<close>. A Go \<^verbatim>\<open>string\<close> is a byte sequence, which is what
    Isabelle's \<open>string\<close> (a list of 8-bit characters) is; \<open>bytes\<close> and \<open>str\<close> are the conversions
    \<^verbatim>\<open>[]byte(s)\<close> and \<^verbatim>\<open>string(b)\<close>.
  \<^item> An \<^verbatim>\<open>int32\<close> is the \<open>int\<close> it denotes; \<open>to_int32\<close> is the conversion \<^verbatim>\<open>int32(x)\<close>, which wraps.
    A Go \<^verbatim>\<open>int\<close> (64 bits) is an unbounded \<open>int\<close> where the code only counts or compares.
  \<^item> A \<^verbatim>\<open>time.Time\<close> is the \<open>int\<close> of nanoseconds since the Unix epoch, a \<^verbatim>\<open>time.Duration\<close> an \<open>int\<close>
    of nanoseconds; \<open>unix_sec\<close> is \<^verbatim>\<open>Time.Unix()\<close>. A field that tests \<^verbatim>\<open>IsZero()\<close> is an option.
  \<^item> A Go map is an association list without duplicate keys; the list order stands for the
    unspecified iteration order of the map.
  \<^item> A call that returns \<^verbatim>\<open>(value, error)\<close> is a sum: \<open>Inl\<close> the error, \<open>Inr\<close> the value.

  \<^verbatim>\<open>strings.ToLower\<close> and \<^verbatim>\<open>strings.TrimSpace\<close> are modelled on ASCII: a byte of 128 or more is left
  as it is, where Go also folds the case of non-ASCII letters and trims non-ASCII spaces.
\<close>

section \<open>Results\<close>

definition sum_bind :: "'e + 'a \<Rightarrow> ('a \<Rightarrow> 'e + 'b) \<Rightarrow> 'e + 'b" where
  "sum_bind r f = (case r of Inl e \<Rightarrow> Inl e | Inr x \<Rightarrow> f x)"

lemma sum_bind_simps [simp]:
  "sum_bind (Inl e) f = Inl e"
  "sum_bind (Inr x) f = f x"
  by (simp_all add: sum_bind_def)

lemma sum_bind_eq_Inr: "sum_bind r f = Inr y \<longleftrightarrow> (\<exists>x. r = Inr x \<and> f x = Inr y)"
  by (cases r) auto

lemma sum_bind_eq_Inl:
  "sum_bind r f = Inl e \<longleftrightarrow> r = Inl e \<or> (\<exists>x. r = Inr x \<and> f x = Inl e)"
  by (cases r) auto

section \<open>Maps as association lists\<close>

lemma list_all_update: "list_all P r \<Longrightarrow> P (k, v) \<Longrightarrow> list_all P (AList.update k v r)"
  by (induction r) auto

lemma list_all_delete: "list_all P r \<Longrightarrow> list_all P (AList.delete k r)"
  by (simp add: list_all_iff AList.delete_eq)

lemma list_all_filter_imp: "list_all P r \<Longrightarrow> list_all P (filter Q r)"
  by (simp add: list_all_iff)

lemma map_of_list_all: "list_all P r \<Longrightarrow> map_of r k = Some v \<Longrightarrow> P (k, v)"
  by (auto simp: list_all_iff dest: map_of_SomeD)

lemma map_of_filter_val:
  "distinct (map fst r) \<Longrightarrow>
   map_of (filter (\<lambda>(k, v). P v) r) k =
     (case map_of r k of None \<Rightarrow> None | Some v \<Rightarrow> if P v then Some v else None)"
proof (induction r)
  case (Cons p r)
  have "map_of (filter (\<lambda>(k, v). P v) r) (fst p) = None" if "fst p \<notin> fst ` set r"
    using that by (auto simp: map_of_eq_None_iff)
  then show ?case using Cons by (cases p) (auto split: option.splits)
qed simp

lemma distinct_map_fst_filter: "distinct (map fst r) \<Longrightarrow> distinct (map fst (filter P r))"
  by (induction r) auto

lemma delete_conv_map [simp]: "map_of (AList.delete k r) = (map_of r)(k := None)"
  by (simp add: AList.delete_conv')

lemma update_conv_map [simp]: "map_of (AList.update k v r) = (map_of r)(k \<mapsto> v)"
  by (simp add: AList.update_conv')

lemmas distinct_alist [simp] = AList.distinct_update AList.distinct_delete distinct_map_fst_filter

section \<open>Lists updated at an index\<close>

lemma split_update:
  assumes "i < length xs"
  obtains ys zs where "xs = ys @ xs ! i # zs" "\<And>x. xs[i := x] = ys @ x # zs"
  using that id_take_nth_drop [OF assms] upd_conv_take_nth_drop [OF assms] by blast

lemma count_update:
  assumes "i < length xs"
  shows "length (filter P (xs[i := x])) + (if P (xs ! i) then 1 else 0) = length (filter P xs) + (if P x then 1 else 0)"
proof -
  obtain ys zs where e: "xs = ys @ xs ! i # zs" "\<And>x. xs[i := x] = ys @ x # zs" by (rule split_update [OF assms]) (rule that)
  have "length (filter P xs) = length (filter P (ys @ xs ! i # zs))" using e(1) by simp
  then show ?thesis by (simp add: e(2))
qed

lemma sum_update:
  assumes "i < length xs"
  shows "sum_list (map f (xs[i := x])) + f (xs ! i) = sum_list (map f xs) + (f x :: nat)"
proof -
  obtain ys zs where e: "xs = ys @ xs ! i # zs" "\<And>x. xs[i := x] = ys @ x # zs" by (rule split_update [OF assms]) (rule that)
  have "sum_list (map f xs) = sum_list (map f (ys @ xs ! i # zs))" using e(1) by simp
  then show ?thesis by (simp add: e(2))
qed

section \<open>Bytes, strings and fixed-width integers\<close>

type_synonym byte = "8 word"
type_synonym time = int
type_synonym duration = int

definition byte_of_char :: "char \<Rightarrow> byte" where
  "byte_of_char c = word_of_nat (of_char c)"

definition char_of_byte :: "byte \<Rightarrow> char" where
  "char_of_byte b = char_of (unat b)"

definition bytes :: "string \<Rightarrow> byte list" where
  "bytes s = map byte_of_char s"

definition str :: "byte list \<Rightarrow> string" where
  "str bs = map char_of_byte bs"

lemma of_char_less_256 [simp]: "(of_char c :: nat) < 256"
  by (metis of_char_mod_256 mod_less_divisor zero_less_numeral)

lemma char_of_byte_of_char [simp]: "char_of_byte (byte_of_char c) = c"
  by (simp add: char_of_byte_def byte_of_char_def unat_of_nat)

lemma byte_of_char_of_byte [simp]: "byte_of_char (char_of_byte b) = b"
proof -
  have "unat b < 256" using unsigned_less [of b] by simp
  then show ?thesis
    by (simp add: char_of_byte_def byte_of_char_def)
qed

lemma str_bytes [simp]: "str (bytes s) = s"
  by (simp add: str_def bytes_def comp_def)

lemma bytes_str [simp]: "bytes (str bs) = bs"
  by (simp add: str_def bytes_def comp_def)

lemma length_bytes [simp]: "length (bytes s) = length s"
  by (simp add: bytes_def)

lemma length_str [simp]: "length (str s) = length s"
  by (simp add: str_def)

lemma bytes_inject [simp]: "bytes s = bytes t \<longleftrightarrow> s = t"
  by (metis str_bytes)

lemma bytes_append [simp]: "bytes (s @ t) = bytes s @ bytes t"
  by (simp add: bytes_def)

lemma str_append [simp]: "str (s @ t) = str s @ str t"
  by (simp add: str_def)

lemma bytes_Nil [simp]: "bytes [] = []"
  by (simp add: bytes_def)

lemma str_Nil [simp]: "str [] = []"
  by (simp add: str_def)

text \<open>The conversion \<^verbatim>\<open>int32(x)\<close>.\<close>

definition to_int32 :: "int \<Rightarrow> int" where
  "to_int32 x = sint (word_of_int x :: 32 word)"

definition int32_range :: "int \<Rightarrow> bool" where
  "int32_range x \<longleftrightarrow> - (2 ^ 31) \<le> x \<and> x < 2 ^ 31"

lemma sint32_range: "int32_range (sint (w :: 32 word))"
  using sint_ge [of w] sint_lt [of w] by (simp add: int32_range_def)

lemma to_int32_range [simp]: "int32_range (to_int32 x)"
  by (simp add: to_int32_def sint32_range)

lemma to_int32_id: "int32_range x \<Longrightarrow> to_int32 x = x"
  by (simp add: to_int32_def int32_range_def sint_sbintrunc' signed_take_bit_int_eq_self)

section \<open>Big-endian integers\<close>

text \<open>
  \<open>be_enc n v\<close> is \<^verbatim>\<open>binary.BigEndian.AppendUint\<close> at \<open>n\<close> bytes (the value is taken modulo
  \<open>256 ^ n\<close>), \<open>be_dec\<close> reads all the bytes it is given; \<open>be_int\<close> appends a signed integer.
\<close>

fun be_enc :: "nat \<Rightarrow> nat \<Rightarrow> byte list" where
  "be_enc 0 v = []"
| "be_enc (Suc n) v = be_enc n (v div 256) @ [word_of_nat (v mod 256)]"

definition be_dec :: "byte list \<Rightarrow> nat" where
  "be_dec bs = foldl (\<lambda>a b. a * 256 + unat b) 0 bs"

definition be_int :: "nat \<Rightarrow> int \<Rightarrow> byte list" where
  "be_int n v = be_enc n (nat (v mod 256 ^ n))"

lemma length_be_enc [simp]: "length (be_enc n v) = n"
  by (induction n arbitrary: v) auto

lemma be_enc_eq_Nil [simp]: "be_enc n v = [] \<longleftrightarrow> n = 0"
  by (metis length_be_enc length_0_conv)

lemma length_be_int [simp]: "length (be_int n v) = n"
  by (simp add: be_int_def)

lemma be_dec_snoc [simp]: "be_dec (bs @ [b]) = be_dec bs * 256 + unat b"
  by (simp add: be_dec_def)

lemma be_dec_Nil [simp]: "be_dec [] = 0"
  by (simp add: be_dec_def)

lemma be_dec_enc: "be_dec (be_enc n v) = v mod 256 ^ n"
proof (induction n arbitrary: v)
  case 0
  then show ?case by simp
next
  case (Suc n)
  have u: "unat (word_of_nat (v mod 256) :: byte) = v mod 256"
    by (simp add: unat_of_nat)
  have "v mod 256 ^ Suc n = v mod (256 * 256 ^ n)" by simp
  also have "\<dots> = 256 * (v div 256 mod 256 ^ n) + v mod 256"
    by (rule mod_mult2_eq)
  finally show ?case using Suc u by simp
qed

lemma be_dec_less: "be_dec bs < 256 ^ length bs"
proof (induction bs rule: rev_induct)
  case Nil
  then show ?case by simp
next
  case (snoc b bs)
  have "unat b < 256" using unsigned_less [of b] by simp
  with snoc show ?case by simp
qed

lemma be_enc_dec: "be_enc (length bs) (be_dec bs) = bs"
proof (induction bs rule: rev_induct)
  case Nil
  then show ?case by simp
next
  case (snoc b bs)
  have "unat b < 256" using unsigned_less [of b] by simp
  then show ?case using snoc by simp
qed

lemma be_dec_int: "0 \<le> v \<Longrightarrow> v < 256 ^ n \<Longrightarrow> be_dec (be_int n v) = nat v"
  by (simp add: be_int_def be_dec_enc nat_mod_distrib nat_power_eq)

end
