(* ===== verification/Utf8.thy ===== *)
theory Utf8
  imports Strs
begin

text \<open>
  Go's \<^verbatim>\<open>unicode/utf8\<close> package as the protocol code uses it: \<open>decode_rune\<close> is
  \<^verbatim>\<open>utf8.DecodeRune\<close> (a bad byte decodes to U+FFFD with width 1), \<open>runes\<close> is the sequence a
  \<^verbatim>\<open>range\<close> loop or \<^verbatim>\<open>[]rune(s)\<close> visits, \<open>utf8_valid\<close> is \<^verbatim>\<open>utf8.Valid\<close> and \<open>encode_rune\<close> is
  \<^verbatim>\<open>utf8.AppendRune\<close>. The lemmas show that decoding undoes encoding on Unicode scalar values.
\<close>

type_synonym rune = nat

definition cont_byte :: "nat \<Rightarrow> bool" where
  "cont_byte y \<longleftrightarrow> 128 \<le> y \<and> y \<le> 191"

definition bad_rune :: "rune \<times> nat" where
  "bad_rune = (65533, 1)"

fun decode2 :: "nat \<Rightarrow> nat list \<Rightarrow> rune \<times> nat" where
  "decode2 x (y # _) = (if cont_byte y then ((x - 192) * 64 + (y - 128), 2) else bad_rune)"
| "decode2 x _ = bad_rune"

fun decode3 :: "nat \<Rightarrow> nat list \<Rightarrow> rune \<times> nat" where
  "decode3 x (y # z # _) =
     (if (if x = 224 then 160 else 128) \<le> y \<and> y \<le> (if x = 237 then 159 else 191) \<and> cont_byte z
      then ((x - 224) * 4096 + (y - 128) * 64 + (z - 128), 3) else bad_rune)"
| "decode3 x _ = bad_rune"

fun decode4 :: "nat \<Rightarrow> nat list \<Rightarrow> rune \<times> nat" where
  "decode4 x (y # z # w # _) =
     (if (if x = 240 then 144 else 128) \<le> y \<and> y \<le> (if x = 244 then 143 else 191)
         \<and> cont_byte z \<and> cont_byte w
      then ((x - 240) * 262144 + (y - 128) * 4096 + (z - 128) * 64 + (w - 128), 4) else bad_rune)"
| "decode4 x _ = bad_rune"

fun decode_nats :: "nat list \<Rightarrow> rune \<times> nat" where
  "decode_nats [] = (65533, 0)"
| "decode_nats (x # xs) =
     (if x < 128 then (x, 1)
      else if 194 \<le> x \<and> x \<le> 223 then decode2 x xs
      else if 224 \<le> x \<and> x \<le> 239 then decode3 x xs
      else if 240 \<le> x \<and> x \<le> 244 then decode4 x xs
      else bad_rune)"

definition decode_rune :: "byte list \<Rightarrow> rune \<times> nat" where
  "decode_rune bs = decode_nats (map unat bs)"

definition scalar :: "rune \<Rightarrow> bool" where
  "scalar r \<longleftrightarrow> r < 55296 \<or> (57344 \<le> r \<and> r < 1114112)"

definition encode_nats :: "rune \<Rightarrow> nat list" where
  "encode_nats r =
     (if r < 128 then [r]
      else if r < 2048 then [192 + r div 64, 128 + r mod 64]
      else if r < 65536 then [224 + r div 4096, 128 + r div 64 mod 64, 128 + r mod 64]
      else [240 + r div 262144, 128 + r div 4096 mod 64, 128 + r div 64 mod 64, 128 + r mod 64])"

definition encode_rune :: "rune \<Rightarrow> byte list" where
  "encode_rune r = map word_of_nat (encode_nats (if scalar r then r else 65533))"

lemma decode2_width: "0 < snd (decode2 x xs)"
  by (cases "(x, xs)" rule: decode2.cases) (simp_all add: bad_rune_def)

lemma decode3_width: "0 < snd (decode3 x xs)"
  by (cases "(x, xs)" rule: decode3.cases) (simp_all add: bad_rune_def)

lemma decode4_width: "0 < snd (decode4 x xs)"
  by (cases "(x, xs)" rule: decode4.cases) (simp_all add: bad_rune_def)

lemma decode_rune_width: "0 < snd (decode_rune (b # bs))"
  by (simp add: decode_rune_def decode2_width decode3_width decode4_width bad_rune_def)

function runes :: "byte list \<Rightarrow> rune list" where
  "runes [] = []"
| "runes (b # bs) =
     (case decode_rune (b # bs) of (r, n) \<Rightarrow> r # runes (drop n (b # bs)))"
  by pat_completeness auto
termination
proof (relation "measure length")
  fix b :: byte and bs r n
  assume "(r, n) = decode_rune (b # bs)"
  then have "0 < n" using decode_rune_width [of b bs] by (metis snd_conv)
  then show "(drop n (b # bs), b # bs) \<in> measure length" by simp
qed simp

function utf8_valid :: "byte list \<Rightarrow> bool" where
  "utf8_valid [] = True"
| "utf8_valid (b # bs) =
     (case decode_rune (b # bs) of (r, n) \<Rightarrow> (r, n) \<noteq> bad_rune \<and> utf8_valid (drop n (b # bs)))"
  by pat_completeness auto
termination
proof (relation "measure length")
  fix b :: byte and bs r n
  assume "(r, n) = decode_rune (b # bs)"
  then have "0 < n" using decode_rune_width [of b bs] by (metis snd_conv)
  then show "(drop n (b # bs), b # bs) \<in> measure length" by simp
qed simp

declare runes.simps [simp del] utf8_valid.simps [simp del]

definition rune_count :: "byte list \<Rightarrow> nat" where
  "rune_count bs = length (runes bs)"

definition utf8_encode :: "rune list \<Rightarrow> byte list" where
  "utf8_encode rs = concat (map encode_rune rs)"

section \<open>Decoding undoes encoding\<close>

lemma base64_split:
  fixes r :: nat
  shows "r = r div 64 * 64 + r mod 64"
    and "r = r div 4096 * 4096 + r div 64 mod 64 * 64 + r mod 64"
    and "r = r div 262144 * 262144 + r div 4096 mod 64 * 4096 + r div 64 mod 64 * 64 + r mod 64"
proof -
  have a: "r = r div 64 * 64 + r mod 64" for r :: nat by simp
  have b: "r div 64 = r div 4096 * 64 + r div 64 mod 64"
    using a [of "r div 64"] by (simp add: div_mult2_eq [symmetric])
  have c: "r div 4096 = r div 262144 * 64 + r div 4096 mod 64"
    using a [of "r div 4096"] by (simp add: div_mult2_eq [symmetric])
  show "r = r div 64 * 64 + r mod 64" by (rule a)
  show "r = r div 4096 * 4096 + r div 64 mod 64 * 64 + r mod 64"
    using a [of r] b by linarith
  show "r = r div 262144 * 262144 + r div 4096 mod 64 * 4096 + r div 64 mod 64 * 64 + r mod 64"
    using a [of r] b c by linarith
qed

lemma decode_encode_2:
  assumes "128 \<le> r" and "r < 2048"
  shows "decode_nats ([192 + r div 64, 128 + r mod 64] @ rest) = (r, 2)"
proof -
  have "2 \<le> r div 64" "r div 64 < 32" "r mod 64 \<le> 63" "r div 64 * 64 + r mod 64 = r"
    using assms by (auto simp: less_Suc_eq_le [symmetric])
  then show ?thesis by (simp add: cont_byte_def)
qed

lemma decode_encode_3:
  assumes "2048 \<le> r" and "r < 65536" and "scalar r"
  shows "decode_nats ([224 + r div 4096, 128 + r div 64 mod 64, 128 + r mod 64] @ rest) = (r, 3)"
proof -
  define x y z where "x = r div 4096" and "y = r div 64 mod 64" and "z = r mod 64"
  have r: "r = x * 4096 + y * 64 + z"
    unfolding x_def y_def z_def by (rule base64_split)
  have b: "x < 16" "y < 64" "z < 64" using assms by (auto simp: x_def y_def z_def)
  have lo: "x \<noteq> 0 \<or> 32 \<le> y" and hi: "x \<noteq> 13 \<or> y \<le> 31"
    using assms r b by (auto simp: scalar_def)
  have c: "(if 224 + x = 224 then 160 else 128) \<le> 128 + y"
    "128 + y \<le> (if 224 + x = 237 then 159 else 191)" "cont_byte (128 + z)"
    using b lo hi by (auto simp: cont_byte_def)
  have "decode3 (224 + x) ((128 + y) # (128 + z) # rest) = (x * 4096 + y * 64 + z, 3)"
    by (simp only: decode3.simps c simp_thms if_True) simp
  with b(1) have "decode_nats ([224 + x, 128 + y, 128 + z] @ rest) = (x * 4096 + y * 64 + z, 3)"
    by (simp del: decode3.simps)
  then show ?thesis unfolding r [symmetric] unfolding x_def y_def z_def .
qed

lemma decode_encode_4:
  assumes "65536 \<le> r" and "r < 1114112"
  shows "decode_nats
      ([240 + r div 262144, 128 + r div 4096 mod 64, 128 + r div 64 mod 64, 128 + r mod 64] @ rest)
    = (r, 4)"
proof -
  define w x y z where "w = r div 262144" and "x = r div 4096 mod 64" and "y = r div 64 mod 64"
    and "z = r mod 64"
  have r: "r = w * 262144 + x * 4096 + y * 64 + z"
    unfolding w_def x_def y_def z_def by (rule base64_split)
  have b: "w < 5" "x < 64" "y < 64" "z < 64" using assms by (auto simp: w_def x_def y_def z_def)
  have lo: "w \<noteq> 0 \<or> 16 \<le> x" and hi: "w \<noteq> 4 \<or> x \<le> 15"
    using assms r b by auto
  have c: "(if 240 + w = 240 then 144 else 128) \<le> 128 + x"
    "128 + x \<le> (if 240 + w = 244 then 143 else 191)" "cont_byte (128 + y)" "cont_byte (128 + z)"
    using b lo hi by (auto simp: cont_byte_def)
  have "decode4 (240 + w) ((128 + x) # (128 + y) # (128 + z) # rest)
      = (w * 262144 + x * 4096 + y * 64 + z, 4)"
    by (simp only: decode4.simps c simp_thms if_True) simp
  with b(1) have "decode_nats ([240 + w, 128 + x, 128 + y, 128 + z] @ rest)
      = (w * 262144 + x * 4096 + y * 64 + z, 4)"
    by (simp del: decode4.simps)
  then show ?thesis unfolding r [symmetric] unfolding w_def x_def y_def z_def .
qed

lemma decode_encode_nats:
  assumes "scalar r"
  shows "decode_nats (encode_nats r @ rest) = (r, length (encode_nats r))"
proof -
  consider "r < 128" | "128 \<le> r" "r < 2048" | "2048 \<le> r" "r < 65536" | "65536 \<le> r" "r < 1114112"
    using assms unfolding scalar_def by linarith
  then show ?thesis
  proof cases
    case 1
    then show ?thesis by (simp add: encode_nats_def)
  next
    case 2
    then show ?thesis using decode_encode_2 [of r rest] by (simp add: encode_nats_def)
  next
    case 3
    then show ?thesis using decode_encode_3 [of r rest] assms by (simp add: encode_nats_def)
  next
    case 4
    then show ?thesis using decode_encode_4 [of r rest] by (simp add: encode_nats_def)
  qed
qed

lemma encode_nats_bytes:
  assumes "scalar r"
  shows "map unat (map word_of_nat (encode_nats r) :: byte list) = encode_nats r"
proof -
  have "r < 1114112" using assms by (auto simp: scalar_def)
  then have "\<forall>n \<in> set (encode_nats r). n < 256"
    by (auto simp: encode_nats_def)
  then show ?thesis by (simp add: unat_of_nat map_idI)
qed

lemma decode_encode_rune:
  assumes "scalar r"
  shows "decode_rune (encode_rune r @ rest) = (r, length (encode_rune r))"
  using decode_encode_nats [OF assms, of "map unat rest"] encode_nats_bytes [OF assms] assms
  by (simp add: decode_rune_def encode_rune_def)

lemma encode_rune_not_Nil [simp]: "encode_rune r \<noteq> []"
  by (simp add: encode_rune_def encode_nats_def)

lemma encode_rune_length: "1 \<le> length (encode_rune r)" "length (encode_rune r) \<le> 4"
  by (simp_all add: encode_rune_def encode_nats_def)

lemma scalar_not_bad:
  assumes "scalar r"
  shows "(r, length (encode_rune r)) \<noteq> bad_rune"
  using assms by (auto simp: bad_rune_def encode_rune_def encode_nats_def)

lemma runes_encode_Cons:
  assumes "scalar r"
  shows "runes (encode_rune r @ rest) = r # runes rest"
    and "utf8_valid (encode_rune r @ rest) = utf8_valid rest"
proof -
  obtain b bs where b: "encode_rune r @ rest = b # bs"
    by (cases "encode_rune r @ rest") auto
  have d: "decode_rune (b # bs) = (r, length (encode_rune r))"
    using decode_encode_rune [OF assms, of rest] by (simp only: b)
  have t: "drop (length (encode_rune r)) (b # bs) = rest"
    by (simp only: b [symmetric]) simp
  show "runes (encode_rune r @ rest) = r # runes rest"
    by (simp only: b runes.simps d prod.case t)
  show "utf8_valid (encode_rune r @ rest) = utf8_valid rest"
    using scalar_not_bad [OF assms] by (simp only: b utf8_valid.simps d prod.case t simp_thms)
qed

lemma runes_utf8_encode: "\<forall>r \<in> set rs. scalar r \<Longrightarrow> runes (utf8_encode rs) = rs"
  by (induction rs) (auto simp: utf8_encode_def runes_encode_Cons runes.simps(1))

lemma utf8_valid_encode: "\<forall>r \<in> set rs. scalar r \<Longrightarrow> utf8_valid (utf8_encode rs)"
  by (induction rs) (auto simp: utf8_encode_def runes_encode_Cons utf8_valid.simps(1))

text \<open>A rune takes at least one byte and at most four.\<close>

lemma rune_count_le_length: "rune_count bs \<le> length bs"
proof (induction bs rule: runes.induct)
  case 1
  then show ?case by (simp add: rune_count_def runes.simps)
next
  case (2 b bs)
  obtain r n where d: "decode_rune (b # bs) = (r, n)" by force
  with decode_rune_width [of b bs] have "0 < n" by simp
  moreover have "rune_count (drop n (b # bs)) \<le> length (drop n (b # bs))"
    by (rule "2") (simp_all add: d)
  ultimately show ?case using d by (simp add: rune_count_def runes.simps(2))
qed

section \<open>ASCII\<close>

definition ascii :: "byte list \<Rightarrow> bool" where
  "ascii bs \<longleftrightarrow> list_all (\<lambda>b. unat b < 128) bs"

lemma ascii_runes: "ascii bs \<Longrightarrow> runes bs = map unat bs"
  by (induction bs) (auto simp: ascii_def runes.simps decode_rune_def)

lemma ascii_valid: "ascii bs \<Longrightarrow> utf8_valid bs"
  by (induction bs) (auto simp: ascii_def utf8_valid.simps bad_rune_def decode_rune_def)

lemma ascii_rune_count: "ascii bs \<Longrightarrow> rune_count bs = length bs"
  by (simp add: rune_count_def ascii_runes)

end
