(* ===== verification/Codec.thy ===== *)
theory Codec
  imports Utf8
begin

text \<open>
  \<^verbatim>\<open>internal/proto/codec.go\<close>: VarInts, length-prefixed frames, the \<^verbatim>\<open>Buffer\<close> that reads packet
  fields and the \<^verbatim>\<open>Builder\<close> that appends them.

  A \<^verbatim>\<open>Buffer\<close> is the byte list that is left to read (\<^verbatim>\<open>b.b[b.off:]\<close>), so a read returns the value
  and the new rest; a read that fails returns its error, and no caller uses the buffer after an
  error. A connection's reader is the list of the bytes the peer will send; its end is
  \<open>E_eof\<close>. A \<^verbatim>\<open>Builder\<close> is the byte list built so far, and every method appends.

  The locale \<open>wire_field\<close> is the contract between one field's writer and reader. It is interpreted
  for VarInts, big-endian integers, Booleans, byte arrays and strings, and gives round trips for
  counted sequences of fields.
\<close>

unbundle bit_operations_syntax

datatype perr =
    E_eof
  | E_varint_too_big
  | E_short_buffer
  | E_frame_too_big
  | E_invalid_frame_length nat
  | E_byte_array_length int int
  | E_invalid_string
  | E_unexpected_packet int
  | E_unexpected_fml_channel string
  | E_expected_mod_list_reply int
  | E_forge_d_too_short
  | E_forge_d_size int
  | E_forge_d_char
  | E_forge_d_short

type_synonym 'a reader = "byte list \<Rightarrow> perr + 'a \<times> byte list"

definition MaxFrameLen :: nat where
  "MaxFrameLen = 2097151"

section \<open>Reading\<close>

text \<open>\<^verbatim>\<open>ReadVarInt\<close>: the loop from iteration \<open>i\<close> with the value \<open>v\<close> read so far.\<close>

fun read_varint_loop :: "nat \<Rightarrow> 32 word \<Rightarrow> int reader" where
  "read_varint_loop i v bs =
     (if i \<ge> 5 then Inl E_varint_too_big
      else case bs of
             [] \<Rightarrow> Inl E_short_buffer
           | b # rest \<Rightarrow>
               (let v' = v OR push_bit (7 * i) (ucast (b AND 0x7F)) in
                if b AND 0x80 = 0 then Inr (sint v', rest)
                else read_varint_loop (Suc i) v' rest))"

declare read_varint_loop.simps [simp del]

definition read_varint :: "int reader" where
  "read_varint bs = read_varint_loop 0 0 bs"

definition read_byte :: "byte reader" where
  "read_byte bs = (case bs of [] \<Rightarrow> Inl E_short_buffer | b # rest \<Rightarrow> Inr (b, rest))"

definition read_bytes :: "int \<Rightarrow> byte list reader" where
  "read_bytes n bs =
     (if n < 0 \<or> n > int (length bs) then Inl E_short_buffer
      else Inr (take (nat n) bs, drop (nat n) bs))"

definition read_bool :: "bool reader" where
  "read_bool bs = sum_bind (read_byte bs) (\<lambda>(c, rest). Inr (c \<noteq> 0, rest))"

definition read_uint16 :: "nat reader" where
  "read_uint16 bs = sum_bind (read_bytes 2 bs) (\<lambda>(s, rest). Inr (be_dec s, rest))"

definition read_int64 :: "int reader" where
  "read_int64 bs =
     sum_bind (read_bytes 8 bs) (\<lambda>(s, rest). Inr (sint (word_of_nat (be_dec s) :: 64 word), rest))"

definition read_byte_array :: "int \<Rightarrow> byte list reader" where
  "read_byte_array mx bs =
     sum_bind (read_varint bs)
       (\<lambda>(n, rest). if n > mx then Inl (E_byte_array_length n mx) else read_bytes n rest)"

definition read_string :: "nat \<Rightarrow> string reader" where
  "read_string mx bs =
     sum_bind (read_byte_array (int (mx * 3)) bs)
       (\<lambda>(s, rest). if \<not> utf8_valid s \<or> rune_count s > mx then Inl E_invalid_string
                    else Inr (str s, rest))"

text \<open>
  \<^verbatim>\<open>ReadFrame\<close>: the prefix loop collects the length prefix, then the frame is read in full. The
  result is the raw frame, its payload and the rest of the stream.
\<close>

fun frame_prefix :: "nat \<Rightarrow> 32 word \<Rightarrow> byte list \<Rightarrow> byte list \<Rightarrow> perr + (byte list \<times> 32 word) \<times> byte list" where
  "frame_prefix i n prefix bs =
     (if i \<ge> 3 then Inl E_frame_too_big
      else case bs of
             [] \<Rightarrow> Inl E_eof
           | b # rest \<Rightarrow>
               (let n' = n OR push_bit (7 * i) (ucast (b AND 0x7F)) in
                if b AND 0x80 = 0 then Inr ((prefix @ [b], n'), rest)
                else frame_prefix (Suc i) n' (prefix @ [b]) rest))"

declare frame_prefix.simps [simp del]

definition read_frame :: "byte list \<Rightarrow> perr + (byte list \<times> byte list) \<times> byte list" where
  "read_frame bs =
     sum_bind (frame_prefix 0 0 [] bs)
       (\<lambda>((prefix, w), rest).
          let n = unat w in
          if n = 0 \<or> n > MaxFrameLen then Inl (E_invalid_frame_length n)
          else if n > length rest then Inl E_eof
          else Inr ((prefix @ take n rest, take n rest), drop n rest))"

section \<open>Writing\<close>

text \<open>\<^verbatim>\<open>AppendVarInt\<close>: the loop on the unsigned value, then the whole method.\<close>

function varint_loop :: "32 word \<Rightarrow> byte list" where
  "varint_loop u = (if u \<ge> 0x80 then (ucast u OR 0x80) # varint_loop (drop_bit 7 u) else [ucast u])"
  by pat_completeness auto
termination
  by (relation "measure unat")
    (auto simp: word_le_nat_alt drop_bit_eq_div unat_div)

declare varint_loop.simps [simp del]

definition append_varint :: "byte list \<Rightarrow> int \<Rightarrow> byte list" where
  "append_varint b v = b @ varint_loop (word_of_int v)"

definition new_packet :: "int \<Rightarrow> byte list" where
  "new_packet pid = append_varint [] pid"

definition b_raw :: "byte list \<Rightarrow> byte list \<Rightarrow> byte list" where
  "b_raw v p = p @ v"

definition b_varint :: "int \<Rightarrow> byte list \<Rightarrow> byte list" where
  "b_varint v p = append_varint p v"

definition b_bool :: "bool \<Rightarrow> byte list \<Rightarrow> byte list" where
  "b_bool v p = (if v then p @ [1] else p @ [0])"

definition b_byte :: "byte \<Rightarrow> byte list \<Rightarrow> byte list" where
  "b_byte v p = p @ [v]"

definition b_uint16 :: "nat \<Rightarrow> byte list \<Rightarrow> byte list" where
  "b_uint16 v p = p @ be_enc 2 v"

definition b_int16 :: "int \<Rightarrow> byte list \<Rightarrow> byte list" where
  "b_int16 v p = b_uint16 (nat (v mod 2 ^ 16)) p"

definition b_int32 :: "int \<Rightarrow> byte list \<Rightarrow> byte list" where
  "b_int32 v p = p @ be_int 4 v"

definition b_int64 :: "int \<Rightarrow> byte list \<Rightarrow> byte list" where
  "b_int64 v p = p @ be_int 8 v"

definition b_byte_array :: "byte list \<Rightarrow> byte list \<Rightarrow> byte list" where
  "b_byte_array v p = append_varint p (to_int32 (int (length v))) @ v"

definition b_string :: "string \<Rightarrow> byte list \<Rightarrow> byte list" where
  "b_string v p = b_byte_array (bytes v) p"

definition frame_of :: "byte list \<Rightarrow> byte list" where
  "frame_of p = append_varint [] (to_int32 (int (length p))) @ p"

section \<open>VarInts\<close>

lemma mask7: "(0x7F :: 'a::len word) = mask 7"
  by (simp add: mask_eq_exp_minus_1)

lemma bit_128: "bit (0x80 :: 'a::len word) n \<longleftrightarrow> n = 7 \<and> 7 < LENGTH('a)"
proof -
  have "(0x80 :: 'a word) = 2 ^ 7" by simp
  then show ?thesis by (simp only: bit_exp_iff) (auto simp: fold_possible_bit)
qed

lemma bit_128_int: "bit (0x80 :: int) n \<longleftrightarrow> n = 7"
proof -
  have "(0x80 :: int) = 2 ^ 7" by simp
  then show ?thesis by (simp only: bit_exp_iff) simp
qed

lemmas bit_80 = bit_128 bit_128_int

lemma low7_of_more: "ucast ((ucast u OR 0x80 :: byte) AND 0x7F) = (u AND 0x7F :: 32 word)"
  unfolding mask7 by (rule bit_word_eqI) (auto simp: bit_simps bit_80)

lemma more_bit: "((ucast (u :: 32 word) :: byte) OR 0x80) AND 0x80 \<noteq> 0"
proof -
  have "bit (((ucast u :: byte) OR 0x80) AND 0x80) 7"
    by (simp add: bit_simps bit_80)
  then show ?thesis by auto
qed

lemma small_bits: "(u :: 32 word) < 0x80 \<Longrightarrow> u = take_bit 7 u"
  by (simp add: take_bit_eq_mod word_less_nat_alt word_unat_eq_iff unat_mod)

lemma last_bit:
  assumes "(u :: 32 word) < 0x80"
  shows "(ucast u :: byte) AND 0x80 = 0"
proof (rule bit_word_eqI)
  fix n
  assume "n < LENGTH(8)"
  have "bit u n \<longleftrightarrow> n < 7 \<and> bit u n"
    by (subst small_bits [OF assms]) (simp add: bit_simps)
  then show "bit ((ucast u :: byte) AND 0x80) n \<longleftrightarrow> bit (0 :: byte) n"
    by (auto simp: bit_simps bit_80)
qed

lemma low7_of_last:
  assumes "(u :: 32 word) < 0x80"
  shows "ucast ((ucast u :: byte) AND 0x7F) = u"
proof -
  have "ucast ((ucast u :: byte) AND 0x7F) = (take_bit 7 u :: 32 word)"
    unfolding mask7 by (rule bit_word_eqI) (auto simp: bit_simps)
  then show ?thesis using small_bits [OF assms] by simp
qed

lemma join7: "push_bit n (u AND 0x7F) OR push_bit (n + 7) (drop_bit 7 u) = push_bit n (u :: 32 word)"
proof -
  have "(u AND 0x7F) OR push_bit 7 (drop_bit 7 u) = u"
  proof (rule bit_word_eqI)
    fix n
    show "bit ((u AND 0x7F) OR push_bit 7 (drop_bit 7 u)) n = bit u n"
      unfolding mask7 by (cases "n < 7") (auto simp: bit_simps not_less dest: bit_imp_le_length)
  qed
  then show ?thesis
    by (metis push_bit_or push_bit_push_bit)
qed

lemma read_varint_loop_varint:
  "i < 5 \<Longrightarrow> unat u < 2 ^ (32 - 7 * i) \<Longrightarrow>
   read_varint_loop i v (varint_loop u @ rest) = Inr (sint (v OR push_bit (7 * i) u), rest)"
proof (induction u arbitrary: i v rule: varint_loop.induct)
  case (1 u)
  show ?case
  proof (cases "u \<ge> 0x80")
    case False
    then have small: "u < 0x80" by simp
    show ?thesis using False "1.prems"
      by (simp add: varint_loop.simps [of u] read_varint_loop.simps [of i]
        last_bit [OF small] low7_of_last [OF small] Let_def)
  next
    case True
    then have ge: "128 \<le> unat u" by (simp add: word_le_nat_alt)
    have i: "i < 4"
    proof (rule ccontr)
      assume "\<not> i < 4"
      with "1.prems"(1) have "i = 4" by simp
      with "1.prems"(2) ge show False by simp
    qed
    have "unat u < 2 ^ (32 - 7 * Suc i) * 128"
    proof -
      have "32 - 7 * i = (32 - 7 * Suc i) + 7" using i by simp
      then show ?thesis using "1.prems"(2) by (simp only: power_add) simp
    qed
    then have "unat (drop_bit 7 u) < 2 ^ (32 - 7 * Suc i)"
      by (simp add: drop_bit_eq_div unat_div less_mult_imp_div_less)
    with i have IH: "read_varint_loop (Suc i) w (varint_loop (drop_bit 7 u) @ rest)
        = Inr (sint (w OR push_bit (7 * Suc i) (drop_bit 7 u)), rest)" for w
      by (intro "1.IH" True) simp_all
    have "v OR push_bit (7 * i) (u AND 0x7F) OR push_bit (7 * Suc i) (drop_bit 7 u)
        = v OR push_bit (7 * i) u"
      using join7 [of "7 * i" u] by (simp add: or.assoc add.commute)
    then show ?thesis using True i
      by (simp add: varint_loop.simps [of u] read_varint_loop.simps [of i] more_bit low7_of_more
        Let_def IH or.assoc)
  qed
qed

lemma read_varint_put:
  assumes "int32_range v"
  shows "read_varint (varint_loop (word_of_int v) @ rest) = Inr (v, rest)"
proof -
  have "unat (word_of_int v :: 32 word) < 2 ^ (32 - 7 * 0)"
    using unsigned_less [of "word_of_int v :: 32 word"] by simp
  from read_varint_loop_varint [OF _ this, of 0 rest]
  have "read_varint (varint_loop (word_of_int v) @ rest) = Inr (to_int32 v, rest)"
    by (simp add: read_varint_def to_int32_def)
  then show ?thesis using to_int32_id [OF assms] by simp
qed

lemma varint_loop_length:
  "0 < n \<Longrightarrow> unat u < 2 ^ (7 * n) \<Longrightarrow> length (varint_loop u) \<le> n"
proof (induction n arbitrary: u)
  case 0
  then show ?case by simp
next
  case (Suc n)
  show ?case
  proof (cases "u \<ge> 0x80")
    case False
    then show ?thesis by (simp add: varint_loop.simps [of u])
  next
    case True
    have d: "unat (drop_bit 7 u) < 2 ^ (7 * n)"
    proof -
      have "unat u < 2 ^ (7 * n) * 128"
        using Suc.prems(2) by (simp add: power_add)
      then show ?thesis by (simp add: drop_bit_eq_div unat_div less_mult_imp_div_less)
    qed
    have "n \<noteq> 0"
    proof
      assume "n = 0"
      with Suc.prems(2) True show False by (simp add: word_le_nat_alt)
    qed
    with Suc.IH [OF _ d] True show ?thesis by (simp add: varint_loop.simps [of u])
  qed
qed

lemma varint_loop_not_Nil [simp]: "varint_loop u \<noteq> []"
  by (subst varint_loop.simps) simp

lemma read_varint_loop_Inr:
  "read_varint_loop i v bs = Inr (x, rest) \<Longrightarrow>
   \<exists>used. bs = used @ rest \<and> used \<noteq> [] \<and> length used + i \<le> 5 \<and> int32_range x"
proof (induction i v bs rule: read_varint_loop.induct)
  case (1 i v bs)
  from "1.prems" obtain b bs' where bs: "bs = b # bs'" and i: "i < 5"
    by (auto simp: read_varint_loop.simps [of i] split: if_splits list.splits)
  show ?case
  proof (cases "b AND 0x80 = 0")
    case True
    with "1.prems" bs i show ?thesis
      by (auto simp: read_varint_loop.simps [of i] Let_def sint32_range intro!: exI [of _ "[b]"])
  next
    case False
    with "1.prems" bs i
    have "read_varint_loop (Suc i) (v OR push_bit (7 * i) (ucast (b AND 0x7F))) bs' = Inr (x, rest)"
      by (simp add: read_varint_loop.simps [of i] Let_def)
    with "1.IH" bs i False obtain used where "bs' = used @ rest" "length used + Suc i \<le> 5"
      "int32_range x"
      by fastforce
    with bs show ?thesis by (intro exI [of _ "b # used"]) simp
  qed
qed

lemma read_varint_Inr:
  "read_varint bs = Inr (x, rest) \<Longrightarrow>
   \<exists>used. bs = used @ rest \<and> used \<noteq> [] \<and> length used \<le> 5 \<and> int32_range x"
  unfolding read_varint_def by (drule read_varint_loop_Inr) simp

section \<open>The contract between a field's writer and its reader\<close>

text \<open>
  \<open>read_upto\<close> is the loop \<^verbatim>\<open>for i := 0; i < n; i++\<close> that reads one field per round and stops at the
  first error: it returns the fields read and either the error or the rest of the buffer.
  \<open>fold put xs\<close> is the loop that appends one field per element.
\<close>

fun read_upto :: "'a reader \<Rightarrow> nat \<Rightarrow> byte list \<Rightarrow> 'a list \<times> (perr + byte list)" where
  "read_upto get 0 bs = ([], Inr bs)"
| "read_upto get (Suc n) bs =
     (case get bs of
        Inl e \<Rightarrow> ([], Inl e)
      | Inr (x, rest) \<Rightarrow> (case read_upto get n rest of (xs, r) \<Rightarrow> (x # xs, r)))"

text \<open>Reading with a function applied to every element.\<close>

lemma read_upto_map:
  assumes "\<And>bs. get' bs = sum_bind (get bs) (\<lambda>(x, rest). Inr (f x, rest))"
  shows "read_upto get' n bs = (case read_upto get n bs of (xs, r) \<Rightarrow> (map f xs, r))"
  by (induction n arbitrary: bs) (auto simp: assms split: sum.splits prod.splits)

locale wire_field =
  fixes put :: "'a \<Rightarrow> byte list \<Rightarrow> byte list"
    and get :: "'a reader"
    and ok :: "'a \<Rightarrow> bool"
  assumes put_append: "put v p = p @ put v []"
    and get_put: "ok v \<Longrightarrow> get (put v [] @ rest) = Inr (v, rest)"
    and get_consumes: "get bs = Inr (v, rest) \<Longrightarrow> \<exists>used. bs = used @ rest"
begin

lemma put_append_left: "p @ put v q = put v (p @ q)"
  by (metis append_assoc put_append)

lemma put_ne: "p \<noteq> [] \<Longrightarrow> put v p = p @ put v []"
  by (rule put_append)

lemma fold_put_append: "fold put xs p = p @ fold put xs []"
proof (induction xs arbitrary: p)
  case Nil
  then show ?case by simp
next
  case (Cons x xs)
  have "fold put (x # xs) p = put x p @ fold put xs []"
    using Cons [of "put x p"] by simp
  also have "\<dots> = p @ put x [] @ fold put xs []"
    using put_append [of x p] by simp
  also have "\<dots> = p @ fold put (x # xs) []"
    using Cons [of "put x []"] by simp
  finally show ?case .
qed

lemma read_upto_fold:
  "list_all ok xs \<Longrightarrow> read_upto get (length xs) (fold put xs [] @ rest) = (xs, Inr rest)"
proof (induction xs)
  case Nil
  then show ?case by simp
next
  case (Cons x xs)
  have "fold put (x # xs) [] @ rest = put x [] @ fold put xs [] @ rest"
    using fold_put_append [of xs "put x []"] by simp
  with Cons show ?case by (simp add: get_put del: fold_simps)
qed

lemma read_upto_consumes:
  "read_upto get n bs = (xs, Inr rest) \<Longrightarrow> length xs = n \<and> (\<exists>used. bs = used @ rest)"
proof (induction n arbitrary: bs xs)
  case 0
  then show ?case by simp
next
  case (Suc n)
  then obtain x bs' ys where x: "get bs = Inr (x, bs')" and "read_upto get n bs' = (ys, Inr rest)"
    and "xs = x # ys"
    by (auto split: sum.splits prod.splits)
  with Suc.IH get_consumes [OF x] show ?case by fastforce
qed

end

text \<open>A field that always takes at least one byte: a count read from the wire cannot produce more
  elements than there are bytes.\<close>

locale strict_field = wire_field +
  assumes get_progress: "get bs = Inr (v, rest) \<Longrightarrow> length rest < length bs"
begin

lemma read_upto_bounded: "length (fst (read_upto get n bs)) \<le> length bs"
proof (induction n arbitrary: bs)
  case 0
  then show ?case by simp
next
  case (Suc n)
  show ?case
  proof (cases "get bs")
    case (Inl e)
    then show ?thesis by simp
  next
    case (Inr p)
    obtain x rest where p: "p = (x, rest)" by force
    with Inr have "length rest < length bs" by (simp add: get_progress)
    with Suc [of rest] Inr p show ?thesis by (auto split: prod.splits)
  qed
qed

end

definition byte_array_ok :: "int \<Rightarrow> byte list \<Rightarrow> bool" where
  "byte_array_ok mx v \<longleftrightarrow> int (length v) \<le> mx \<and> length v < 2 ^ 31"

definition string_ok :: "nat \<Rightarrow> string \<Rightarrow> bool" where
  "string_ok mx s \<longleftrightarrow> utf8_valid (bytes s) \<and> rune_count (bytes s) \<le> mx \<and> length s \<le> mx * 3 \<and> length s < 2 ^ 31"

lemma length_int32: "length v < 2 ^ 31 \<Longrightarrow> to_int32 (int (length v)) = int (length v)"
  by (rule to_int32_id) (simp add: int32_range_def)

lemma read_bytes_append: "read_bytes (int (length v)) (v @ rest) = Inr (v, rest)"
  by (simp add: read_bytes_def)

lemma read_bytes_Inr:
  "read_bytes n bs = Inr (v, rest) \<longleftrightarrow> 0 \<le> n \<and> bs = v @ rest \<and> int (length v) = n"
  by (auto simp: read_bytes_def split: if_splits)

lemma read_byte_array_put:
  assumes "byte_array_ok mx v"
  shows "read_byte_array mx (b_byte_array v [] @ rest) = Inr (v, rest)"
proof -
  have "int32_range (int (length v))"
    using assms by (simp add: byte_array_ok_def int32_range_def)
  from read_varint_put [OF this, of "v @ rest"]
  have "read_varint (varint_loop (word_of_nat (length v)) @ v @ rest) = Inr (int (length v), v @ rest)"
    by simp
  with assms show ?thesis
    by (simp add: read_byte_array_def b_byte_array_def append_varint_def byte_array_ok_def
        length_int32 read_bytes_append)
qed

lemma read_byte_array_Inr:
  "read_byte_array mx bs = Inr (v, rest) \<Longrightarrow>
   \<exists>used. bs = used @ v @ rest \<and> used \<noteq> [] \<and> int (length v) \<le> mx"
  by (auto simp: read_byte_array_def sum_bind_eq_Inr read_bytes_Inr dest!: read_varint_Inr
      split: if_splits)

lemma read_string_put:
  assumes "string_ok mx s"
  shows "read_string mx (b_string s [] @ rest) = Inr (s, rest)"
proof -
  have "byte_array_ok (int (mx * 3)) (bytes s)"
    using assms unfolding string_ok_def byte_array_ok_def length_bytes by linarith
  with assms show ?thesis
    by (simp add: read_string_def b_string_def string_ok_def read_byte_array_put del: of_nat_mult)
qed

lemma read_string_Inr:
  "read_string mx bs = Inr (s, rest) \<Longrightarrow>
   (\<exists>used. bs = used @ bytes s @ rest \<and> used \<noteq> []) \<and> rune_count (bytes s) \<le> mx \<and> utf8_valid (bytes s)"
  by (auto simp: read_string_def sum_bind_eq_Inr dest!: read_byte_array_Inr split: if_splits)

interpretation varint_field: strict_field b_varint read_varint int32_range
proof
  fix v :: int and p rest bs :: "byte list"
  show "b_varint v p = p @ b_varint v []"
    by (simp add: b_varint_def append_varint_def)
  show "int32_range v \<Longrightarrow> read_varint (b_varint v [] @ rest) = Inr (v, rest)"
    by (simp add: b_varint_def append_varint_def read_varint_put)
  assume "read_varint bs = Inr (v, rest)"
  then obtain used where "bs = used @ rest" "used \<noteq> []" by (blast dest: read_varint_Inr)
  then show "\<exists>used. bs = used @ rest" and "length rest < length bs" by auto
qed

interpretation bool_field: strict_field b_bool read_bool "\<lambda>_. True"
  by unfold_locales
    (auto simp: b_bool_def read_bool_def read_byte_def sum_bind_eq_Inr split: list.splits)

interpretation uint16_field: strict_field b_uint16 read_uint16 "\<lambda>v. v < 65536"
proof
  fix v :: nat and p rest bs :: "byte list"
  show "b_uint16 v p = p @ b_uint16 v []"
    by (simp add: b_uint16_def)
  show "read_uint16 (b_uint16 v [] @ rest) = Inr (v, rest)" if "v < 65536"
    using that read_bytes_append [of "be_enc 2 v" rest]
    by (simp add: b_uint16_def read_uint16_def be_dec_enc)
  assume "read_uint16 bs = Inr (v, rest)"
  then show "\<exists>used. bs = used @ rest" and "length rest < length bs"
    by (auto simp: read_uint16_def sum_bind_eq_Inr read_bytes_Inr)
qed

interpretation byte_array_field: strict_field b_byte_array "read_byte_array mx" "byte_array_ok mx" for mx
proof
  fix v p rest bs :: "byte list"
  show "b_byte_array v p = p @ b_byte_array v []"
    by (simp add: b_byte_array_def append_varint_def)
  show "byte_array_ok mx v \<Longrightarrow> read_byte_array mx (b_byte_array v [] @ rest) = Inr (v, rest)"
    by (rule read_byte_array_put)
  assume "read_byte_array mx bs = Inr (v, rest)"
  then obtain used where "bs = used @ v @ rest" "used \<noteq> []" by (blast dest: read_byte_array_Inr)
  then show "\<exists>used. bs = used @ rest" and "length rest < length bs" by auto
qed

interpretation string_field: strict_field b_string "read_string mx" "string_ok mx" for mx
proof
  fix v :: string and p rest bs :: "byte list"
  show "b_string v p = p @ b_string v []"
    by (simp add: b_string_def byte_array_field.put_append [of _ p])
  show "string_ok mx v \<Longrightarrow> read_string mx (b_string v [] @ rest) = Inr (v, rest)"
    by (rule read_string_put)
  assume "read_string mx bs = Inr (v, rest)"
  then obtain used where "bs = used @ bytes v @ rest" "used \<noteq> []" by (blast dest: read_string_Inr)
  then show "\<exists>used. bs = used @ rest" and "length rest < length bs" by auto
qed

lemmas put_append =
  varint_field.put_append bool_field.put_append uint16_field.put_append
  byte_array_field.put_append string_field.put_append

lemmas put_ne =
  varint_field.put_ne bool_field.put_ne uint16_field.put_ne
  byte_array_field.put_ne string_field.put_ne

lemma put_not_Nil [simp]:
  "b_varint v p \<noteq> []" "new_packet v \<noteq> []" "b_bool t p \<noteq> []" "b_byte_array a p \<noteq> []"
  "b_string s p \<noteq> []" "b_uint16 n p \<noteq> []"
  by (simp_all add: b_varint_def new_packet_def append_varint_def b_bool_def b_byte_array_def
      b_string_def b_uint16_def)

lemma new_packet_varint: "new_packet v = b_varint v []"
  by (simp add: new_packet_def b_varint_def)

lemma length_append_varint: "length (append_varint p v) \<le> length p + 5"
proof -
  have "unat (word_of_int v :: 32 word) < 2 ^ (7 * 5)"
    using unsigned_less [of "word_of_int v :: 32 word"] by (rule less_trans) simp
  then have "length (varint_loop (word_of_int v)) \<le> 5"
    by (intro varint_loop_length) simp_all
  then show ?thesis by (simp add: append_varint_def)
qed

lemma length_put:
  "length (b_varint v p) \<le> length p + 5"
  "length (b_string s p) \<le> length p + 5 + length s"
  "length (b_uint16 n p) = length p + 2"
  using length_append_varint [of p v] length_append_varint [of p "to_int32 (int (length s))"]
  by (simp_all add: b_varint_def b_string_def b_byte_array_def b_uint16_def)

lemmas get_put =
  varint_field.get_put bool_field.get_put uint16_field.get_put
  byte_array_field.get_put string_field.get_put

section \<open>Frames\<close>

lemma frame_prefix_varint:
  "i < 3 \<Longrightarrow> unat u < 2 ^ (21 - 7 * i) \<Longrightarrow>
   frame_prefix i n pre (varint_loop u @ rest) = Inr ((pre @ varint_loop u, n OR push_bit (7 * i) u), rest)"
proof (induction u arbitrary: i n pre rule: varint_loop.induct)
  case (1 u)
  show ?case
  proof (cases "u \<ge> 0x80")
    case False
    then have small: "u < 0x80" by simp
    show ?thesis using False "1.prems"
      by (simp add: varint_loop.simps [of u] frame_prefix.simps [of i]
        last_bit [OF small] low7_of_last [OF small] Let_def)
  next
    case True
    then have ge: "128 \<le> unat u" by (simp add: word_le_nat_alt)
    have i: "i < 2"
    proof (rule ccontr)
      assume "\<not> i < 2"
      with "1.prems"(1) have "i = 2" by simp
      with "1.prems"(2) ge show False by simp
    qed
    have "unat u < 2 ^ (21 - 7 * Suc i) * 128"
    proof -
      have "21 - 7 * i = (21 - 7 * Suc i) + 7" using i by simp
      then show ?thesis using "1.prems"(2) by (simp only: power_add) simp
    qed
    then have "unat (drop_bit 7 u) < 2 ^ (21 - 7 * Suc i)"
      by (simp add: drop_bit_eq_div unat_div less_mult_imp_div_less)
    with i have IH: "frame_prefix (Suc i) w q (varint_loop (drop_bit 7 u) @ rest)
        = Inr ((q @ varint_loop (drop_bit 7 u), w OR push_bit (7 * Suc i) (drop_bit 7 u)), rest)" for w q
      by (intro "1.IH" True) simp_all
    have "n OR push_bit (7 * i) (u AND 0x7F) OR push_bit (7 * Suc i) (drop_bit 7 u)
        = n OR push_bit (7 * i) u"
      using join7 [of "7 * i" u] by (simp add: or.assoc add.commute)
    then show ?thesis using True i
      by (simp add: varint_loop.simps [of u] frame_prefix.simps [of i] more_bit low7_of_more
        Let_def IH or.assoc)
  qed
qed

lemma frame_prefix_Inr:
  "frame_prefix i n pre bs = Inr ((prefix, w), rest) \<Longrightarrow>
   \<exists>used. bs = used @ rest \<and> prefix = pre @ used \<and> used \<noteq> [] \<and> length used + i \<le> 3"
proof (induction i n pre bs rule: frame_prefix.induct)
  case (1 i n pre bs)
  from "1.prems" obtain b bs' where bs: "bs = b # bs'" and i: "i < 3"
    by (auto simp: frame_prefix.simps [of i] split: if_splits list.splits)
  show ?case
  proof (cases "b AND 0x80 = 0")
    case True
    with "1.prems" bs i show ?thesis
      by (auto simp: frame_prefix.simps [of i] Let_def)
  next
    case False
    with "1.prems" bs i
    have "frame_prefix (Suc i) (n OR push_bit (7 * i) (ucast (b AND 0x7F))) (pre @ [b]) bs'
        = Inr ((prefix, w), rest)"
      by (simp add: frame_prefix.simps [of i] Let_def)
    with "1.IH" bs i False obtain used where "bs' = used @ rest" "length used + Suc i \<le> 3"
      "prefix = (pre @ [b]) @ used"
      by fastforce
    with bs show ?thesis by (intro exI [of _ "b # used"]) simp
  qed
qed

lemma read_frame_Inr:
  assumes "read_frame bs = Inr ((raw, payload), rest)"
  shows "bs = raw @ rest" and "payload \<noteq> []" and "length payload \<le> MaxFrameLen"
    and "\<exists>prefix. raw = prefix @ payload \<and> 1 \<le> length prefix \<and> length prefix \<le> 3"
proof -
  from assms obtain prefix w bs' where p: "frame_prefix 0 0 [] bs = Inr ((prefix, w), bs')"
    and n: "unat w \<noteq> 0" "unat w \<le> MaxFrameLen" "unat w \<le> length bs'"
    and r: "raw = prefix @ take (unat w) bs'" "payload = take (unat w) bs'" "rest = drop (unat w) bs'"
    by (auto simp: read_frame_def sum_bind_eq_Inr Let_def split: if_splits)
  from frame_prefix_Inr [OF p] have u: "bs = prefix @ bs'" "prefix \<noteq> []" "length prefix \<le> 3"
    by auto
  show "bs = raw @ rest" "payload \<noteq> []" "length payload \<le> MaxFrameLen"
    using u r n by auto
  have "1 \<le> length prefix" using u(2) by (cases prefix) auto
  with r u show "\<exists>prefix. raw = prefix @ payload \<and> 1 \<le> length prefix \<and> length prefix \<le> 3"
    by blast
qed

text \<open>Only the frame itself decides how it is read, not what follows it.\<close>

lemma frame_prefix_local:
  "frame_prefix i n pre bs = Inr ((prefix, w), rest) \<Longrightarrow>
   \<exists>used. prefix = pre @ used \<and> frame_prefix i n pre (used @ x) = Inr ((prefix, w), x)"
proof (induction i n pre bs rule: frame_prefix.induct)
  case (1 i n pre bs)
  from "1.prems" obtain b bs' where bs: "bs = b # bs'" and i: "i < 3"
    by (auto simp: frame_prefix.simps [of i] split: if_splits list.splits)
  show ?case
  proof (cases "b AND 0x80 = 0")
    case True
    with "1.prems" bs i show ?thesis
      by (intro exI [of _ "[b]"]) (auto simp: frame_prefix.simps [of i] Let_def)
  next
    case False
    with "1.prems" bs i
    have "frame_prefix (Suc i) (n OR push_bit (7 * i) (ucast (b AND 0x7F))) (pre @ [b]) bs'
        = Inr ((prefix, w), rest)"
      by (simp add: frame_prefix.simps [of i] Let_def)
    with "1.IH" bs i False obtain used where "prefix = (pre @ [b]) @ used"
      "frame_prefix (Suc i) (n OR push_bit (7 * i) (ucast (b AND 0x7F))) (pre @ [b]) (used @ x)
        = Inr ((prefix, w), x)"
      by fastforce
    with False i show ?thesis
      by (intro exI [of _ "b # used"]) (simp add: frame_prefix.simps [of i] Let_def)
  qed
qed

lemma read_frame_local:
  assumes "read_frame bs = Inr ((raw, payload), rest)"
  shows "read_frame (raw @ x) = Inr ((raw, payload), x)"
proof -
  from assms obtain prefix w bs' where p: "frame_prefix 0 0 [] bs = Inr ((prefix, w), bs')"
    and n: "unat w \<noteq> 0" "unat w \<le> MaxFrameLen" "unat w \<le> length bs'"
    and r: "raw = prefix @ take (unat w) bs'" "payload = take (unat w) bs'"
    by (auto simp: read_frame_def sum_bind_eq_Inr Let_def split: if_splits)
  have "frame_prefix 0 0 [] (raw @ x) = Inr ((prefix, w), take (unat w) bs' @ x)"
    using frame_prefix_local [OF p, of "take (unat w) bs' @ x"] r by auto
  then show ?thesis using n r by (simp add: read_frame_def Let_def)
qed

text \<open>\<^verbatim>\<open>readFrames\<close> of the lobby and the limbo: the payloads the pump delivers, up to the first
  error.\<close>

function read_frames :: "byte list \<Rightarrow> byte list list" where
  "read_frames bs =
     (case read_frame bs of Inl e \<Rightarrow> [] | Inr ((raw, payload), rest) \<Rightarrow> payload # read_frames rest)"
  by pat_completeness auto
termination
proof (relation "measure length")
  fix bs rest :: "byte list" and p q raw payload
  assume "read_frame bs = Inr p" and "(q, rest) = p" and "(raw, payload) = q"
  then have "read_frame bs = Inr ((raw, payload), rest)" by simp
  from read_frame_Inr [OF this] show "(rest, bs) \<in> measure length" by auto
qed simp

declare read_frames.simps [simp del]

lemma read_frame_put:
  assumes "p \<noteq> []" and "length p \<le> MaxFrameLen"
  shows "read_frame (frame_of p @ rest) = Inr ((frame_of p, p), rest)"
proof -
  define u :: "32 word" where "u = word_of_nat (length p)"
  have len: "length p < 2 ^ 21" "length p < 2 ^ 31" using assms(2) by (simp_all add: MaxFrameLen_def)
  then have u: "unat u = length p" by (simp add: u_def unat_of_nat)
  have f: "frame_of p = varint_loop u @ p"
    using len(2) by (simp add: frame_of_def append_varint_def length_int32 u_def)
  have "frame_prefix 0 0 [] (varint_loop u @ p @ rest) = Inr ((varint_loop u, u), p @ rest)"
    using frame_prefix_varint [of 0 u 0 "[]" "p @ rest"] u len(1) by simp
  then show ?thesis using assms u
    by (simp add: read_frame_def f Let_def)
qed

lemma read_frames_put:
  assumes "\<forall>p \<in> set ps. p \<noteq> [] \<and> length p \<le> MaxFrameLen"
  shows "read_frames (concat (map frame_of ps) @ rest) = ps @ read_frames rest"
  using assms by (induction ps) (auto simp: read_frame_put read_frames.simps [of "frame_of _ @ _"])

section \<open>Properties\<close>

text \<open>A VarInt written with AppendVarInt takes one to five bytes, and ReadVarInt reads exactly
  those bytes back to the same int32, whatever follows.\<close>

theorem varint_roundtrip:
  assumes "int32_range v"
  shows "read_varint (append_varint [] v @ rest) = Inr (v, rest)
    \<and> 1 \<le> length (append_varint [] v) \<and> length (append_varint [] v) \<le> 5"
proof -
  have "1 \<le> length (varint_loop (word_of_int v))"
    using varint_loop_not_Nil [of "word_of_int v"] by (cases "varint_loop (word_of_int v)") auto
  then show ?thesis
    using read_varint_put [OF assms, of rest] length_append_varint [of "[]" v]
    by (simp add: append_varint_def)
qed

theorem varint_roundtrip_witness:
  "read_varint (append_varint [] (- 1) @ [7]) = Inr (- 1, [7]) \<and> length (append_varint [] (- 1)) \<le> 5"
  using varint_roundtrip [of "- 1" "[7]"] by (simp add: int32_range_def)

text \<open>C26: ReadFrame hands over exactly the bytes it consumed: on success the stream is the raw frame
  followed by the rest, the payload is the raw frame without a prefix of one to three bytes, and the
  payload is neither empty nor longer than the protocol allows, so replaying raw to a backend loses
  and adds nothing.\<close>

theorem frame_replay_exact:
  assumes "read_frame bs = Inr ((raw, payload), rest)"
  shows "bs = raw @ rest \<and> (\<exists>prefix. raw = prefix @ payload \<and> 1 \<le> length prefix \<and> length prefix \<le> 3)
    \<and> 1 \<le> length payload \<and> length payload \<le> 2097151"
proof (intro conjI)
  show "bs = raw @ rest" by (rule read_frame_Inr(1) [OF assms])
  show "\<exists>prefix. raw = prefix @ payload \<and> 1 \<le> length prefix \<and> length prefix \<le> 3"
    by (rule read_frame_Inr(4) [OF assms])
  show "1 \<le> length payload" using read_frame_Inr(2) [OF assms] by (cases payload) auto
  show "length payload \<le> 2097151" using read_frame_Inr(3) [OF assms] by (simp add: MaxFrameLen_def)
qed

theorem frame_replay_exact_witness:
  "[2, 0, 9, 4 :: byte] = [2, 0, 9] @ [4]
   \<and> (\<exists>prefix. [2, 0, 9 :: byte] = prefix @ [0, 9] \<and> 1 \<le> length prefix \<and> length prefix \<le> 3)"
proof -
  have "read_frame [2, 0, 9, 4] = Inr (([2, 0, 9], [0, 9]), [4])" by code_simp
  from frame_replay_exact [OF this] show ?thesis by simp
qed

text \<open>A client that sends packets framed by Frame, each between 1 and 2097151 bytes, is read back
  packet by packet: the frame pump delivers exactly the packets, in order, before whatever follows.\<close>

theorem frames_roundtrip:
  assumes "\<forall>p \<in> set ps. p \<noteq> [] \<and> length p \<le> 2097151"
  shows "read_frames (concat (map frame_of ps) @ rest) = ps @ read_frames rest"
  using assms read_frames_put [of ps rest] by (simp add: MaxFrameLen_def)

theorem frames_roundtrip_witness:
  "read_frames (concat (map frame_of [[0], [1, 2, 3]]) @ [5]) = [[0], [1, 2, 3]] @ read_frames [5]"
  by (rule frames_roundtrip) simp

end
