(* ===== verification/Packets.thy ===== *)
theory Packets
  imports Codec
begin

text \<open>
  \<^verbatim>\<open>internal/proto/packets.go\<close>: the handshake and login start packets, the login success packet,
  the FML mod list exchange and the names of protocol versions. The lemmas show that a handshake
  the gateway writes is read back unchanged, that a parsed handshake is always one that can be
  written again, and that the mod list reply of a Forge client is decoded completely.
\<close>

section \<open>Protocol constants\<close>

definition IntentStatus :: int where [simp]: "IntentStatus = 1"
definition IntentLogin :: int where [simp]: "IntentLogin = 2"
definition IntentTransfer :: int where [simp]: "IntentTransfer = 3"

definition Proto1_13 :: int where [simp]: "Proto1_13 = 393"
definition Proto1_18 :: int where [simp]: "Proto1_18 = 757"
definition Proto1_20_1 :: int where [simp]: "Proto1_20_1 = 763"
definition Proto1_20_2 :: int where [simp]: "Proto1_20_2 = 764"
definition Proto1_20_5 :: int where [simp]: "Proto1_20_5 = 766"
definition Proto1_21_2 :: int where [simp]: "Proto1_21_2 = 768"
definition Proto1_21_6 :: int where [simp]: "Proto1_21_6 = 771"

definition LoginDisconnectID :: int where [simp]: "LoginDisconnectID = 0"
definition LoginSuccessID :: int where [simp]: "LoginSuccessID = 2"
definition LoginPluginRequestID :: int where [simp]: "LoginPluginRequestID = 4"
definition LoginCookieRequestID :: int where [simp]: "LoginCookieRequestID = 5"
definition LoginStartID :: int where [simp]: "LoginStartID = 0"
definition LoginPluginResponseID :: int where [simp]: "LoginPluginResponseID = 2"
definition LoginAcknowledgedID :: int where [simp]: "LoginAcknowledgedID = 3"
definition LoginCookieResponseID :: int where [simp]: "LoginCookieResponseID = 4"

definition CfgPluginMessageOutID :: int where [simp]: "CfgPluginMessageOutID = 1"
definition CfgDisconnectID :: int where [simp]: "CfgDisconnectID = 2"
definition CfgKeepAliveOutID :: int where [simp]: "CfgKeepAliveOutID = 4"
definition CfgStoreCookieID :: int where [simp]: "CfgStoreCookieID = 10"
definition CfgTransferID :: int where [simp]: "CfgTransferID = 11"
definition CfgShowDialogID :: int where [simp]: "CfgShowDialogID = 18"
definition CfgPluginMessageInID :: int where [simp]: "CfgPluginMessageInID = 2"
definition CfgCustomClickActionID :: int where [simp]: "CfgCustomClickActionID = 8"

section \<open>Handshake\<close>

record handshake =
  hs_protocol :: int
  hs_address :: string
  hs_port :: nat
  hs_intent :: int

definition parse_handshake :: "byte list \<Rightarrow> perr + handshake" where
  "parse_handshake payload =
     sum_bind (read_varint payload) (\<lambda>(pid, b).
     if pid \<noteq> 0 then Inl (E_unexpected_packet pid)
     else sum_bind (read_varint b) (\<lambda>(protocol, b).
          sum_bind (read_string 1024 b) (\<lambda>(address, b).
          sum_bind (read_uint16 b) (\<lambda>(port, b).
          sum_bind (read_varint b) (\<lambda>(intent, b).
          Inr \<lparr>hs_protocol = protocol, hs_address = address, hs_port = port, hs_intent = intent\<rparr>)))))"

definition handshake_packet :: "handshake \<Rightarrow> byte list" where
  "handshake_packet h =
     b_varint (hs_intent h) (b_uint16 (hs_port h)
       (b_string (hs_address h) (b_varint (hs_protocol h) (new_packet 0))))"

definition handshake_frame :: "handshake \<Rightarrow> byte list" where
  "handshake_frame h = frame_of (handshake_packet h)"

text \<open>\<^verbatim>\<open>Host\<close>: without markers, trailing dot or case. \<^verbatim>\<open>Marker\<close>: the loader marker, or empty.\<close>

definition hs_host :: "handshake \<Rightarrow> string" where
  "hs_host h = (case cut (CHR 0x00) (hs_address h) of (host, _, _) \<Rightarrow> to_lower (trim_suffix host ''.''))"

definition hs_marker :: "handshake \<Rightarrow> string" where
  "hs_marker h =
     (case cut (CHR 0x00) (hs_address h) of
        (_, rest, found) \<Rightarrow>
          if \<not> found then [] else (case cut (CHR 0x00) rest of (marker, _, _) \<Rightarrow> marker))"

section \<open>Login\<close>

record login_start =
  ls_name :: string
  ls_uuid :: "byte list"
  ls_has_uuid :: bool

definition zero_uuid :: "byte list" where
  "zero_uuid = replicate 16 0"

definition parse_login_start :: "byte list \<Rightarrow> int \<Rightarrow> perr + login_start" where
  "parse_login_start payload protocol =
     sum_bind (read_varint payload) (\<lambda>(pid, b).
     if pid \<noteq> LoginStartID then Inl (E_unexpected_packet pid)
     else sum_bind (read_string 16 b) (\<lambda>(name, b).
          Inr (if protocol \<ge> Proto1_20_2
               then (case read_bytes 16 b of
                       Inl _ \<Rightarrow> \<lparr>ls_name = name, ls_uuid = zero_uuid, ls_has_uuid = False\<rparr>
                     | Inr (u, _) \<Rightarrow> \<lparr>ls_name = name, ls_uuid = u, ls_has_uuid = True\<rparr>)
               else \<lparr>ls_name = name, ls_uuid = zero_uuid, ls_has_uuid = False\<rparr>)))"

definition login_success :: "int \<Rightarrow> byte list \<Rightarrow> string \<Rightarrow> byte list" where
  "login_success protocol uuid name =
     (let p = b_varint 0 (b_string name (b_raw uuid (new_packet LoginSuccessID)))
      in frame_of (if protocol < Proto1_21_2 then b_bool True p else p))"

section \<open>Version names\<close>

definition version_names :: "(int \<times> string) list" where
  "version_names =
    [(5, ''1.7.10''), (47, ''1.8.x''), (110, ''1.9.4''), (210, ''1.10.x''), (316, ''1.11.2''), (340, ''1.12.2''),
     (393, ''1.13''), (401, ''1.13.1''), (404, ''1.13.2''), (477, ''1.14''), (480, ''1.14.1''), (485, ''1.14.2''),
     (490, ''1.14.3''), (498, ''1.14.4''), (573, ''1.15''), (575, ''1.15.1''), (578, ''1.15.2''), (735, ''1.16''),
     (736, ''1.16.1''), (751, ''1.16.2''), (753, ''1.16.3''), (754, ''1.16.4-5''), (755, ''1.17''), (756, ''1.17.1''),
     (757, ''1.18-1.18.1''), (758, ''1.18.2''), (759, ''1.19''), (760, ''1.19.1-2''), (761, ''1.19.3''),
     (762, ''1.19.4''), (763, ''1.20-1.20.1''), (764, ''1.20.2''), (765, ''1.20.3-4''), (766, ''1.20.5-6''),
     (767, ''1.21-1.21.1''), (768, ''1.21.2-3''), (769, ''1.21.4''), (770, ''1.21.5''), (771, ''1.21.6''),
     (772, ''1.21.7-8''), (773, ''1.21.9-10''), (774, ''1.21.11''), (775, ''26.1.x''), (776, ''26.2'')]"

definition version_name :: "int \<Rightarrow> string" where
  "version_name protocol =
     (case map_of version_names protocol of Some v \<Rightarrow> v | None \<Rightarrow> ''protocol '' @ itoa protocol)"

section \<open>FML mod lists\<close>

record forge_channel =
  fc_name :: string
  fc_version :: string
  fc_accepts_absent :: bool

definition fml_mod_list_request ::
  "int \<Rightarrow> bool \<Rightarrow> string list \<Rightarrow> forge_channel list \<Rightarrow> byte list" where
  "fml_mod_list_request messageID fml3 mods channels =
     (let inner = fold b_string mods (b_varint (to_int32 (int (length mods))) (new_packet 1));
          inner = fold (\<lambda>c p. b_string (fc_version c) (b_string (fc_name c) p)) channels
                    (b_varint (to_int32 (int (length channels))) inner);
          inner = b_varint 0 inner;
          inner = (if fml3 then b_varint 0 inner else inner);
          wrapper = b_byte_array inner (b_string ''fml:handshake'' (new_packet 0));
          data = drop 1 wrapper
      in frame_of (b_raw data (b_string ''fml:loginwrapper''
           (b_varint messageID (new_packet LoginPluginRequestID)))))"

text \<open>One round of the channel loop of \<^verbatim>\<open>ParseFMLModListReply\<close>: the name, then the version.\<close>

definition read_channel_name :: "string reader" where
  "read_channel_name b =
     sum_bind (read_string 256 b) (\<lambda>(c, b). sum_bind (read_string 256 b) (\<lambda>(_, b). Inr (c, b)))"

definition parse_fml_mod_list_reply :: "byte list \<Rightarrow> perr + string list \<times> string list" where
  "parse_fml_mod_list_reply data =
     (case read_string 256 data of
        Inl _ \<Rightarrow> Inl (E_unexpected_fml_channel [])
      | Inr (ch, b) \<Rightarrow>
          if ch \<noteq> ''fml:handshake'' then Inl (E_unexpected_fml_channel ch)
          else sum_bind (read_byte_array (int MaxFrameLen) b) (\<lambda>(inner, _).
            case read_varint inner of
              Inl _ \<Rightarrow> Inl (E_expected_mod_list_reply 0)
            | Inr (pid, b) \<Rightarrow>
                if pid \<noteq> 2 then Inl (E_expected_mod_list_reply pid)
                else sum_bind (read_varint b) (\<lambda>(n, b).
                  case read_upto (read_string 256) (nat n) b of
                    (mods, Inl e) \<Rightarrow> Inl e
                  | (mods, Inr b) \<Rightarrow>
                      (case read_varint b of
                         Inl _ \<Rightarrow> Inr (mods, [])
                       | Inr (n, b) \<Rightarrow> Inr (mods, fst (read_upto read_channel_name (nat n) b))))))"

section \<open>Lemmas\<close>

text \<open>What a handshake on the wire can carry.\<close>

definition valid_handshake :: "handshake \<Rightarrow> bool" where
  "valid_handshake h \<longleftrightarrow> int32_range (hs_protocol h) \<and> string_ok 1024 (hs_address h)
     \<and> hs_port h < 65536 \<and> int32_range (hs_intent h)"

lemma parse_handshake_packet:
  assumes "valid_handshake h"
  shows "parse_handshake (handshake_packet h @ rest) = Inr h"
proof -
  have "int32_range 0" by (simp add: int32_range_def)
  with assms show ?thesis
    by (simp add: parse_handshake_def handshake_packet_def valid_handshake_def new_packet_varint
        put_ne get_put)
qed

lemma handshake_packet_length:
  assumes "valid_handshake h"
  shows "handshake_packet h \<noteq> []" and "length (handshake_packet h) \<le> MaxFrameLen"
proof -
  show "handshake_packet h \<noteq> []" by (simp add: handshake_packet_def)
  have "length (hs_address h) \<le> 3072"
    using assms by (simp add: valid_handshake_def string_ok_def)
  moreover have "length (handshake_packet h) \<le> 5 + 5 + (5 + length (hs_address h)) + 2 + 5"
    using length_put(1) [of "hs_intent h"
        "b_uint16 (hs_port h) (b_string (hs_address h) (b_varint (hs_protocol h) (new_packet 0)))"]
      length_put(2) [of "hs_address h" "b_varint (hs_protocol h) (new_packet 0)"]
      length_put(1) [of "hs_protocol h" "new_packet 0"] length_put(1) [of 0 "[]"]
    by (simp add: handshake_packet_def new_packet_varint length_put(3))
  ultimately show "length (handshake_packet h) \<le> MaxFrameLen" by (simp add: MaxFrameLen_def)
qed

lemma read_string_ok:
  assumes "read_string mx bs = Inr (s, rest)" and "mx * 3 < 2 ^ 31"
  shows "string_ok mx s"
proof -
  from assms(1) obtain v where v: "read_byte_array (int (mx * 3)) bs = Inr (v, rest)" and
    "s = str v" "utf8_valid v" "rune_count v \<le> mx"
    by (auto simp: read_string_def sum_bind_eq_Inr split: if_splits)
  with read_byte_array_Inr [OF v] assms(2) show ?thesis
    by (auto simp: string_ok_def)
qed

lemma read_uint16_less: "read_uint16 bs = Inr (v, rest) \<Longrightarrow> v < 65536"
proof -
  assume "read_uint16 bs = Inr (v, rest)"
  then obtain s where "v = be_dec s" "length s = 2"
    by (auto simp: read_uint16_def sum_bind_eq_Inr read_bytes_Inr)
  then show ?thesis using be_dec_less [of s] by simp
qed

lemma parse_handshake_valid:
  assumes "parse_handshake p = Inr h"
  shows "valid_handshake h"
proof -
  from assms obtain protocol b1 b2 address b3 port b4 intent b5 where
    "read_varint b1 = Inr (protocol, b2)" "read_string 1024 b2 = Inr (address, b3)"
    "read_uint16 b3 = Inr (port, b4)" "read_varint b4 = Inr (intent, b5)"
    "h = \<lparr>hs_protocol = protocol, hs_address = address, hs_port = port, hs_intent = intent\<rparr>"
    by (auto simp: parse_handshake_def sum_bind_eq_Inr split: if_splits)
  then show ?thesis
    using read_varint_Inr [of b1 protocol b2] read_varint_Inr [of b4 intent b5]
      read_string_ok [of 1024 b2 address b3] read_uint16_less [of b3 port b4]
    by (auto simp: valid_handshake_def)
qed

lemma hs_host_lower: "to_lower (hs_host h) = hs_host h"
  by (auto simp: hs_host_def split: prod.splits)

text \<open>The pairs of the reply: a channel's name and version, written as two strings.\<close>

definition b_channel_pair :: "string \<times> string \<Rightarrow> byte list \<Rightarrow> byte list" where
  "b_channel_pair c p = b_string (snd c) (b_string (fst c) p)"

definition fml_reply :: "string list \<Rightarrow> (string \<times> string) list \<Rightarrow> byte list \<Rightarrow> byte list" where
  "fml_reply mods channels extra =
     b_byte_array (fold b_channel_pair channels (b_varint (int (length channels))
        (fold b_string mods (b_varint (int (length mods)) (new_packet 2)))) @ extra)
      (b_string ''fml:handshake'' [])"

definition read_channel_pair :: "(string \<times> string) reader" where
  "read_channel_pair b =
     sum_bind (read_string 256 b) (\<lambda>(c, b). sum_bind (read_string 256 b) (\<lambda>(v, b). Inr ((c, v), b)))"

definition pair_ok :: "string \<times> string \<Rightarrow> bool" where
  "pair_ok c \<longleftrightarrow> string_ok 256 (fst c) \<and> string_ok 256 (snd c)"

interpretation channel_field: strict_field b_channel_pair read_channel_pair pair_ok
proof
  fix c :: "string \<times> string" and p rest bs :: "byte list"
  show "b_channel_pair c p = p @ b_channel_pair c []"
    by (simp add: b_channel_pair_def string_field.put_append_left)
  show "pair_ok c \<Longrightarrow> read_channel_pair (b_channel_pair c [] @ rest) = Inr (c, rest)"
    by (simp add: b_channel_pair_def read_channel_pair_def pair_ok_def put_ne get_put)
  assume "read_channel_pair bs = Inr (c, rest)"
  then obtain b where r: "read_string 256 bs = Inr (fst c, b)" "read_string 256 b = Inr (snd c, rest)"
    by (auto simp: read_channel_pair_def sum_bind_eq_Inr)
  then show "\<exists>used. bs = used @ rest"
    using string_field.get_consumes [OF r(1)] string_field.get_consumes [OF r(2)] by auto
  show "length rest < length bs"
    using string_field.get_progress [OF r(1)] string_field.get_progress [OF r(2)] by simp
qed

lemma read_channel_name_pair:
  "read_channel_name b = sum_bind (read_channel_pair b) (\<lambda>(c, rest). Inr (fst c, rest))"
  by (auto simp: read_channel_name_def read_channel_pair_def sum_bind_def split: sum.splits)

lemma read_channel_names:
  "list_all pair_ok cs \<Longrightarrow>
   read_upto read_channel_name (length cs) (fold b_channel_pair cs [] @ rest) = (map fst cs, Inr rest)"
  by (simp add: read_upto_map [OF read_channel_name_pair] channel_field.read_upto_fold)

lemma fml_reply_inner:
  assumes "length mods < 2 ^ 31" and "length channels < 2 ^ 31"
  shows "fold b_channel_pair channels (b_varint (int (length channels))
        (fold b_string mods (b_varint (int (length mods)) (new_packet 2))))
    = b_varint 2 [] @ b_varint (int (length mods)) [] @ fold b_string mods []
      @ b_varint (int (length channels)) [] @ fold b_channel_pair channels []"
  by (subst channel_field.fold_put_append, subst varint_field.put_append,
      subst string_field.fold_put_append, subst varint_field.put_append)
    (simp add: new_packet_varint)

lemma handshake_frame_parsed:
  assumes "valid_handshake h"
  shows "\<exists>payload. read_frame (handshake_frame h @ rest) = Inr ((handshake_frame h, payload), rest)
    \<and> parse_handshake payload = Inr h"
proof (intro exI conjI)
  show "read_frame (handshake_frame h @ rest) = Inr ((handshake_frame h, handshake_packet h), rest)"
    unfolding handshake_frame_def
    by (rule read_frame_put) (rule handshake_packet_length [OF assms])+
  show "parse_handshake (handshake_packet h) = Inr h"
    using parse_handshake_packet [OF assms, of "[]"] by simp
qed

section \<open>Properties\<close>

text \<open>The handshake frame the gateway writes is read back by a peer as the same handshake: the
  frame is one frame of the stream, its payload parses, and protocol, address, port and intent are
  unchanged.\<close>

theorem handshake_roundtrip:
  assumes "valid_handshake h"
  shows "\<exists>payload. read_frame (handshake_frame h @ rest) = Inr ((handshake_frame h, payload), rest)
    \<and> parse_handshake payload = Inr h"
  by (rule handshake_frame_parsed [OF assms])

definition example_handshake :: handshake where
  "example_handshake =
     \<lparr>hs_protocol = 767, hs_address = ''Play.Example.com'', hs_port = 25565, hs_intent = 3\<rparr>"

lemma example_handshake_valid: "valid_handshake example_handshake"
  by code_simp

theorem handshake_roundtrip_witness:
  "\<exists>payload. read_frame (handshake_frame example_handshake @ [1])
      = Inr ((handshake_frame example_handshake, payload), [1])
    \<and> parse_handshake payload = Inr example_handshake"
  by (rule handshake_roundtrip [OF example_handshake_valid])

text \<open>Every handshake the parser accepts has an int32 protocol and intent, a 16-bit port and a
  valid UTF-8 address of at most 1024 characters, and the host it names is lower case.\<close>

theorem handshake_parse_valid:
  assumes "parse_handshake payload = Inr h"
  shows "valid_handshake h \<and> to_lower (hs_host h) = hs_host h"
  using parse_handshake_valid [OF assms] hs_host_lower by blast

theorem handshake_parse_valid_witness: "valid_handshake example_handshake"
proof -
  have "parse_handshake (handshake_packet example_handshake) = Inr example_handshake"
    using parse_handshake_packet [OF example_handshake_valid, of "[]"] by simp
  from handshake_parse_valid [OF this] show ?thesis by simp
qed

text \<open>A Forge client's mod list reply is decoded completely: all mods and the names of all
  channels come back in order, and what follows them (the registries) is ignored.\<close>

theorem fml_reply_decoded:
  assumes mods: "list_all (string_ok 256) mods" "length mods < 2 ^ 31"
    and channels: "list_all pair_ok channels" "length channels < 2 ^ 31"
    and size: "length (fml_reply mods channels extra) \<le> MaxFrameLen"
  shows "parse_fml_mod_list_reply (fml_reply mods channels extra) = Inr (mods, map fst channels)"
proof -
  define inner where "inner = b_varint 2 [] @ b_varint (int (length mods)) [] @ fold b_string mods []
      @ b_varint (int (length channels)) [] @ fold b_channel_pair channels [] @ extra"
  have reply: "fml_reply mods channels extra = b_string ''fml:handshake'' [] @ b_byte_array inner []"
    using fml_reply_inner [OF mods(2) channels(2)]
    by (simp add: fml_reply_def inner_def byte_array_field.put_ne)
  have "length inner \<le> length (fml_reply mods channels extra)"
    by (simp add: reply b_byte_array_def)
  with size have "byte_array_ok (int MaxFrameLen) inner"
    by (simp add: byte_array_ok_def MaxFrameLen_def)
  then have ba: "read_byte_array (int MaxFrameLen) (b_byte_array inner []) = Inr (inner, [])"
    using read_byte_array_put [of _ inner "[]"] by simp
  have ch: "read_string 256 (b_string ''fml:handshake'' [] @ b_byte_array inner [])
      = Inr (''fml:handshake'', b_byte_array inner [])"
    by (rule read_string_put) code_simp
  have ranges: "int32_range 2" "int32_range (int (length mods))" "int32_range (int (length channels))"
    using mods channels by (simp_all add: int32_range_def)
  show ?thesis
    unfolding reply parse_fml_mod_list_reply_def
    using ranges mods channels
    by (simp add: ch ba) (simp add: inner_def get_put string_field.read_upto_fold read_channel_names)
qed

theorem fml_reply_decoded_witness:
  "parse_fml_mod_list_reply (fml_reply [''jei'', ''create''] [(''create:main'', ''1'')] [0])
    = Inr ([''jei'', ''create''], [''create:main''])"
proof -
  have "parse_fml_mod_list_reply (fml_reply [''jei'', ''create''] [(''create:main'', ''1'')] [0])
    = Inr ([''jei'', ''create''], map fst [(''create:main'', ''1'')])"
    by (rule fml_reply_decoded) code_simp+
  then show ?thesis by simp
qed

end
