(* ===== verification/Registry.thy ===== *)
theory Registry
  imports Packets
begin

text \<open>
  \<^verbatim>\<open>internal/registry/registry.go\<close>: the backend servers players can be routed to. The registry is
  the map from server ids to entries; every operation takes the current time where the code calls
  \<^verbatim>\<open>r.now()\<close>. The mutex makes each operation one atomic step, which is what a definition here is.

  The lemmas show that an id is always the key of its entry, that validation is idempotent (so a
  heartbeat keeps what the registration stored), that nobody can take over an id that is alive and
  owned by somebody else, and that a heartbeat keeps the live state the health checks found.

  The locale \<open>directory\<close> is what the router and the side port manager rely on: a lookup and a
  listing that agree. It is interpreted on the registry at any time.
\<close>

section \<open>Data\<close>

record channel =
  ch_name :: string
  ch_version :: string
  ch_required :: bool

record public_addr =
  pa_host :: string
  pa_port :: int

record side_port =
  sp_name :: string
  sp_protocol :: string
  sp_port :: int
  sp_preferred :: int
  sp_public :: "public_addr option"
  sp_error :: string

record server =
  sv_id :: string
  sv_name :: string
  sv_description :: string
  sv_address :: string
  sv_loader :: string
  sv_min_protocol :: int
  sv_max_protocol :: int
  sv_mods :: "string list"
  sv_required_client_mods :: "string list"
  sv_hidden :: bool
  sv_proxy_protocol :: bool
  sv_guard :: bool
  sv_guard_secret :: string
  sv_side_ports :: "side_port list"
  sv_reporter :: string
  sv_software :: string
  sv_protocols :: "int list"
  sv_mod_versions :: "(string \<times> string) list"
  sv_channels :: "channel list"
  sv_owner :: string
  sv_static :: bool
  sv_online :: bool
  sv_version_name :: string
  sv_protocol :: int
  sv_players :: int
  sv_max_players :: int
  sv_last_ping :: "time option"
  sv_forge_channels :: "forge_channel list"
  sv_forge_truncated :: bool
  sv_expires_at :: "time option"

text \<open>The zero value \<^verbatim>\<open>Server{}\<close>.\<close>

definition zero_server :: server where
  "zero_server = \<lparr>sv_id = [], sv_name = [], sv_description = [], sv_address = [], sv_loader = [],
     sv_min_protocol = 0, sv_max_protocol = 0, sv_mods = [], sv_required_client_mods = [],
     sv_hidden = False, sv_proxy_protocol = False, sv_guard = False, sv_guard_secret = [],
     sv_side_ports = [], sv_reporter = [], sv_software = [], sv_protocols = [], sv_mod_versions = [],
     sv_channels = [], sv_owner = [], sv_static = False, sv_online = False, sv_version_name = [],
     sv_protocol = 0, sv_players = 0, sv_max_players = 0, sv_last_ping = None, sv_forge_channels = [],
     sv_forge_truncated = False, sv_expires_at = None\<rparr>"

definition MaxSidePorts :: nat where
  "MaxSidePorts = 16"

text \<open>\<^verbatim>\<open>Accepts\<close>: the exact list if reported, else the declared range, else the pinged protocol.\<close>

definition accepts :: "server \<Rightarrow> int \<Rightarrow> bool" where
  "accepts s protocol =
     (if sv_protocols s \<noteq> [] then protocol \<in> set (sv_protocols s)
      else let lo = sv_min_protocol s; hi = sv_max_protocol s in
        if lo = 0 \<and> hi = 0 then sv_protocol s \<noteq> 0 \<and> protocol = sv_protocol s
        else let lo = (if lo = 0 then hi else lo); hi = (if hi = 0 then lo else hi)
             in lo \<le> protocol \<and> protocol \<le> hi)"

section \<open>Validation\<close>

datatype verr =
    V_id
  | V_reserved string
  | V_address_required
  | V_protocol_range
  | V_too_many
  | V_side_port_count
  | V_side_port_name
  | V_side_port_duplicate string
  | V_side_port_protocol string
  | V_side_port_range string
  | V_side_port_preferred string

definition alnum_lower :: "char \<Rightarrow> bool" where
  "alnum_lower c = (let n = (of_char c :: nat) in (97 \<le> n \<and> n \<le> 122) \<or> (48 \<le> n \<and> n \<le> 57))"

text \<open>The regular expression \<^verbatim>\<open>^[a-z0-9][a-z0-9-]{0,31}$\<close> of ids and of side port names.\<close>

definition id_pattern :: "string \<Rightarrow> bool" where
  "id_pattern s =
     (case s of
        [] \<Rightarrow> False
      | c # cs \<Rightarrow> alnum_lower c \<and> length cs \<le> 31 \<and> list_all (\<lambda>x. alnum_lower x \<or> x = CHR ''-'') cs)"

definition ReservedIDs :: "string list" where
  "ReservedIDs = [''lobby'', ''api'', ''www'', ''play'']"

fun validate_side_ports_loop :: "string list \<Rightarrow> side_port list \<Rightarrow> verr + side_port list" where
  "validate_side_ports_loop seen [] = Inr []"
| "validate_side_ports_loop seen (p # ps) =
     (let p = p\<lparr>sp_name := to_lower (trim_space (sp_name p)),
                sp_protocol := to_lower (trim_space (sp_protocol p)),
                sp_public := None, sp_error := []\<rparr> in
      if \<not> id_pattern (sp_name p) then Inl V_side_port_name
      else if sp_name p \<in> set seen then Inl (V_side_port_duplicate (sp_name p))
      else if sp_protocol p \<noteq> ''tcp'' \<and> sp_protocol p \<noteq> ''udp'' then Inl (V_side_port_protocol (sp_name p))
      else if sp_port p < 1 \<or> sp_port p > 65535 then Inl (V_side_port_range (sp_name p))
      else if sp_preferred p < 0 \<or> sp_preferred p > 65535 then Inl (V_side_port_preferred (sp_name p))
      else sum_bind (validate_side_ports_loop (sp_name p # seen) ps) (\<lambda>ps. Inr (p # ps)))"

definition validate_side_ports :: "side_port list \<Rightarrow> verr + side_port list" where
  "validate_side_ports ports =
     (if length ports > MaxSidePorts then Inl V_side_port_count else validate_side_ports_loop [] ports)"

definition validate :: "server \<Rightarrow> verr + server" where
  "validate s =
     (let s = s\<lparr>sv_id := to_lower (trim_space (sv_id s)), sv_loader := to_lower (trim_space (sv_loader s))\<rparr> in
      if \<not> id_pattern (sv_id s) then Inl V_id
      else if sv_id s \<in> set ReservedIDs then Inl (V_reserved (sv_id s))
      else if sv_address s = [] then Inl V_address_required
      else if sv_min_protocol s > sv_max_protocol s \<and> sv_max_protocol s \<noteq> 0 then Inl V_protocol_range
      else let s = s\<lparr>sv_name := (if sv_name s = [] then sv_id s else sv_name s),
                     sv_loader := (if sv_loader s = [] then ''vanilla'' else sv_loader s),
                     sv_mods := map to_lower (sv_mods s),
                     sv_required_client_mods := map to_lower (sv_required_client_mods s)\<rparr> in
        if length (sv_mods s) > 2000 \<or> length (sv_channels s) > 5000 \<or> length (sv_protocols s) > 1000
        then Inl V_too_many
        else let s = s\<lparr>sv_channels := map (\<lambda>c. c\<lparr>ch_name := to_lower (ch_name c)\<rparr>) (sv_channels s)\<rparr> in
          sum_bind (validate_side_ports (sv_side_ports s)) (\<lambda>ports. Inr (s\<lparr>sv_side_ports := ports\<rparr>)))"

section \<open>Operations\<close>

type_synonym registry = "(string \<times> server) list"

datatype reg_err = R_invalid verr | R_conflict | R_not_found

definition new_registry :: registry where
  "new_registry = []"

definition expired :: "time \<Rightarrow> server \<Rightarrow> bool" where
  "expired now s \<longleftrightarrow>
     \<not> sv_static s \<and> (case sv_expires_at s of None \<Rightarrow> True | Some t \<Rightarrow> now > t)"

text \<open>The live state that an entry with the same address hands on to its successor.\<close>

definition copy_live :: "server \<Rightarrow> server \<Rightarrow> server" where
  "copy_live old s =
     s\<lparr>sv_online := sv_online old, sv_version_name := sv_version_name old, sv_protocol := sv_protocol old,
       sv_players := sv_players old, sv_max_players := sv_max_players old, sv_last_ping := sv_last_ping old,
       sv_forge_channels := sv_forge_channels old, sv_forge_truncated := sv_forge_truncated old\<rparr>"

definition upsert ::
  "string \<Rightarrow> server \<Rightarrow> duration \<Rightarrow> time \<Rightarrow> registry \<Rightarrow> reg_err + server \<times> registry" where
  "upsert owner s ttl now r =
     (case validate s of
        Inl e \<Rightarrow> Inl (R_invalid e)
      | Inr s \<Rightarrow>
          (let old = map_of r (sv_id s) in
           if (case old of None \<Rightarrow> False | Some o' \<Rightarrow> sv_owner o' \<noteq> owner \<and> \<not> expired now o')
           then Inl R_conflict
           else let s = s\<lparr>sv_owner := owner, sv_static := (ttl \<le> 0)\<rparr>;
                    s = (if sv_static s then s
                         else s\<lparr>sv_guard_secret := [], sv_expires_at := Some (now + ttl)\<rparr>);
                    s = (case old of
                           Some o' \<Rightarrow> if sv_address o' = sv_address s then copy_live o' s else s
                         | None \<Rightarrow> s)
                in Inr (s, AList.update (sv_id s) s r)))"

definition remove :: "string \<Rightarrow> string \<Rightarrow> registry \<Rightarrow> reg_err + registry" where
  "remove owner i r =
     (case map_of r i of
        None \<Rightarrow> Inl R_not_found
      | Some s \<Rightarrow> if sv_owner s \<noteq> owner then Inl R_conflict else Inr (AList.delete i r))"

definition reg_get :: "time \<Rightarrow> registry \<Rightarrow> string \<Rightarrow> server option" where
  "reg_get now r i =
     (case map_of r i of None \<Rightarrow> None | Some s \<Rightarrow> if expired now s then None else Some s)"

definition reg_list :: "time \<Rightarrow> registry \<Rightarrow> server list" where
  "reg_list now r = sort_key sv_id (filter (\<lambda>s. \<not> expired now s) (map snd r))"

definition reg_online :: "time \<Rightarrow> registry \<Rightarrow> server list" where
  "reg_online now r = filter sv_online (reg_list now r)"

record health =
  h_online :: bool
  h_protocol :: int
  h_version_name :: string
  h_players :: int
  h_max_players :: int
  h_mods :: "string list"
  h_forge_channels :: "forge_channel list"
  h_forge_truncated :: bool

definition set_health :: "string \<Rightarrow> string \<Rightarrow> health \<Rightarrow> time \<Rightarrow> registry \<Rightarrow> registry" where
  "set_health i address h now r =
     (case map_of r i of
        None \<Rightarrow> r
      | Some s \<Rightarrow>
          if sv_address s \<noteq> address then r
          else let s = s\<lparr>sv_online := h_online h, sv_last_ping := Some now\<rparr>;
                   s = (if h_online h
                        then s\<lparr>sv_protocol := h_protocol h, sv_version_name := h_version_name h,
                               sv_players := h_players h, sv_max_players := h_max_players h,
                               sv_mods := (if sv_mods s = [] \<and> h_mods h \<noteq> [] then h_mods h else sv_mods s),
                               sv_forge_channels := h_forge_channels h,
                               sv_forge_truncated := h_forge_truncated h\<rparr>
                        else s)
               in AList.update i s r)"

definition set_side_ports :: "string \<Rightarrow> side_port list \<Rightarrow> registry \<Rightarrow> registry" where
  "set_side_ports i ports r =
     (case map_of r i of
        None \<Rightarrow> r
      | Some s \<Rightarrow>
          if map sp_name (sv_side_ports s) \<noteq> map sp_name ports then r
          else AList.update i (s\<lparr>sv_side_ports := ports\<rparr>) r)"

definition reg_prune :: "time \<Rightarrow> registry \<Rightarrow> registry" where
  "reg_prune now r = filter (\<lambda>(i, s). \<not> expired now s) r"

section \<open>Validation lemmas\<close>

lemma alnum_lower_fix: "alnum_lower c \<Longrightarrow> ascii_lower c = c" "alnum_lower c \<Longrightarrow> \<not> is_space c"
  by (auto simp: alnum_lower_def ascii_lower_def is_space_def Let_def)

definition id_char :: "char \<Rightarrow> bool" where
  "id_char c \<longleftrightarrow> alnum_lower c \<or> c = CHR ''-''"

lemma id_char_fix: "id_char c \<Longrightarrow> ascii_lower c = c" "id_char c \<Longrightarrow> \<not> is_space c"
  by (auto simp: id_char_def alnum_lower_fix) (simp_all add: ascii_lower_def is_space_def Let_def)

lemma id_pattern_chars: "id_pattern s \<Longrightarrow> s \<noteq> [] \<and> length s \<le> 32 \<and> list_all id_char s"
  by (auto simp: id_pattern_def id_char_def list_all_iff split: list.splits)

lemma id_pattern_fix:
  assumes "id_pattern s"
  shows "to_lower s = s" and "trim_space s = s"
proof -
  have c: "\<forall>c \<in> set s. id_char c" and ne: "s \<noteq> []"
    using id_pattern_chars [OF assms] by (auto simp: list_all_iff)
  show "to_lower s = s"
    unfolding to_lower_def by (rule map_idI) (use c id_char_fix in blast)
  have "\<not> is_space (hd s)" "\<not> is_space (last s)"
    using c ne id_char_fix(2) by auto
  then show "trim_space s = s" by (intro trim_space_fix) simp
qed

lemma id_pattern_no_sep: "id_pattern s \<Longrightarrow> CHR ''|'' \<notin> set s" "id_pattern s \<Longrightarrow> CHR ''.'' \<notin> set s"
  using id_pattern_chars [of s] by (auto simp: list_all_iff id_char_def alnum_lower_def)

text \<open>What a validated side port list looks like, and a validated server.\<close>

definition side_port_ok :: "side_port \<Rightarrow> bool" where
  "side_port_ok p \<longleftrightarrow> id_pattern (sp_name p) \<and> (sp_protocol p = ''tcp'' \<or> sp_protocol p = ''udp'')
     \<and> 1 \<le> sp_port p \<and> sp_port p \<le> 65535 \<and> 0 \<le> sp_preferred p \<and> sp_preferred p \<le> 65535
     \<and> sp_public p = None \<and> sp_error p = []"

definition names_ok :: "side_port list \<Rightarrow> bool" where
  "names_ok ports \<longleftrightarrow> distinct (map sp_name ports) \<and> list_all id_pattern (map sp_name ports)"

lemma validate_side_ports_loop_ok:
  "validate_side_ports_loop seen ps = Inr qs \<Longrightarrow>
   list_all side_port_ok qs \<and> distinct (map sp_name qs) \<and> set (map sp_name qs) \<inter> set seen = {}
   \<and> length qs = length ps"
proof (induction seen ps arbitrary: qs rule: validate_side_ports_loop.induct)
  case (1 seen)
  then show ?case by simp
next
  case (2 seen p ps)
  define q where "q = p\<lparr>sp_name := to_lower (trim_space (sp_name p)),
    sp_protocol := to_lower (trim_space (sp_protocol p)), sp_public := None, sp_error := []\<rparr>"
  from "2.prems" obtain rs where q: "side_port_ok q" "sp_name q \<notin> set seen"
    and rs: "validate_side_ports_loop (sp_name q # seen) ps = Inr rs" and qs: "qs = q # rs"
    by (auto simp: q_def [symmetric] Let_def sum_bind_eq_Inr side_port_ok_def split: if_splits)
      (simp_all add: q_def)
  have "list_all side_port_ok rs \<and> distinct (map sp_name rs)
      \<and> set (map sp_name rs) \<inter> set (sp_name q # seen) = {} \<and> length rs = length ps"
    by (rule "2.IH" [OF q_def _ _ _ _ _ rs]) (use q in \<open>auto simp: side_port_ok_def\<close>)
  with q qs show ?case by auto
qed

lemma validate_side_ports_loop_fix:
  "list_all side_port_ok ps \<Longrightarrow> distinct (map sp_name ps) \<Longrightarrow> set (map sp_name ps) \<inter> set seen = {} \<Longrightarrow>
   validate_side_ports_loop seen ps = Inr ps"
proof (induction ps arbitrary: seen)
  case Nil
  then show ?case by simp
next
  case (Cons p ps)
  have p: "side_port_ok p" using Cons.prems by simp
  have proto: "to_lower (trim_space (sp_protocol p)) = sp_protocol p"
  proof -
    have "to_lower (trim_space ''tcp'') = ''tcp''" "to_lower (trim_space ''udp'') = ''udp''"
      by code_simp+
    with p show ?thesis by (auto simp: side_port_ok_def)
  qed
  have "p\<lparr>sp_name := to_lower (trim_space (sp_name p)),
      sp_protocol := to_lower (trim_space (sp_protocol p)), sp_public := None, sp_error := []\<rparr> = p"
    using p proto by (simp add: side_port_ok_def id_pattern_fix)
  moreover have "validate_side_ports_loop (sp_name p # seen) ps = Inr ps"
    using Cons.prems by (intro Cons.IH) auto
  ultimately show ?case using p Cons.prems
    by (auto simp: side_port_ok_def Let_def)
qed

definition valid_server :: "server \<Rightarrow> bool" where
  "valid_server s \<longleftrightarrow> id_pattern (sv_id s) \<and> sv_id s \<notin> set ReservedIDs \<and> sv_address s \<noteq> []
     \<and> (sv_min_protocol s \<le> sv_max_protocol s \<or> sv_max_protocol s = 0) \<and> sv_name s \<noteq> []
     \<and> sv_loader s \<noteq> [] \<and> to_lower (trim_space (sv_loader s)) = sv_loader s
     \<and> map to_lower (sv_mods s) = sv_mods s
     \<and> map to_lower (sv_required_client_mods s) = sv_required_client_mods s
     \<and> map to_lower (map ch_name (sv_channels s)) = map ch_name (sv_channels s)
     \<and> length (sv_mods s) \<le> 2000 \<and> length (sv_channels s) \<le> 5000 \<and> length (sv_protocols s) \<le> 1000
     \<and> length (sv_side_ports s) \<le> MaxSidePorts \<and> list_all side_port_ok (sv_side_ports s)
     \<and> distinct (map sp_name (sv_side_ports s))"

text \<open>The record that validation leaves when it accepts.\<close>

definition normalised :: "server \<Rightarrow> side_port list \<Rightarrow> server" where
  "normalised s ports =
     s\<lparr>sv_id := to_lower (trim_space (sv_id s)),
       sv_loader := (let l = to_lower (trim_space (sv_loader s)) in if l = [] then ''vanilla'' else l),
       sv_name := (if sv_name s = [] then to_lower (trim_space (sv_id s)) else sv_name s),
       sv_mods := map to_lower (sv_mods s),
       sv_required_client_mods := map to_lower (sv_required_client_mods s),
       sv_channels := map (\<lambda>c. c\<lparr>ch_name := to_lower (ch_name c)\<rparr>) (sv_channels s),
       sv_side_ports := ports\<rparr>"

lemma validate_eq_Inr:
  "validate s = Inr s' \<longleftrightarrow>
     id_pattern (to_lower (trim_space (sv_id s))) \<and> to_lower (trim_space (sv_id s)) \<notin> set ReservedIDs
     \<and> sv_address s \<noteq> [] \<and> (sv_min_protocol s \<le> sv_max_protocol s \<or> sv_max_protocol s = 0)
     \<and> length (sv_mods s) \<le> 2000 \<and> length (sv_channels s) \<le> 5000 \<and> length (sv_protocols s) \<le> 1000
     \<and> (\<exists>ports. validate_side_ports (sv_side_ports s) = Inr ports \<and> s' = normalised s ports)"
  by (simp add: validate_def normalised_def Let_def sum_bind_eq_Inr not_less) auto

lemma validate_side_ports_ok:
  "validate_side_ports ps = Inr qs \<Longrightarrow>
     list_all side_port_ok qs \<and> distinct (map sp_name qs) \<and> length qs = length ps \<and> length qs \<le> MaxSidePorts"
  using validate_side_ports_loop_ok [of "[]" ps qs]
  by (auto simp: validate_side_ports_def split: if_splits)

lemma vanilla_fix: "to_lower (trim_space ''vanilla'') = ''vanilla''"
  by code_simp

lemma validate_valid: "validate s = Inr s' \<Longrightarrow> valid_server s'"
proof -
  assume "validate s = Inr s'"
  then obtain ports where p: "validate_side_ports (sv_side_ports s) = Inr ports"
    and s': "s' = normalised s ports" and i: "id_pattern (to_lower (trim_space (sv_id s)))"
    and rest: "to_lower (trim_space (sv_id s)) \<notin> set ReservedIDs" "sv_address s \<noteq> []"
      "sv_min_protocol s \<le> sv_max_protocol s \<or> sv_max_protocol s = 0" "length (sv_mods s) \<le> 2000"
      "length (sv_channels s) \<le> 5000" "length (sv_protocols s) \<le> 1000"
    by (auto simp: validate_eq_Inr)
  have "trim_space (sv_id s) \<noteq> []"
    using id_pattern_chars [OF i] by auto
  with i rest show ?thesis unfolding s'
    using validate_side_ports_ok [OF p]
    by (simp add: valid_server_def normalised_def Let_def comp_def trim_space_lower vanilla_fix)
qed

lemma valid_normalised: "valid_server s \<Longrightarrow> normalised s (sv_side_ports s) = s"
proof -
  assume v: "valid_server s"
  have c: "map (\<lambda>c. c\<lparr>ch_name := to_lower (ch_name c)\<rparr>) (sv_channels s) = sv_channels s"
    by (rule map_idI) (use v in \<open>auto simp: valid_server_def\<close>)
  with v show ?thesis
    unfolding normalised_def valid_server_def by (simp add: id_pattern_fix Let_def)
qed

lemma valid_validate: "valid_server s \<Longrightarrow> validate s = Inr s"
proof -
  assume v: "valid_server s"
  then have "validate_side_ports (sv_side_ports s) = Inr (sv_side_ports s)"
    by (simp add: valid_server_def validate_side_ports_def validate_side_ports_loop_fix)
  with v show ?thesis
    by (simp add: validate_eq_Inr valid_normalised) (simp add: valid_server_def id_pattern_fix)
qed

section \<open>The registry invariant\<close>

text \<open>
  Every entry is stored under its own id, and has passed validation. Only \<open>names_ok\<close> is left of the
  side ports, since the gateway later writes the public addresses into them; mod lists are left out
  because a health check may fill them.
\<close>

definition entry_ok :: "string \<times> server \<Rightarrow> bool" where
  "entry_ok e \<longleftrightarrow> (case e of (i, s) \<Rightarrow>
     sv_id s = i \<and> id_pattern i \<and> i \<notin> set ReservedIDs \<and> sv_address s \<noteq> []
     \<and> (sv_min_protocol s \<le> sv_max_protocol s \<or> sv_max_protocol s = 0)
     \<and> names_ok (sv_side_ports s) \<and> length (sv_side_ports s) \<le> MaxSidePorts
     \<and> (\<not> sv_static s \<longrightarrow> sv_guard_secret s = [] \<and> sv_expires_at s \<noteq> None))"

definition reg_inv :: "registry \<Rightarrow> bool" where
  "reg_inv r \<longleftrightarrow> distinct (map fst r) \<and> list_all entry_ok r"

lemma names_ok_valid: "list_all side_port_ok ps \<Longrightarrow> distinct (map sp_name ps) \<Longrightarrow> names_ok ps"
  by (auto simp: names_ok_def side_port_ok_def list_all_iff)

lemma reg_inv_update: "reg_inv r \<Longrightarrow> entry_ok (i, s) \<Longrightarrow> reg_inv (AList.update i s r)"
  by (simp add: reg_inv_def list_all_update)

lemma reg_inv_get: "reg_inv r \<Longrightarrow> map_of r i = Some s \<Longrightarrow> entry_ok (i, s)"
  unfolding reg_inv_def by (blast intro: map_of_list_all)

lemma copy_live_sel [simp]:
  "sv_id (copy_live old s) = sv_id s" "sv_owner (copy_live old s) = sv_owner s"
  "sv_static (copy_live old s) = sv_static s" "sv_expires_at (copy_live old s) = sv_expires_at s"
  "sv_address (copy_live old s) = sv_address s" "sv_side_ports (copy_live old s) = sv_side_ports s"
  "sv_guard_secret (copy_live old s) = sv_guard_secret s" "sv_online (copy_live old s) = sv_online old"
  "sv_min_protocol (copy_live old s) = sv_min_protocol s"
  "sv_max_protocol (copy_live old s) = sv_max_protocol s"
  by (simp_all add: copy_live_def)

text \<open>The entry an accepted registration stores.\<close>

definition stored :: "string \<Rightarrow> duration \<Rightarrow> time \<Rightarrow> server option \<Rightarrow> server \<Rightarrow> server" where
  "stored owner ttl now old s =
     (let s = s\<lparr>sv_owner := owner, sv_static := (ttl \<le> 0)\<rparr>;
          s = (if ttl \<le> 0 then s else s\<lparr>sv_guard_secret := [], sv_expires_at := Some (now + ttl)\<rparr>)
      in case old of Some o' \<Rightarrow> if sv_address o' = sv_address s then copy_live o' s else s | None \<Rightarrow> s)"

lemma upsert_eq_Inr:
  "upsert owner s ttl now r = Inr (s', r') \<longleftrightarrow>
     (\<exists>v. validate s = Inr v
        \<and> (\<forall>o'. map_of r (sv_id v) = Some o' \<longrightarrow> sv_owner o' = owner \<or> expired now o')
        \<and> s' = stored owner ttl now (map_of r (sv_id v)) v \<and> r' = AList.update (sv_id v) s' r)"
  by (auto simp: upsert_def stored_def Let_def split: sum.splits option.splits if_splits)

lemma stored_sel [simp]:
  "sv_id (stored owner ttl now old s) = sv_id s"
  "sv_owner (stored owner ttl now old s) = owner"
  "sv_static (stored owner ttl now old s) \<longleftrightarrow> ttl \<le> 0"
  "sv_address (stored owner ttl now old s) = sv_address s"
  "sv_side_ports (stored owner ttl now old s) = sv_side_ports s"
  "sv_min_protocol (stored owner ttl now old s) = sv_min_protocol s"
  "sv_max_protocol (stored owner ttl now old s) = sv_max_protocol s"
  by (simp_all add: stored_def Let_def split: option.splits)

lemma stored_expiry:
  "0 < ttl \<Longrightarrow> sv_expires_at (stored owner ttl now old s) = Some (now + ttl)"
  "0 < ttl \<Longrightarrow> sv_guard_secret (stored owner ttl now old s) = []"
  by (simp_all add: stored_def Let_def split: option.splits)

lemma stored_entry_ok: "valid_server s \<Longrightarrow> entry_ok (sv_id s, stored owner ttl now old s)"
  by (auto simp: entry_ok_def valid_server_def names_ok_valid stored_expiry)

lemma upsert_inv: "reg_inv r \<Longrightarrow> upsert owner s ttl now r = Inr (s', r') \<Longrightarrow> reg_inv r'"
  by (auto simp: upsert_eq_Inr intro!: reg_inv_update stored_entry_ok validate_valid)

lemma remove_inv: "reg_inv r \<Longrightarrow> remove owner i r = Inr r' \<Longrightarrow> reg_inv r'"
  by (auto simp: remove_def reg_inv_def list_all_delete split: option.splits if_splits)

lemma set_health_inv: "reg_inv r \<Longrightarrow> reg_inv (set_health i a h now r)"
proof (cases "map_of r i")
  case (Some s)
  assume r: "reg_inv r"
  have "entry_ok (i, s)" by (rule reg_inv_get [OF r Some])
  with r show ?thesis
    by (simp add: set_health_def Some Let_def) (auto simp: entry_ok_def intro!: reg_inv_update)
qed (simp add: set_health_def)

lemma names_ok_cong: "map sp_name ps = map sp_name qs \<Longrightarrow> names_ok ps = names_ok qs"
  by (simp add: names_ok_def)

lemma set_side_ports_inv: "reg_inv r \<Longrightarrow> reg_inv (set_side_ports i ports r)"
proof (cases "map_of r i")
  case (Some s)
  assume r: "reg_inv r"
  from reg_inv_get [OF r Some] r show ?thesis
    using names_ok_cong [of "sv_side_ports s" ports] map_eq_imp_length_eq [of sp_name "sv_side_ports s" sp_name ports]
    by (auto simp: set_side_ports_def Some entry_ok_def intro!: reg_inv_update)
qed (simp add: set_side_ports_def)

lemma reg_prune_inv: "reg_inv r \<Longrightarrow> reg_inv (reg_prune now r)"
  by (simp add: reg_inv_def reg_prune_def list_all_filter_imp)

section \<open>Runs\<close>

text \<open>
  Operations as data: what any client can make the registry do, at the time it does it. A refused
  operation leaves the registry as it was.
\<close>

datatype reg_op =
    Op_upsert string server duration
  | Op_remove string string
  | Op_health string string health
  | Op_side_ports string "side_port list"
  | Op_prune

fun reg_step :: "time \<Rightarrow> reg_op \<Rightarrow> registry \<Rightarrow> registry" where
  "reg_step now (Op_upsert owner s ttl) r =
     (case upsert owner s ttl now r of Inl _ \<Rightarrow> r | Inr (_, r') \<Rightarrow> r')"
| "reg_step now (Op_remove owner i) r = (case remove owner i r of Inl _ \<Rightarrow> r | Inr r' \<Rightarrow> r')"
| "reg_step now (Op_health i a h) r = set_health i a h now r"
| "reg_step now (Op_side_ports i ports) r = set_side_ports i ports r"
| "reg_step now Op_prune r = reg_prune now r"

fun reg_run :: "(time \<times> reg_op) list \<Rightarrow> registry \<Rightarrow> registry" where
  "reg_run [] r = r"
| "reg_run ((now, op) # ops) r = reg_run ops (reg_step now op r)"

lemma reg_step_inv: "reg_inv r \<Longrightarrow> reg_inv (reg_step now op r)"
  by (cases op)
    (auto simp: set_health_inv set_side_ports_inv reg_prune_inv split: sum.splits intro: upsert_inv remove_inv)

lemma reg_run_inv: "reg_inv r \<Longrightarrow> reg_inv (reg_run ops r)"
  by (induction ops r rule: reg_run.induct) (simp_all add: reg_step_inv)

section \<open>What clients of the registry rely on\<close>

text \<open>
  A directory answers lookups by id and enumerates what it would answer, in the order of the ids.
  The enumeration is then determined by the lookups: the unspecified iteration order of the Go map
  does not show in it.
\<close>

locale directory =
  fixes inv :: "'r \<Rightarrow> bool"
    and lookup :: "'r \<Rightarrow> string \<Rightarrow> server option"
    and listing :: "'r \<Rightarrow> server list"
  assumes lookup_id: "inv r \<Longrightarrow> lookup r i = Some s \<Longrightarrow> sv_id s = i"
    and listing_lookup: "inv r \<Longrightarrow> s \<in> set (listing r) \<longleftrightarrow> lookup r (sv_id s) = Some s"
    and listing_sorted: "inv r \<Longrightarrow> sorted (map sv_id (listing r))"
    and listing_distinct: "inv r \<Longrightarrow> distinct (map sv_id (listing r))"
begin

lemma lookup_listing: "inv r \<Longrightarrow> lookup r i = Some s \<longleftrightarrow> s \<in> set (listing r) \<and> sv_id s = i"
  using listing_lookup lookup_id by blast

lemma same_id: "inv r \<Longrightarrow> s \<in> set (listing r) \<Longrightarrow> t \<in> set (listing r) \<Longrightarrow> sv_id s = sv_id t \<Longrightarrow> s = t"
  using listing_lookup by fastforce

lemma find_listing: "inv r \<Longrightarrow> find (\<lambda>s. sv_id s = i) (listing r) = lookup r i"
proof -
  assume r: "inv r"
  show ?thesis
  proof (cases "find (\<lambda>s. sv_id s = i) (listing r)")
    case None
    then show ?thesis using lookup_listing [OF r, of i] by (cases "lookup r i") (auto simp: find_None_iff)
  next
    case (Some s)
    then have "s \<in> set (listing r) \<and> sv_id s = i" by (auto simp: find_Some_iff)
    then show ?thesis using Some lookup_listing [OF r, of i s] by simp
  qed
qed

lemma listing_unique:
  assumes "inv r" and "inv r'" and "lookup r = lookup r'"
  shows "listing r = listing r'"
proof -
  have s: "set (listing r) = set (listing r')"
    using assms listing_lookup by auto
  have "map sv_id (listing r) = map sv_id (listing r')"
    by (rule sorted_distinct_set_unique) (use assms s listing_sorted listing_distinct in auto)
  then show ?thesis
  proof (rule map_inj_on [OF _ inj_onI])
    fix a b
    assume "a \<in> set (listing r) \<union> set (listing r')" "b \<in> set (listing r) \<union> set (listing r')" "sv_id a = sv_id b"
    then show "a = b" using s assms(1) same_id by auto
  qed
qed

end

lemma reg_get_eq: "reg_get now r i = Some s \<longleftrightarrow> map_of r i = Some s \<and> \<not> expired now s"
  by (auto simp: reg_get_def split: option.splits)

lemma reg_inv_id: "reg_inv r \<Longrightarrow> (i, s) \<in> set r \<Longrightarrow> sv_id s = i"
  by (auto simp: reg_inv_def list_all_iff entry_ok_def)

lemma set_reg_list: "reg_inv r \<Longrightarrow> s \<in> set (reg_list now r) \<longleftrightarrow> map_of r (sv_id s) = Some s \<and> \<not> expired now s"
proof -
  assume r: "reg_inv r"
  have "s \<in> snd ` set r \<longleftrightarrow> map_of r (sv_id s) = Some s"
  proof
    assume "s \<in> snd ` set r"
    then obtain i where i: "(i, s) \<in> set r" by auto
    with reg_inv_id [OF r i] r show "map_of r (sv_id s) = Some s" by (simp add: reg_inv_def)
  next
    assume "map_of r (sv_id s) = Some s"
    then show "s \<in> snd ` set r" by (force dest: map_of_SomeD)
  qed
  then show ?thesis by (auto simp: reg_list_def)
qed

lemma distinct_reg_list: "reg_inv r \<Longrightarrow> distinct (map sv_id (reg_list now r))"
proof -
  assume r: "reg_inv r"
  have "map sv_id (map snd r) = map fst r"
    using reg_inv_id [OF r] by (auto simp: list.map_comp)
  moreover have "distinct (map fst r)" using r by (simp add: reg_inv_def)
  ultimately have "distinct (map sv_id (map snd r))" by (simp only:)
  then have "distinct (map sv_id (filter (\<lambda>s. \<not> expired now s) (map snd r)))"
    by (rule distinct_map_filter)
  then show ?thesis by (simp add: reg_list_def distinct_map)
qed

interpretation registry_dir: directory reg_inv "reg_get now" "reg_list now" for now
proof
  fix r :: registry and i s
  assume r: "reg_inv r"
  show "reg_get now r i = Some s \<Longrightarrow> sv_id s = i"
    using reg_inv_get [OF r] by (auto simp: reg_get_eq entry_ok_def)
  show "s \<in> set (reg_list now r) \<longleftrightarrow> reg_get now r (sv_id s) = Some s"
    by (simp add: set_reg_list [OF r] reg_get_eq)
  show "sorted (map sv_id (reg_list now r))"
    by (simp add: reg_list_def)
  show "distinct (map sv_id (reg_list now r))"
    by (rule distinct_reg_list [OF r])
qed

section \<open>Owners\<close>

text \<open>What the owner declared of a server: everything but the live state and the public addresses.\<close>

definition declared :: "server \<Rightarrow> server \<times> string list" where
  "declared s =
     (s\<lparr>sv_mods := [], sv_side_ports := [], sv_online := False, sv_version_name := [], sv_protocol := 0,
        sv_players := 0, sv_max_players := 0, sv_last_ping := None, sv_forge_channels := [],
        sv_forge_truncated := False\<rparr>, map sp_name (sv_side_ports s))"

fun by_owner :: "string \<Rightarrow> reg_op \<Rightarrow> bool" where
  "by_owner owner (Op_upsert o' _ _) \<longleftrightarrow> o' = owner"
| "by_owner owner (Op_remove o' _) \<longleftrightarrow> o' = owner"
| "by_owner owner _ \<longleftrightarrow> False"

lemma declared_expired: "declared s = declared s' \<Longrightarrow> expired t s = expired t s'"
proof -
  assume d: "declared s = declared s'"
  have "sv_static s = sv_static s'"
    using arg_cong [OF d, of "\<lambda>d. sv_static (fst d)"] by (simp add: declared_def)
  moreover have "sv_expires_at s = sv_expires_at s'"
    using arg_cong [OF d, of "\<lambda>d. sv_expires_at (fst d)"] by (simp add: declared_def)
  ultimately show ?thesis by (simp add: expired_def)
qed

lemma declared_owner: "declared s = declared s' \<Longrightarrow> sv_owner s = sv_owner s'"
proof -
  assume d: "declared s = declared s'"
  show ?thesis
    using arg_cong [OF d, of "\<lambda>d. sv_owner (fst d)"] by (simp add: declared_def)
qed

lemma set_health_lookup:
  "map_of r i = Some s \<Longrightarrow> \<exists>s'. map_of (set_health j a h now r) i = Some s' \<and> declared s' = declared s"
  by (auto simp: set_health_def Let_def declared_def split: option.splits)

lemma set_side_ports_lookup:
  "map_of r i = Some s \<Longrightarrow> \<exists>s'. map_of (set_side_ports j ports r) i = Some s' \<and> declared s' = declared s"
  by (auto simp: set_side_ports_def declared_def split: option.splits)

lemma foreign_step:
  assumes r: "reg_inv r" and s: "map_of r i = Some s" and live: "\<not> expired now s"
    and op: "\<not> by_owner (sv_owner s) op"
  shows "\<exists>s'. map_of (reg_step now op r) i = Some s' \<and> declared s' = declared s"
proof (cases op)
  case (Op_upsert o' v ttl)
  show ?thesis
  proof (cases "upsert o' v ttl now r")
    case Inl
    then show ?thesis using Op_upsert s by simp
  next
    case (Inr p)
    then obtain v' r' where u: "upsert o' v ttl now r = Inr (v', r')" by (cases p) auto
    then obtain w :: server where w: "\<forall>o''. map_of r (sv_id w) = Some o'' \<longrightarrow> sv_owner o'' = o' \<or> expired now o''"
      and r': "r' = AList.update (sv_id w) v' r"
      by (auto simp: upsert_eq_Inr)
    have "sv_id w \<noteq> i" using w s live op Op_upsert by auto
    then show ?thesis using Op_upsert u r' s by simp
  qed
next
  case (Op_remove o' j)
  then show ?thesis using op s by (auto simp: remove_def split: option.splits)
next
  case (Op_health j a h)
  then show ?thesis using set_health_lookup [OF s] by simp
next
  case (Op_side_ports j ports)
  then show ?thesis using set_side_ports_lookup [OF s] by simp
next
  case Op_prune
  then show ?thesis using r s live
    by (simp add: reg_inv_def reg_prune_def map_of_filter_val)
qed

lemma foreign_run:
  assumes "reg_inv r" and "map_of r i = Some s"
    and "\<forall>(now, op) \<in> set ops. \<not> expired now s \<and> \<not> by_owner (sv_owner s) op"
  shows "\<exists>s'. map_of (reg_run ops r) i = Some s' \<and> declared s' = declared s"
  using assms
proof (induction ops r arbitrary: s rule: reg_run.induct)
  case (1 r)
  then show ?case by simp
next
  case (2 now op ops r)
  then obtain s1 where s1: "map_of (reg_step now op r) i = Some s1" "declared s1 = declared s"
    using foreign_step [of r i s now op] by auto
  have "\<exists>s'. map_of (reg_run ops (reg_step now op r)) i = Some s' \<and> declared s' = declared s1"
    by (rule "2.IH") (use 2(2-) s1 reg_step_inv declared_expired [of s1 s] declared_owner [of s1 s] in auto)
  then show ?case using s1 by simp
qed

lemma copy_live_stored: "sv_address old = sv_address s \<Longrightarrow>
    copy_live old (stored owner ttl now (Some old) s) = stored owner ttl now (Some old) s"
  by (simp add: stored_def copy_live_def Let_def)

lemma stored_again:
  assumes "0 < ttl"
  shows "stored owner ttl t1 (Some (stored owner ttl t0 old v)) v
       = (stored owner ttl t0 old v)\<lparr>sv_expires_at := Some (t1 + ttl)\<rparr>"
  using assms by (simp add: stored_def copy_live_def Let_def split: option.splits)

lemma reg_run_append: "reg_run (ops @ ops') r = reg_run ops' (reg_run ops r)"
  by (induction ops r rule: reg_run.induct) simp_all

lemma reg_inv_new: "reg_inv new_registry"
  by (simp add: reg_inv_def new_registry_def)

lemma reachable_inv: "reg_inv (reg_run ops new_registry)"
  by (rule reg_run_inv) (rule reg_inv_new)

section \<open>Properties\<close>

text \<open>C35: the registry's invariant holds after any sequence of operations, accepted or refused: no
  two entries share an id, every entry is stored under its own validated and unreserved id with an
  address and at most 16 distinctly named side ports, and an entry that can expire has an expiry and
  holds no guard secret.\<close>

theorem registry_invariant: "reg_inv (reg_run ops new_registry)"
  by (rule reg_run_inv) (rule reg_inv_new)


definition demo_server :: server where
  "demo_server = zero_server\<lparr>sv_id := ''Survival '', sv_address := ''10.0.0.7:25565''\<rparr>"

definition demo_ops :: "(time \<times> reg_op) list" where
  "demo_ops = [(5, Op_upsert ''alice'' demo_server 90)]"

definition demo_attack :: "(time \<times> reg_op) list" where
  "demo_attack = [(40, Op_upsert ''mallory'' demo_server 600), (50, Op_remove ''mallory'' ''survival''),
                  (95, Op_prune)]"


text \<open>An accepted registration is what lookups return from then on, exactly until its TTL is
  over (forever for a static server), under the owner that registered it; every other id keeps its
  entry.\<close>

theorem upsert_lookup:
  assumes "upsert owner s ttl now r = Inr (s', r')"
  shows "reg_get t r' (sv_id s') = (if ttl \<le> 0 \<or> t \<le> now + ttl then Some s' else None)
    \<and> sv_owner s' = owner \<and> (\<forall>j. j = sv_id s' \<or> reg_get t r' j = reg_get t r j)"
  using assms by (auto simp: upsert_eq_Inr reg_get_def expired_def stored_expiry split: if_splits)

theorem upsert_lookup_witness:
  "reg_get 96 (snd (projr (upsert ''alice'' demo_server 90 5 new_registry))) ''survival'' = None"
proof -
  have "upsert ''alice'' demo_server 90 5 new_registry
      = Inr (fst (projr (upsert ''alice'' demo_server 90 5 new_registry)),
             snd (projr (upsert ''alice'' demo_server 90 5 new_registry)))" by code_simp
  from upsert_lookup [OF this, of 96]
  have "reg_get 96 (snd (projr (upsert ''alice'' demo_server 90 5 new_registry)))
      (sv_id (fst (projr (upsert ''alice'' demo_server 90 5 new_registry)))) = None" by simp
  moreover have "sv_id (fst (projr (upsert ''alice'' demo_server 90 5 new_registry))) = ''survival''"
    by code_simp
  ultimately show ?thesis by simp
qed

text \<open>A heartbeat is accepted and only moves the expiry: repeating the registration at a later
  time \<open>t1\<close>, before or after the entry expired, stores the same entry with the expiry \<open>t1 + ttl\<close>.\<close>

theorem heartbeat_extends:
  assumes "upsert owner s ttl t0 r = Inr (s1, r1)" and "0 < ttl"
  shows "upsert owner s ttl t1 r1
       = Inr (s1\<lparr>sv_expires_at := Some (t1 + ttl)\<rparr>,
              AList.update (sv_id s1) (s1\<lparr>sv_expires_at := Some (t1 + ttl)\<rparr>) r1)"
  using assms by (auto simp: upsert_eq_Inr stored_again)

theorem heartbeat_extends_witness:
  "upsert ''alice'' demo_server 90 70 (snd (projr (upsert ''alice'' demo_server 90 5 new_registry)))
     = Inr ((fst (projr (upsert ''alice'' demo_server 90 5 new_registry)))\<lparr>sv_expires_at := Some (70 + 90)\<rparr>,
         AList.update (sv_id (fst (projr (upsert ''alice'' demo_server 90 5 new_registry))))
           ((fst (projr (upsert ''alice'' demo_server 90 5 new_registry)))\<lparr>sv_expires_at := Some (70 + 90)\<rparr>)
           (snd (projr (upsert ''alice'' demo_server 90 5 new_registry))))"
proof (rule heartbeat_extends)
  show "upsert ''alice'' demo_server 90 5 new_registry
      = Inr (fst (projr (upsert ''alice'' demo_server 90 5 new_registry)),
             snd (projr (upsert ''alice'' demo_server 90 5 new_registry)))" by code_simp
qed simp

text \<open>A registration with the address of the entry it replaces keeps all live state the health
  checks found: online flag, pinged version and protocol, player counts, last ping, Forge channels.\<close>

theorem heartbeat_keeps_live:
  assumes "upsert owner s ttl now r = Inr (s', r')"
    and "map_of r (sv_id s') = Some old" and "sv_address old = sv_address s'"
  shows "copy_live old s' = s'"
proof -
  obtain v where v: "validate s = Inr v" "s' = stored owner ttl now (map_of r (sv_id v)) v"
    using assms(1) by (auto simp: upsert_eq_Inr)
  then have "map_of r (sv_id v) = Some old" "sv_address old = sv_address v"
    using assms(2,3) by simp_all
  then show ?thesis using v by (simp add: copy_live_stored)
qed

definition demo_online :: health where
  "demo_online = \<lparr>h_online = True, h_protocol = 765, h_version_name = ''1.20.4'', h_players = 3,
     h_max_players = 20, h_mods = [], h_forge_channels = [], h_forge_truncated = False\<rparr>"

definition demo_live :: registry where
  "demo_live = reg_run (demo_ops @ [(9, Op_health ''survival'' ''10.0.0.7:25565'' demo_online)]) new_registry"

theorem heartbeat_keeps_live_witness:
  "sv_players (fst (projr (upsert ''alice'' demo_server 90 60 demo_live))) = 3"
proof -
  have "copy_live (the (map_of demo_live ''survival'')) (fst (projr (upsert ''alice'' demo_server 90 60 demo_live)))
      = fst (projr (upsert ''alice'' demo_server 90 60 demo_live))"
  proof (rule heartbeat_keeps_live)
    show "upsert ''alice'' demo_server 90 60 demo_live
        = Inr (fst (projr (upsert ''alice'' demo_server 90 60 demo_live)),
               snd (projr (upsert ''alice'' demo_server 90 60 demo_live)))" by code_simp
    show "map_of demo_live (sv_id (fst (projr (upsert ''alice'' demo_server 90 60 demo_live))))
        = Some (the (map_of demo_live ''survival''))" by code_simp
    show "sv_address (the (map_of demo_live ''survival''))
        = sv_address (fst (projr (upsert ''alice'' demo_server 90 60 demo_live)))" by code_simp
  qed
  then have "sv_players (fst (projr (upsert ''alice'' demo_server 90 60 demo_live)))
      = sv_players (copy_live (the (map_of demo_live ''survival''))
          (fst (projr (upsert ''alice'' demo_server 90 60 demo_live))))" by simp
  also have "\<dots> = sv_players (the (map_of demo_live ''survival''))" by (simp add: copy_live_def)
  also have "\<dots> = 3" by code_simp
  finally show ?thesis .
qed

text \<open>The listing of servers is strictly sorted by id and agrees with the lookup: searching it
  for an id gives what \<^verbatim>\<open>Get\<close> returns. Pruning expired entries is invisible to both, now and later.\<close>

theorem registry_listing:
  fixes ops :: "(time \<times> reg_op) list" and now d :: int
  defines "r \<equiv> reg_run ops new_registry"
  shows "find (\<lambda>s. sv_id s = i) (reg_list now r) = reg_get now r i
    \<and> sorted (map sv_id (reg_list now r)) \<and> distinct (map sv_id (reg_list now r))
    \<and> reg_list (now + \<bar>d\<bar>) (reg_prune now r) = reg_list (now + \<bar>d\<bar>) r"
proof -
  have r: "reg_inv r" unfolding r_def by (rule reachable_inv)
  have "expired (now + \<bar>d\<bar>) s" if "expired now s" for s
    using that by (auto simp: expired_def split: option.splits)
  then have "reg_get (now + \<bar>d\<bar>) (reg_prune now r) = reg_get (now + \<bar>d\<bar>) r"
    using r by (auto simp: reg_get_def reg_prune_def reg_inv_def map_of_filter_val split: option.splits)
  then have "reg_list (now + \<bar>d\<bar>) (reg_prune now r) = reg_list (now + \<bar>d\<bar>) r"
    by (rule registry_dir.listing_unique [OF reg_prune_inv [OF r] r])
  then show ?thesis
    using registry_dir.find_listing [OF r] registry_dir.listing_sorted [OF r] registry_dir.listing_distinct [OF r]
    by blast
qed

text \<open>Validation establishes the well-formedness of a server and is idempotent: it accepts what
  it returned and leaves it as it is, so a server read from the registry's listing can be registered
  again.\<close>

theorem validate_idempotent:
  assumes "validate s = Inr s'"
  shows "valid_server s' \<and> validate s' = Inr s'"
  using validate_valid [OF assms] by (simp add: valid_validate)

theorem validate_idempotent_witness:
  "valid_server (projr (validate demo_server)) \<and> validate (projr (validate demo_server)) = validate demo_server"
proof -
  have "validate demo_server = Inr (projr (validate demo_server))" by code_simp
  from this validate_idempotent [OF this] show ?thesis by simp
qed

text \<open>The live state of a server nobody knew before is taken from the request itself: an owner
  who registers with \<^verbatim>\<open>online\<close>, \<^verbatim>\<open>protocol\<close> or player counts in the body has them believed until
  the first health check, although the fields are documented as maintained by the gateway.\<close>

theorem fresh_live_from_request:
  assumes "upsert owner s ttl now new_registry = Inr (s', r')"
  shows "sv_online s' = sv_online s \<and> sv_protocol s' = sv_protocol s \<and> sv_players s' = sv_players s
    \<and> sv_forge_channels s' = sv_forge_channels s"
proof -
  obtain ports where "s' = stored owner ttl now None (normalised s ports)"
    using assms by (auto simp: upsert_eq_Inr validate_eq_Inr new_registry_def)
  then show ?thesis by (simp add: stored_def normalised_def Let_def)
qed

theorem fresh_live_from_request_witness:
  "sv_online (fst (projr (upsert ''eve'' (demo_server\<lparr>sv_online := True\<rparr>) 90 5 new_registry)))"
proof -
  have "upsert ''eve'' (demo_server\<lparr>sv_online := True\<rparr>) 90 5 new_registry
      = Inr (fst (projr (upsert ''eve'' (demo_server\<lparr>sv_online := True\<rparr>) 90 5 new_registry)),
             snd (projr (upsert ''eve'' (demo_server\<lparr>sv_online := True\<rparr>) 90 5 new_registry)))" by code_simp
  from fresh_live_from_request [OF this] show ?thesis by simp
qed

end
