(* ===== verification/Match.thy ===== *)
theory Match
  imports Registry "HOL-Library.Multiset"
begin

text \<open>
  \<^verbatim>\<open>internal/match/match.go\<close>: which servers a client can join, how well they fit, and when the choice
  is clear enough to route without asking. A set of mod ids (\<^verbatim>\<open>map[string]bool\<close>) is the list of its
  keys; the lemmas show that only the set matters for a score.

  The lemmas characterise compatibility (which servers are ranked at all), the score as 50 times the
  Jaccard index on top of a base, the order of the ranking and the decision to pick.
\<close>

section \<open>Loader families\<close>

record client =
  cl_protocol :: int
  cl_loader :: string
  cl_mods :: "string list option"

definition Family :: "string \<Rightarrow> int \<Rightarrow> string" where
  "Family loader protocol =
     (let l = to_lower loader in
      if l = ''fabric'' \<or> l = ''quilt'' then ''fabric''
      else if l = ''forge'' then ''forge''
      else if l = ''neoforge''
      then (if protocol \<noteq> 0 \<and> protocol \<le> Proto1_20_1 then ''forge'' else ''neoforge'')
      else ''vanilla'')"

definition ClientFamily :: "client \<Rightarrow> string" where
  "ClientFamily c =
     (let l = cl_loader c in
      if l = ''fabric'' \<or> l = ''quilt'' then ''fabric''
      else if l = ''forge'' \<or> l = ''neoforge'' then Family l (cl_protocol c)
      else if l = ''vanilla'' then ''vanilla''
      else ''unknown'')"

section \<open>Mod sets\<close>

definition ignored_list :: "string list" where
  "ignored_list =
     [''minecraft'', ''forge'', ''neoforge'', ''fml'', ''fabric'', ''fabricloader'', ''fabric-api'',
      ''quilt_loader'', ''java'', ''c'', ''mixinextras'', ''velocity'', ''bungeecord'']"

definition ignored :: "string \<Rightarrow> bool" where
  "ignored i \<longleftrightarrow> i \<in> set ignored_list \<or> has_prefix i ''fabric-''"

definition mod_set :: "string list \<Rightarrow> string list" where
  "mod_set mods =
     foldl (\<lambda>m i. let i = to_lower i in if \<not> ignored i then List.insert i m else m) [] mods"

text \<open>The client's mods as \<^verbatim>\<open>Rank\<close> prepares them: lower-cased first, then without the ignored ones.\<close>

definition client_mods :: "client \<Rightarrow> string list option" where
  "client_mods c =
     map_option (\<lambda>mods. filter (\<lambda>i. \<not> ignored i) (foldl (\<lambda>m i. List.insert (to_lower i) m) [] mods))
       (cl_mods c)"

text \<open>One reported channel: its namespace joins the server's mods, and the required ones if needed.\<close>

definition add_channel :: "string list \<times> string list \<Rightarrow> channel \<Rightarrow> string list \<times> string list" where
  "add_channel mr ch =
     (case cut (CHR '':'') (ch_name ch) of
        (ns, _, ok) \<Rightarrow>
          if \<not> ok \<or> ignored ns then mr
          else (List.insert ns (fst mr), if ch_required ch then List.insert ns (snd mr) else snd mr))"

definition server_mods :: "server \<Rightarrow> string list \<times> string list" where
  "server_mods s = foldl add_channel (mod_set (sv_mods s), mod_set (sv_required_client_mods s)) (sv_channels s)"

section \<open>Scores and the ranking\<close>

record candidate =
  ca_server :: server
  ca_score :: int
  ca_certain :: bool

text \<open>The loop that counts the shared ids and the union of the two mod sets.\<close>

fun overlap_loop :: "string list \<Rightarrow> string list \<Rightarrow> int \<times> int \<Rightarrow> int \<times> int" where
  "overlap_loop smods [] iu = iu"
| "overlap_loop smods (i # is) (shared, all_ids) =
     (if i \<in> set smods then overlap_loop smods is (shared + 1, all_ids)
      else overlap_loop smods is (shared, all_ids + 1))"

text \<open>The switch of \<^verbatim>\<open>score\<close>: the score before mods count, and whether it is certain.\<close>

definition join_base :: "string \<Rightarrow> string \<Rightarrow> bool \<Rightarrow> (int \<times> bool) option" where
  "join_base cf sf needs =
     (if \<not> needs
      then Some (40 + (if (sf = ''vanilla'' \<and> (cf = ''vanilla'' \<or> cf = ''unknown'')) \<or> cf = sf
                       then 20 else 0), True)
      else if cf = sf then Some (50, True)
      else if cf = ''unknown'' \<and> sf = ''fabric'' then Some (20, False)
      else None)"

definition score :: "client \<Rightarrow> string \<Rightarrow> string list option \<Rightarrow> server \<Rightarrow> candidate option" where
  "score c cf cmods s =
     (let sf = Family (sv_loader s) (cl_protocol c);
          (smods, required) = server_mods s;
          needs = (sf \<noteq> ''vanilla'' \<and> (required \<noteq> [] \<or> (sf \<noteq> ''fabric'' \<and> smods \<noteq> [])))
      in case join_base cf sf needs of
           None \<Rightarrow> None
         | Some (sc, certain) \<Rightarrow>
             (case cmods of
                None \<Rightarrow> Some \<lparr>ca_server = s, ca_score = sc, ca_certain = certain \<and> required = []\<rparr>
              | Some cm \<Rightarrow>
                  if \<exists>i \<in> set required. i \<notin> set cm then None
                  else if smods \<noteq> [] \<or> cm \<noteq> []
                  then (let (shared, all_ids) = overlap_loop smods cm (0, int (length smods))
                        in Some \<lparr>ca_server = s,
                                 ca_score = (if all_ids > 0 then sc + 50 * shared div all_ids else sc),
                                 ca_certain = certain\<rparr>)
                  else Some \<lparr>ca_server = s, ca_score = sc, ca_certain = certain\<rparr>))"

fun rank_loop :: "client \<Rightarrow> string \<Rightarrow> string list option \<Rightarrow> server list \<Rightarrow> candidate list" where
  "rank_loop c cf cmods [] = []"
| "rank_loop c cf cmods (s # ss) =
     (if \<not> accepts s (cl_protocol c) then rank_loop c cf cmods ss
      else case score c cf cmods s of
             None \<Rightarrow> rank_loop c cf cmods ss
           | Some cand \<Rightarrow> cand # rank_loop c cf cmods ss)"

definition rank_key :: "candidate \<Rightarrow> int \<times> int" where
  "rank_key k = (- ca_score k, - sv_players (ca_server k))"

definition rank :: "client \<Rightarrow> server list \<Rightarrow> candidate list" where
  "rank c servers = sort_key rank_key (rank_loop c (ClientFamily c) (client_mods c) servers)"

definition pick :: "candidate list \<Rightarrow> int \<Rightarrow> int \<Rightarrow> candidate option" where
  "pick cands min_score margin =
     (case cands of
        [] \<Rightarrow> None
      | k # ks \<Rightarrow>
          if \<not> ca_certain k then None
          else case ks of
                 [] \<Rightarrow> Some k
               | k2 # _ \<Rightarrow>
                   if ca_score k < min_score \<or> ca_score k - ca_score k2 < margin then None else Some k)"

section \<open>The mod sets as sets\<close>

text \<open>The namespace a reported channel contributes, if any.\<close>

definition channel_ns :: "channel \<Rightarrow> string option" where
  "channel_ns ch =
     (case cut (CHR '':'') (ch_name ch) of (ns, _, ok) \<Rightarrow> if \<not> ok \<or> ignored ns then None else Some ns)"

definition server_ids :: "server \<Rightarrow> string set" where
  "server_ids s = {i \<in> to_lower ` set (sv_mods s). \<not> ignored i} \<union> {i. Some i \<in> channel_ns ` set (sv_channels s)}"

definition required_ids :: "server \<Rightarrow> string set" where
  "required_ids s = {i \<in> to_lower ` set (sv_required_client_mods s). \<not> ignored i}
     \<union> {i. Some i \<in> channel_ns ` {ch \<in> set (sv_channels s). ch_required ch}}"

lemma mod_set_loop:
  "distinct m \<Longrightarrow>
   distinct (foldl (\<lambda>m i. let i = to_lower i in if \<not> ignored i then List.insert i m else m) m mods)
   \<and> set (foldl (\<lambda>m i. let i = to_lower i in if \<not> ignored i then List.insert i m else m) m mods)
     = set m \<union> {i \<in> to_lower ` set mods. \<not> ignored i}"
  by (induction mods arbitrary: m) (auto simp: Let_def)

lemma mod_set_set: "distinct (mod_set mods)" "set (mod_set mods) = {i \<in> to_lower ` set mods. \<not> ignored i}"
  using mod_set_loop [of "[]" mods] by (simp_all add: mod_set_def)

lemma client_mods_set:
  assumes "client_mods c = Some cm"
  obtains mods where "cl_mods c = Some mods" "distinct cm" "set cm = {i \<in> to_lower ` set mods. \<not> ignored i}"
proof -
  obtain mods where mods: "cl_mods c = Some mods"
    and cm: "cm = filter (\<lambda>i. \<not> ignored i) (foldl (\<lambda>m i. List.insert (to_lower i) m) [] mods)"
    using assms by (auto simp: client_mods_def)
  have "distinct m \<Longrightarrow> distinct (foldl (\<lambda>m i. List.insert (to_lower i) m) m mods)
      \<and> set (foldl (\<lambda>m i. List.insert (to_lower i) m) m mods) = set m \<union> to_lower ` set mods" for m
    by (induction mods arbitrary: m) auto
  from this [of "[]"] show thesis
    by (intro that [OF mods]) (auto simp: cm)
qed

lemma add_channel_eq:
  "add_channel mr ch =
     (case channel_ns ch of None \<Rightarrow> mr
      | Some ns \<Rightarrow> (List.insert ns (fst mr), if ch_required ch then List.insert ns (snd mr) else snd mr))"
  by (simp add: add_channel_def channel_ns_def split: prod.splits)

lemma add_channels:
  "distinct (fst mr) \<Longrightarrow> distinct (snd mr) \<Longrightarrow>
   distinct (fst (foldl add_channel mr chs)) \<and> distinct (snd (foldl add_channel mr chs))
   \<and> set (fst (foldl add_channel mr chs)) = set (fst mr) \<union> {i. Some i \<in> channel_ns ` set chs}
   \<and> set (snd (foldl add_channel mr chs))
     = set (snd mr) \<union> {i. Some i \<in> channel_ns ` {ch \<in> set chs. ch_required ch}}"
proof (induction chs arbitrary: mr)
  case Nil
  then show ?case by simp
next
  case (Cons ch chs)
  have "distinct (fst (add_channel mr ch))" "distinct (snd (add_channel mr ch))"
    using Cons.prems by (auto simp: add_channel_eq split: option.splits)
  note IH = Cons.IH [OF this]
  show ?case
    using IH by (auto simp: add_channel_eq image_iff split: option.splits)
qed

lemma server_mods_set:
  assumes "server_mods s = (smods, required)"
  shows "distinct smods" "distinct required" "set smods = server_ids s" "set required = required_ids s"
proof -
  have *: "fst (server_mods s) = smods" "snd (server_mods s) = required" using assms by simp_all
  note f = add_channels [of "(mod_set (sv_mods s), mod_set (sv_required_client_mods s))" "sv_channels s",
      folded server_mods_def, unfolded * fst_conv snd_conv, OF mod_set_set(1) mod_set_set(1)]
  from f show "distinct smods" "distinct required" by simp_all
  from f show "set smods = server_ids s" "set required = required_ids s"
    by (simp_all add: mod_set_set(2) server_ids_def required_ids_def)
qed

lemma finite_server_ids [simp]: "finite (server_ids s)" "finite (required_ids s)"
  using server_mods_set [of s "fst (server_mods s)" "snd (server_mods s)"] by (metis finite_set prod.collapse)+

lemma overlap_loop_counts:
  assumes "distinct is" and "distinct smods"
  shows "overlap_loop smods is (a, b) =
     (a + int (card (set is \<inter> set smods)), b + int (card (set is - set smods)))"
  using assms(1)
proof (induction "is" arbitrary: a b)
  case (Cons i "is")
  have "card ((insert i (set is)) \<inter> set smods) = (if i \<in> set smods then Suc (card (set is \<inter> set smods)) else card (set is \<inter> set smods))"
    using Cons.prems by simp
  moreover have "card (insert i (set is) - set smods) = (if i \<in> set smods then card (set is - set smods) else Suc (card (set is - set smods)))"
    using Cons.prems by (simp add: insert_Diff_if)
  ultimately show ?case using Cons by simp
qed simp

lemma overlap_loop_jaccard:
  assumes "distinct cm" and "distinct smods"
  shows "overlap_loop smods cm (0, int (length smods))
     = (int (card (set cm \<inter> set smods)), int (card (set cm \<union> set smods)))"
proof -
  have "card (set cm \<union> set smods) = card (set smods) + card (set cm - set smods)"
    by (subst card_Un_disjoint [symmetric]) (auto intro: arg_cong [where f = card])
  then show ?thesis using assms by (simp add: overlap_loop_counts distinct_card)
qed

section \<open>Compatibility\<close>

text \<open>The abstract contract: whether a modded server insists on a client of its family, whether a
  client may join, and the score of a pair, all over sets.\<close>

definition needs_loader :: "int \<Rightarrow> server \<Rightarrow> bool" where
  "needs_loader protocol s \<longleftrightarrow>
     Family (sv_loader s) protocol \<noteq> ''vanilla'' \<and>
     (required_ids s \<noteq> {} \<or> (Family (sv_loader s) protocol \<noteq> ''fabric'' \<and> server_ids s \<noteq> {}))"

definition maybe_fabric :: "client \<Rightarrow> server \<Rightarrow> bool" where
  "maybe_fabric c s \<longleftrightarrow> ClientFamily c = ''unknown'' \<and> Family (sv_loader s) (cl_protocol c) = ''fabric''"

definition joinable :: "client \<Rightarrow> server \<Rightarrow> bool" where
  "joinable c s \<longleftrightarrow>
     accepts s (cl_protocol c)
     \<and> (needs_loader (cl_protocol c) s \<longrightarrow>
          ClientFamily c = Family (sv_loader s) (cl_protocol c) \<or> maybe_fabric c s)
     \<and> (\<forall>cm. client_mods c = Some cm \<longrightarrow> required_ids s \<subseteq> set cm)"

definition base_score :: "client \<Rightarrow> server \<Rightarrow> int" where
  "base_score c s =
     (let sf = Family (sv_loader s) (cl_protocol c); cf = ClientFamily c in
      if needs_loader (cl_protocol c) s then (if cf = sf then 50 else 20)
      else if cf = sf \<or> (sf = ''vanilla'' \<and> cf = ''unknown'') then 60 else 40)"

definition mod_bonus :: "client \<Rightarrow> server \<Rightarrow> int" where
  "mod_bonus c s =
     (case client_mods c of
        None \<Rightarrow> 0
      | Some cm \<Rightarrow> 50 * int (card (set cm \<inter> server_ids s)) div int (card (set cm \<union> server_ids s)))"

definition surely :: "client \<Rightarrow> server \<Rightarrow> bool" where
  "surely c s \<longleftrightarrow>
     \<not> (needs_loader (cl_protocol c) s \<and> maybe_fabric c s)
     \<and> (client_mods c \<noteq> None \<or> required_ids s = {})"

lemma Family_cases: "Family l p \<in> {''fabric'', ''forge'', ''neoforge'', ''vanilla''}"
  by (simp add: Family_def Let_def)

lemma client_mods_distinct: "client_mods c = Some cm \<Longrightarrow> distinct cm"
  by (erule client_mods_set)

lemma join_base_eq:
  "join_base (ClientFamily c) (Family (sv_loader s) (cl_protocol c)) (needs_loader (cl_protocol c) s) =
     (if needs_loader (cl_protocol c) s
         \<and> \<not> (ClientFamily c = Family (sv_loader s) (cl_protocol c) \<or> maybe_fabric c s) then None
      else Some (base_score c s, \<not> (needs_loader (cl_protocol c) s \<and> maybe_fabric c s)))"
  by (simp add: join_base_def base_score_def maybe_fabric_def Let_def) auto

lemma score_eq:
  assumes cf: "cf = ClientFamily c" and cmods: "cmods = client_mods c" and acc: "accepts s (cl_protocol c)"
  shows "score c cf cmods s =
     (if joinable c s
      then Some \<lparr>ca_server = s, ca_score = base_score c s + mod_bonus c s, ca_certain = surely c s\<rparr>
      else None)"
proof -
  obtain smods required where sm: "server_mods s = (smods, required)" by (cases "server_mods s")
  note sets = server_mods_set [OF sm]
  have ne1: "smods = [] \<longleftrightarrow> server_ids s = {}" "required = [] \<longleftrightarrow> required_ids s = {}"
    using sets by auto
  have needs: "(Family (sv_loader s) (cl_protocol c) \<noteq> ''vanilla'' \<and>
      (required \<noteq> [] \<or> Family (sv_loader s) (cl_protocol c) \<noteq> ''fabric'' \<and> smods \<noteq> []))
      = needs_loader (cl_protocol c) s"
    by (simp add: needs_loader_def ne1)
  have loop: "overlap_loop smods cm (0, int (length smods))
      = (int (card (set cm \<inter> server_ids s)), int (card (set cm \<union> server_ids s)))"
    if "client_mods c = Some cm" for cm
    using overlap_loop_jaccard [OF client_mods_distinct [OF that] sets(1)] sets(3) by simp
  have "score c cf cmods s =
    (case join_base (ClientFamily c) (Family (sv_loader s) (cl_protocol c)) (needs_loader (cl_protocol c) s) of
       None \<Rightarrow> None
     | Some (sc, certain) \<Rightarrow>
         (case client_mods c of
            None \<Rightarrow> Some \<lparr>ca_server = s, ca_score = sc, ca_certain = certain \<and> required_ids s = {}\<rparr>
          | Some cm \<Rightarrow> if required_ids s \<subseteq> set cm
                      then Some \<lparr>ca_server = s, ca_score = sc + mod_bonus c s, ca_certain = certain\<rparr>
                      else None))"
    unfolding score_def cf cmods sm Let_def prod.case needs
    by (auto simp: loop mod_bonus_def ne1 sets(4) subset_iff card_gt_0_iff split: option.splits)
  then show ?thesis
    by (auto simp: join_base_eq joinable_def surely_def acc mod_bonus_def split: option.splits)
qed

definition candidate_of :: "client \<Rightarrow> server \<Rightarrow> candidate" where
  "candidate_of c s =
     \<lparr>ca_server = s, ca_score = base_score c s + mod_bonus c s, ca_certain = surely c s\<rparr>"

lemma candidate_of_sel [simp]:
  "ca_server (candidate_of c s) = s" "ca_score (candidate_of c s) = base_score c s + mod_bonus c s"
  "ca_certain (candidate_of c s) = surely c s"
  by (simp_all add: candidate_of_def)

lemma rank_loop_eq:
  "rank_loop c (ClientFamily c) (client_mods c) ss = map (candidate_of c) (filter (joinable c) ss)"
proof (induction ss)
  case (Cons s ss)
  then show ?case
    by (cases "accepts s (cl_protocol c)") (simp_all add: score_eq candidate_of_def joinable_def)
qed simp

lemma rank_eq: "rank c ss = sort_key rank_key (map (candidate_of c) (filter (joinable c) ss))"
  by (simp add: rank_def rank_loop_eq)

lemma set_rank: "k \<in> set (rank c ss) \<longleftrightarrow> (\<exists>s \<in> set ss. joinable c s \<and> k = candidate_of c s)"
  by (auto simp: rank_eq)

lemma mod_bonus_range: "0 \<le> mod_bonus c s \<and> mod_bonus c s \<le> 50"
proof (cases "client_mods c")
  case (Some cm)
  define i where "i = int (card (set cm \<inter> server_ids s))"
  define u where "u = int (card (set cm \<union> server_ids s))"
  have "card (set cm \<inter> server_ids s) \<le> card (set cm \<union> server_ids s)"
    by (rule card_mono) auto
  then have iu: "0 \<le> i" "i \<le> u" by (simp_all add: i_def u_def)
  have "50 * i div u \<le> 50"
  proof (cases "u = 0")
    case False
    then have "50 * i div u \<le> 50 * u div u" using iu by (intro zdiv_mono1) auto
    then show ?thesis using False by simp
  qed simp
  moreover have "0 \<le> 50 * i div u" using iu by (simp add: pos_imp_zdiv_nonneg_iff div_int_pos_iff)
  ultimately show ?thesis by (simp add: mod_bonus_def Some i_def u_def)
qed (simp add: mod_bonus_def)

lemma base_score_range: "base_score c s \<in> {20, 40, 50, 60}"
  by (simp add: base_score_def Let_def)

lemma client_mods_cong:
  assumes "set ms = set ms'"
  obtains a b where "client_mods (c\<lparr>cl_mods := Some ms\<rparr>) = Some a"
    "client_mods (c\<lparr>cl_mods := Some ms'\<rparr>) = Some b" "set a = set b"
proof -
  obtain a b where ab: "client_mods (c\<lparr>cl_mods := Some ms\<rparr>) = Some a"
    "client_mods (c\<lparr>cl_mods := Some ms'\<rparr>) = Some b"
    by (simp add: client_mods_def)
  from ab(1) have "set a = {i \<in> to_lower ` set ms. \<not> ignored i}"
    by (rule client_mods_set) simp
  moreover from ab(2) have "set b = {i \<in> to_lower ` set ms'. \<not> ignored i}"
    by (rule client_mods_set) simp
  ultimately show thesis using assms by (intro that [OF ab]) simp
qed

lemma candidate_cong:
  assumes "set ms = set ms'"
  shows "joinable (c\<lparr>cl_mods := Some ms\<rparr>) s = joinable (c\<lparr>cl_mods := Some ms'\<rparr>) s"
    and "candidate_of (c\<lparr>cl_mods := Some ms\<rparr>) s = candidate_of (c\<lparr>cl_mods := Some ms'\<rparr>) s"
proof -
  obtain a b where ab: "client_mods (c\<lparr>cl_mods := Some ms\<rparr>) = Some a"
    "client_mods (c\<lparr>cl_mods := Some ms'\<rparr>) = Some b" "set a = set b"
    by (rule client_mods_cong [OF assms])
  have "ClientFamily (c\<lparr>cl_mods := Some ms\<rparr>) = ClientFamily (c\<lparr>cl_mods := Some ms'\<rparr>)"
    by (simp add: ClientFamily_def Let_def cong: if_cong)
  with ab show "joinable (c\<lparr>cl_mods := Some ms\<rparr>) s = joinable (c\<lparr>cl_mods := Some ms'\<rparr>) s"
    "candidate_of (c\<lparr>cl_mods := Some ms\<rparr>) s = candidate_of (c\<lparr>cl_mods := Some ms'\<rparr>) s"
    by (simp_all add: joinable_def candidate_of_def surely_def base_score_def mod_bonus_def maybe_fabric_def)
qed

section \<open>Properties\<close>

text \<open>C11: the ranking contains every server the client can join, each as often as it is listed, and
  no other: the compatible ones are those that accept the protocol, that do not insist on another
  loader family, and whose required mods the client has, as far as its mods are known.\<close>

theorem rank_sound_complete:
  "mset (map ca_server (rank c ss)) = filter_mset (joinable c) (mset ss)"
proof -
  have "mset (map ca_server (rank c ss)) = image_mset ca_server (mset (rank c ss))" by simp
  also have "\<dots> = mset (filter (joinable c) ss)"
    by (simp add: rank_eq image_mset.compositionality comp_def del: mset_filter)
  finally show ?thesis by simp
qed

text \<open>Every ranked server has as score the fit of its loader plus 50 times the Jaccard index of
  the client's and the server's mods, rounded down, which lies between 20 and 110; it is marked
  certain exactly if the client's loader is known to fit and its mods are known or not needed.\<close>

theorem rank_scores:
  assumes "k \<in> set (rank c ss)"
  shows "ca_score k = base_score c (ca_server k) + mod_bonus c (ca_server k)
    \<and> ca_certain k = surely c (ca_server k) \<and> 20 \<le> ca_score k \<and> ca_score k \<le> 110"
proof -
  obtain s where k: "k = candidate_of c s" using assms by (auto simp: set_rank)
  show ?thesis
    using base_score_range [of c s] mod_bonus_range [of c s] unfolding k by auto
qed

definition demo_client :: client where
  "demo_client = \<lparr>cl_protocol = 765, cl_loader = ''vanilla'', cl_mods = Some [''Minimap'', ''minecraft'']\<rparr>"

definition demo_paper :: server where
  "demo_paper = zero_server\<lparr>sv_id := ''hub'', sv_loader := ''paper'', sv_protocols := [765],
     sv_mods := [''minimap'']\<rparr>"

theorem rank_scores_witness:
  "ca_score (hd (rank demo_client [demo_paper]))
     = base_score demo_client (ca_server (hd (rank demo_client [demo_paper])))
       + mod_bonus demo_client (ca_server (hd (rank demo_client [demo_paper])))
   \<and> ca_certain (hd (rank demo_client [demo_paper]))
     = surely demo_client (ca_server (hd (rank demo_client [demo_paper])))
   \<and> 20 \<le> ca_score (hd (rank demo_client [demo_paper])) \<and> ca_score (hd (rank demo_client [demo_paper])) \<le> 110"
  by (rule rank_scores [where ss = "[demo_paper]"]) code_simp

text \<open>The upper bound is attained, although \<^verbatim>\<open>Candidate\<close> documents scores of 0 to 100.\<close>

lemma score_over_100: "map ca_score (rank demo_client [demo_paper]) = [110]"
  by code_simp

text \<open>The ranking is sorted by descending score, then by descending player count, and servers
  that tie in both keep the order of the listing.\<close>

theorem rank_sorted_stable:
  "sorted_wrt (\<lambda>a b. ca_score a > ca_score b
      \<or> (ca_score a = ca_score b \<and> sv_players (ca_server a) \<ge> sv_players (ca_server b))) (rank c ss)
   \<and> map ca_server (filter (\<lambda>k. rank_key k = key) (rank c ss))
     = filter (\<lambda>s. joinable c s \<and> rank_key (candidate_of c s) = key) ss"
proof
  have "sorted_wrt (\<lambda>a b. rank_key a \<le> rank_key b) (rank c ss)"
    using sorted_sort_key [of rank_key] unfolding rank_def sorted_map .
  then show "sorted_wrt (\<lambda>a b. ca_score a > ca_score b
      \<or> (ca_score a = ca_score b \<and> sv_players (ca_server a) \<ge> sv_players (ca_server b))) (rank c ss)"
    by (rule sorted_wrt_mono_rel [rotated]) (auto simp: rank_key_def)
  have "filter (\<lambda>k. rank_key k = key) (rank c ss)
      = filter (\<lambda>k. rank_key k = key) (map (candidate_of c) (filter (joinable c) ss))"
    unfolding rank_eq by (rule sort_key_stable)
  then show "map ca_server (filter (\<lambda>k. rank_key k = key) (rank c ss))
     = filter (\<lambda>s. joinable c s \<and> rank_key (candidate_of c s) = key) ss"
    by (simp add: filter_map comp_def conj_commute)
qed

text \<open>A player is routed without asking only to a joinable, certain server that is the only
  compatible one or reaches the minimum score and leads every other by the margin; and it happens
  whenever the head of the ranking is such a server.\<close>

theorem pick_spec:
  "pick (rank c ss) min_score margin = Some k \<longleftrightarrow>
     (\<exists>ks. rank c ss = k # ks \<and> ca_certain k
        \<and> (ks = [] \<or> (min_score \<le> ca_score k \<and> list_all (\<lambda>k'. ca_score k' + margin \<le> ca_score k) ks)))"
proof (cases "rank c ss")
  case Nil
  then show ?thesis by (simp add: pick_def)
next
  case (Cons a as)
  have "sorted_wrt (\<lambda>a b. rank_key a \<le> rank_key b) (rank c ss)"
    using sorted_sort_key [of rank_key] unfolding rank_def sorted_map .
  then have "\<forall>x \<in> set (tl as). ca_score x \<le> ca_score (hd as)"
    unfolding Cons by (cases as) (auto simp: rank_key_def)
  then show ?thesis unfolding Cons by (cases as) (auto simp: pick_def list_all_iff)
qed

text \<open>The ranking does not depend on the order in which Go iterates over the client's mod map,
  nor on repeated ids.\<close>

theorem rank_map_order:
  assumes "set ms = set ms'"
  shows "rank (c\<lparr>cl_mods := Some ms\<rparr>) ss = rank (c\<lparr>cl_mods := Some ms'\<rparr>) ss"
  using candidate_cong [OF assms] by (simp add: rank_eq cong: map_cong filter_cong)

theorem rank_map_order_witness:
  "rank (demo_client\<lparr>cl_mods := Some [''jei'', ''create'']\<rparr>) [demo_paper, demo_server]
   = rank (demo_client\<lparr>cl_mods := Some [''create'', ''jei'', ''create'']\<rparr>) [demo_paper, demo_server]"
  by (rule rank_map_order) auto

end
