(* ===== verification/Kv_Store.thy ===== *)
theory Kv_Store
  imports Strs
begin

text \<open>
  \<^verbatim>\<open>internal/store/store.go\<close>: a persistent key-value store with expiry at whole seconds, and the
  contract its clients use, the locale \<open>kv_contract\<close>.

  Every method holds the mutex, so it is one step; \<^verbatim>\<open>Flush\<close> gives the mutex up while it writes the
  file, so it is two steps (\<open>flush_begin\<close>, \<open>flush_end\<close>) between which other methods may run. Here
  the file holds the data itself and is replaced as a whole or not at all; theory State_File refines it to
  the bytes on disk. The lemmas show the map laws under
  expiry, and that no interleaving loses an update: a clean store is the one on disk.
\<close>

section \<open>Data and operations\<close>

record kv_entry =
  kv_value :: string
  kv_expires :: int

type_synonym bucket = "(string \<times> kv_entry) list"
type_synonym kv_data = "(string \<times> bucket) list"

record kv_store =
  st_path :: string
  st_data :: kv_data
  st_dirty :: bool

definition unix_sec :: "time \<Rightarrow> int" where
  "unix_sec t = t div 1000000000"

definition bucket_of :: "kv_data \<Rightarrow> string \<Rightarrow> bucket" where
  "bucket_of d b = (case map_of d b of None \<Rightarrow> [] | Some m \<Rightarrow> m)"

definition dead :: "time \<Rightarrow> kv_entry \<Rightarrow> bool" where
  "dead now e \<longleftrightarrow> kv_expires e \<noteq> 0 \<and> unix_sec now \<ge> kv_expires e"

definition store_set :: "time \<Rightarrow> string \<Rightarrow> string \<Rightarrow> string \<Rightarrow> duration \<Rightarrow> kv_store \<Rightarrow> kv_store" where
  "store_set now b k v ttl s =
     (let e = \<lparr>kv_value = v, kv_expires = (if ttl > 0 then unix_sec (now + ttl) else 0)\<rparr>
      in s\<lparr>st_data := AList.update b (AList.update k e (bucket_of (st_data s) b)) (st_data s),
           st_dirty := True\<rparr>)"

definition drop_key :: "string \<Rightarrow> string \<Rightarrow> kv_store \<Rightarrow> kv_store" where
  "drop_key b k s =
     s\<lparr>st_data := AList.update b (AList.delete k (bucket_of (st_data s) b)) (st_data s), st_dirty := True\<rparr>"

definition store_get :: "time \<Rightarrow> string \<Rightarrow> string \<Rightarrow> kv_store \<Rightarrow> string option \<times> kv_store" where
  "store_get now b k s =
     (case map_of (bucket_of (st_data s) b) k of
        None \<Rightarrow> (None, s)
      | Some e \<Rightarrow> if dead now e then (None, drop_key b k s) else (Some (kv_value e), s))"

definition store_delete :: "string \<Rightarrow> string \<Rightarrow> kv_store \<Rightarrow> kv_store" where
  "store_delete b k s =
     (case map_of (bucket_of (st_data s) b) k of None \<Rightarrow> s | Some _ \<Rightarrow> drop_key b k s)"

definition store_len :: "time \<Rightarrow> string \<Rightarrow> kv_store \<Rightarrow> nat" where
  "store_len now b s = length (filter (\<lambda>(k, e). kv_expires e = 0 \<or> unix_sec now < kv_expires e) (bucket_of (st_data s) b))"

definition store_prune :: "time \<Rightarrow> kv_store \<Rightarrow> kv_store" where
  "store_prune now s =
     s\<lparr>st_data := map (\<lambda>(b, m). (b, filter (\<lambda>(k, e). \<not> dead now e) m)) (st_data s),
       st_dirty := (st_dirty s \<or> (\<exists>(b, m) \<in> set (st_data s). \<exists>(k, e) \<in> set m. dead now e))\<rparr>"

text \<open>\<^verbatim>\<open>Open\<close>, with what the file holds: \<open>None\<close> is no path or no file.\<close>

definition store_open :: "time \<Rightarrow> string \<Rightarrow> kv_data option \<Rightarrow> kv_store" where
  "store_open now path file =
     (let s = \<lparr>st_path = path, st_data = [], st_dirty = False\<rparr> in
      if path = [] then s
      else case file of None \<Rightarrow> s | Some d \<Rightarrow> store_prune now (s\<lparr>st_data := d\<rparr>))"

section \<open>The contract of a key-value store\<close>

text \<open>
  What the value under a bucket and a key is at a time. A store may forget what has expired at
  any access, which must not show later; \<open>lasts t0 ttl t\<close> says that what was stored at \<open>t0\<close> for
  \<open>ttl\<close> is still there at \<open>t\<close>.
\<close>

locale kv_contract =
  fixes inv :: "'s \<Rightarrow> bool"
    and get :: "time \<Rightarrow> string \<Rightarrow> string \<Rightarrow> 's \<Rightarrow> string option \<times> 's"
    and put :: "time \<Rightarrow> string \<Rightarrow> string \<Rightarrow> string \<Rightarrow> duration \<Rightarrow> 's \<Rightarrow> 's"
    and del :: "string \<Rightarrow> string \<Rightarrow> 's \<Rightarrow> 's"
    and lasts :: "time \<Rightarrow> duration \<Rightarrow> time \<Rightarrow> bool"
  assumes inv_get: "inv s \<Longrightarrow> inv (snd (get t b k s))"
    and inv_put: "inv s \<Longrightarrow> inv (put t b k v ttl s)"
    and inv_del: "inv s \<Longrightarrow> inv (del b k s)"
    and get_put: "inv s \<Longrightarrow> fst (get t b' k' (put t0 b k v ttl s)) =
          (if b' = b \<and> k' = k then if lasts t0 ttl t then Some v else None else fst (get t b' k' s))"
    and get_del: "inv s \<Longrightarrow> fst (get t b' k' (del b k s)) =
          (if b' = b \<and> k' = k then None else fst (get t b' k' s))"
    and get_get: "inv s \<Longrightarrow> t0 \<le> t \<Longrightarrow> fst (get t b' k' (snd (get t0 b k s))) = fst (get t b' k' s)"
begin

lemma get_put_same: "inv s \<Longrightarrow> lasts t0 ttl t \<Longrightarrow> fst (get t b k (put t0 b k v ttl s)) = Some v"
  by (simp add: get_put)

lemma get_put_other:
  "inv s \<Longrightarrow> b' \<noteq> b \<or> k' \<noteq> k \<Longrightarrow> fst (get t b' k' (put t0 b k v ttl s)) = fst (get t b' k' s)"
  by (auto simp: get_put)

end

section \<open>The store keeps the contract\<close>

definition kv_inv :: "kv_store \<Rightarrow> bool" where
  "kv_inv s \<longleftrightarrow> distinct (map fst (st_data s)) \<and> list_all (\<lambda>(b, m). distinct (map fst m)) (st_data s)"

definition kv_lasts :: "time \<Rightarrow> duration \<Rightarrow> time \<Rightarrow> bool" where
  "kv_lasts t0 ttl t \<longleftrightarrow> ttl \<le> 0 \<or> unix_sec (t0 + ttl) = 0 \<or> unix_sec t < unix_sec (t0 + ttl)"

lemma bucket_of_update [simp]: "bucket_of (AList.update b m d) b' = (if b' = b then m else bucket_of d b')"
  by (simp add: bucket_of_def)

lemma distinct_bucket: "kv_inv s \<Longrightarrow> distinct (map fst (bucket_of (st_data s) b))"
  by (auto simp: kv_inv_def bucket_of_def split: option.splits dest: map_of_list_all)

lemma kv_inv_update:
  "kv_inv s \<Longrightarrow> distinct (map fst m) \<Longrightarrow> kv_inv (s\<lparr>st_data := AList.update b m (st_data s), st_dirty := d\<rparr>)"
  by (simp add: kv_inv_def list_all_update)

lemma store_set_inv: "kv_inv s \<Longrightarrow> kv_inv (store_set t b k v ttl s)"
  by (simp add: store_set_def Let_def kv_inv_update distinct_bucket)

lemma drop_key_inv: "kv_inv s \<Longrightarrow> kv_inv (drop_key b k s)"
  by (simp add: drop_key_def kv_inv_update distinct_bucket)

lemma store_get_inv: "kv_inv s \<Longrightarrow> kv_inv (snd (store_get t b k s))"
  by (simp add: store_get_def drop_key_inv split: option.splits)

lemma store_delete_inv: "kv_inv s \<Longrightarrow> kv_inv (store_delete b k s)"
  by (simp add: store_delete_def drop_key_inv split: option.splits)

text \<open>What a lookup sees.\<close>

lemma fst_store_get:
  "fst (store_get t b k s) =
     (case map_of (bucket_of (st_data s) b) k of
        None \<Rightarrow> None | Some e \<Rightarrow> if dead t e then None else Some (kv_value e))"
  by (simp add: store_get_def split: option.splits)

lemma drop_key_get:
  "fst (store_get t b' k' (drop_key b k s)) = (if b' = b \<and> k' = k then None else fst (store_get t b' k' s))"
  by (simp add: fst_store_get drop_key_def)

lemma dead_mono: "dead t0 e \<Longrightarrow> t0 \<le> t \<Longrightarrow> dead t e"
  using zdiv_mono1 [of t0 t 1000000000] by (auto simp: dead_def unix_sec_def)

lemma get_forgets:
  "t0 \<le> t \<Longrightarrow> fst (store_get t b' k' (snd (store_get t0 b k s))) = fst (store_get t b' k' s)"
proof (cases "map_of (bucket_of (st_data s) b) k")
  case (Some e)
  assume "t0 \<le> t"
  with Some show ?thesis
    by (cases "dead t0 e") (auto simp: store_get_def [of t0] drop_key_get, simp add: fst_store_get dead_mono)
qed (simp add: store_get_def [of t0])

interpretation kv: kv_contract kv_inv store_get store_set store_delete kv_lasts
proof
  fix s :: kv_store and t t0 b b' k k' v ttl
  assume s: "kv_inv s"
  show "kv_inv (snd (store_get t b k s))" "kv_inv (store_set t b k v ttl s)" "kv_inv (store_delete b k s)"
    using s by (simp_all add: store_get_inv store_set_inv store_delete_inv)
  show "fst (store_get t b' k' (store_set t0 b k v ttl s)) =
      (if b' = b \<and> k' = k then if kv_lasts t0 ttl t then Some v else None else fst (store_get t b' k' s))"
    by (auto simp: fst_store_get store_set_def Let_def dead_def kv_lasts_def)
  show "fst (store_get t b' k' (store_delete b k s)) =
      (if b' = b \<and> k' = k then None else fst (store_get t b' k' s))"
    by (cases "map_of (bucket_of (st_data s) b) k") (auto simp: store_delete_def drop_key_get, simp add: fst_store_get)
  show "t0 \<le> t \<Longrightarrow> fst (store_get t b' k' (snd (store_get t0 b k s))) = fst (store_get t b' k' s)"
    by (rule get_forgets)
qed

lemma store_prune_get:
  assumes "kv_inv s" and "t0 \<le> t"
  shows "fst (store_get t b k (store_prune t0 s)) = fst (store_get t b k s)"
proof -
  have "map_of (map (\<lambda>(b, m). (b, filter (\<lambda>(k, e). \<not> dead t0 e) m)) d) b
      = map_option (filter (\<lambda>(k, e). \<not> dead t0 e)) (map_of d b)" for d :: kv_data
    by (induction d) auto
  then have "bucket_of (st_data (store_prune t0 s)) b = filter (\<lambda>(k, e). \<not> dead t0 e) (bucket_of (st_data s) b)"
    by (simp add: store_prune_def bucket_of_def split: option.splits)
  with distinct_bucket [OF assms(1), of b] dead_mono [OF _ assms(2)] show ?thesis
    by (auto simp: fst_store_get map_of_filter_val split: option.splits)
qed

lemma store_prune_inv: "kv_inv s \<Longrightarrow> kv_inv (store_prune t s)"
  by (auto simp: kv_inv_def store_prune_def list_all_iff comp_def case_prod_beta)

section \<open>Flushing\<close>

datatype store_op =
    S_set string string string duration
  | S_get string string
  | S_delete string string
  | S_prune

fun store_step :: "time \<Rightarrow> store_op \<Rightarrow> kv_store \<Rightarrow> kv_store" where
  "store_step now (S_set b k v ttl) s = store_set now b k v ttl s"
| "store_step now (S_get b k) s = snd (store_get now b k s)"
| "store_step now (S_delete b k) s = store_delete b k s"
| "store_step now S_prune s = store_prune now s"

text \<open>A store with its file; \<open>dk_flushing\<close> is the snapshot of the flush that holds \<^verbatim>\<open>flushMu\<close>.\<close>

record disk =
  dk_store :: kv_store
  dk_flushing :: "kv_data option"
  dk_file :: "kv_data option"

definition flush_begin :: "disk \<Rightarrow> disk" where
  "flush_begin d =
     (let s = dk_store d in
      if st_path s = [] \<or> dk_flushing d \<noteq> None \<or> \<not> st_dirty s then d
      else d\<lparr>dk_store := s\<lparr>st_dirty := False\<rparr>, dk_flushing := Some (st_data s)\<rparr>)"

definition flush_end :: "bool \<Rightarrow> disk \<Rightarrow> disk" where
  "flush_end ok d =
     (case dk_flushing d of
        None \<Rightarrow> d
      | Some x \<Rightarrow>
          if ok then d\<lparr>dk_flushing := None, dk_file := Some x\<rparr>
          else d\<lparr>dk_flushing := None, dk_store := (dk_store d)\<lparr>st_dirty := True\<rparr>\<rparr>)"

datatype disk_op = D_store time store_op | D_begin | D_end bool

fun disk_step :: "disk_op \<Rightarrow> disk \<Rightarrow> disk" where
  "disk_step (D_store now op) d = d\<lparr>dk_store := store_step now op (dk_store d)\<rparr>"
| "disk_step D_begin d = flush_begin d"
| "disk_step (D_end ok) d = flush_end ok d"

definition disk_run :: "disk_op list \<Rightarrow> disk \<Rightarrow> disk" where
  "disk_run ops d = foldl (\<lambda>d op. disk_step op d) d ops"

definition disk_open :: "time \<Rightarrow> string \<Rightarrow> kv_data option \<Rightarrow> disk" where
  "disk_open now path file =
     \<lparr>dk_store = store_open now path file, dk_flushing = None, dk_file = file\<rparr>"

text \<open>What the file will hold once the flush under way is over, and the invariant.\<close>

definition saved :: "disk \<Rightarrow> kv_data" where
  "saved d = (case dk_flushing d of
                Some x \<Rightarrow> x
              | None \<Rightarrow> (case dk_file d of Some x \<Rightarrow> x | None \<Rightarrow> []))"

definition disk_inv :: "disk \<Rightarrow> bool" where
  "disk_inv d \<longleftrightarrow> st_path (dk_store d) = [] \<or> st_dirty (dk_store d) \<or> st_data (dk_store d) = saved d"

lemma drop_key_sel [simp]: "st_path (drop_key b k s) = st_path s" "st_dirty (drop_key b k s)"
  by (simp_all add: drop_key_def)

lemma filter_alive: "\<forall>(k, e) \<in> set m. \<not> dead t e \<Longrightarrow> filter (\<lambda>(k, e). \<not> dead t e) m = m"
  by (rule filter_True) auto

lemma store_prune_clean:
  "st_dirty (store_prune t s) \<or> (st_data (store_prune t s) = st_data s \<and> st_dirty (store_prune t s) = st_dirty s)"
proof (cases "st_dirty (store_prune t s)")
  case False
  then have "\<forall>(b, m) \<in> set (st_data s). \<forall>(k, e) \<in> set m. \<not> dead t e" "\<not> st_dirty s"
    by (auto simp: store_prune_def)
  then have "map (\<lambda>(b, m). (b, filter (\<lambda>(k, e). \<not> dead t e) m)) (st_data s) = st_data s"
    by (intro map_idI) (auto intro!: filter_alive)
  then show ?thesis using False \<open>\<not> st_dirty s\<close> by (simp add: store_prune_def)
qed simp

lemma store_step_clean:
  "st_path (store_step now op s) = st_path s
   \<and> (st_dirty (store_step now op s)
      \<or> (st_data (store_step now op s) = st_data s \<and> st_dirty (store_step now op s) = st_dirty s))"
  using store_prune_clean [of now s]
  by (cases op) (auto simp: store_set_def store_get_def store_delete_def Let_def store_prune_def split: option.splits)

lemma saved_store [simp]: "saved (d\<lparr>dk_store := s\<rparr>) = saved d"
  by (simp add: saved_def split: option.splits)

lemma disk_step_inv: "disk_inv d \<Longrightarrow> disk_inv (disk_step op d)"
proof (cases op)
  case (D_store now o')
  assume "disk_inv d"
  then show ?thesis using store_step_clean [of now o' "dk_store d"]
    by (auto simp: D_store disk_inv_def)
next
  case D_begin
  assume "disk_inv d"
  then show ?thesis by (auto simp: D_begin flush_begin_def disk_inv_def saved_def Let_def)
next
  case (D_end ok)
  assume "disk_inv d"
  then show ?thesis by (auto simp: D_end flush_end_def disk_inv_def saved_def split: option.splits)
qed

lemma disk_open_inv: "disk_inv (disk_open now path content)"
  using store_prune_clean [of now "\<lparr>st_path = path, st_data = the content, st_dirty = False\<rparr>"]
  by (auto simp: disk_open_def store_open_def disk_inv_def saved_def Let_def split: option.splits)

lemma disk_run_inv: "disk_inv d \<Longrightarrow> disk_inv (disk_run ops d)"
  by (induction ops arbitrary: d) (simp_all add: disk_run_def disk_step_inv)

section \<open>Properties\<close>

text \<open>No update is lost by flushing. However sets, gets, deletes and prunes fall between the
  snapshot of a flush and the end of its write, and whether writes fail or succeed, a store with a
  path that is marked clean holds exactly what its file holds, or will hold when the flush under way
  is over.\<close>

theorem no_lost_update:
  fixes ops :: "disk_op list" and now :: time and path :: string and content :: "kv_data option"
  defines "d \<equiv> disk_run ops (disk_open now path content)"
  shows "st_path (dk_store d) = [] \<or> st_dirty (dk_store d) \<or> st_data (dk_store d) = saved d"
proof -
  have "disk_inv d" unfolding d_def by (rule disk_run_inv) (rule disk_open_inv)
  then show ?thesis unfolding disk_inv_def .
qed

text \<open>A value is found from when it is stored until its time to live is over, rounded to whole
  seconds: certainly while more than a second of it is left, and never once it has passed; without a
  time to live it is found until it is deleted. Entries under other keys or buckets are unaffected,
  and neither are they by what a lookup or a prune in between forgets.\<close>

theorem store_set_get:
  fixes s :: kv_store and t0 t1 t ttl :: int and b b2 k k2 v :: string
  assumes "kv_inv s" and "0 < t0" and "t0 \<le> t1" and "t1 \<le> t"
  defines "s' \<equiv> store_prune t1 (snd (store_get t1 b2 k2 (store_set t0 b k v ttl s)))"
  shows "(ttl \<le> 0 \<or> t + 1000000000 \<le> t0 + ttl \<longrightarrow> fst (store_get t b k s') = Some v)
    \<and> (0 < ttl \<and> t0 + ttl \<ge> 1000000000 \<and> t0 + ttl \<le> t \<longrightarrow> fst (store_get t b k s') = None)
    \<and> (b' \<noteq> b \<or> k' \<noteq> k \<longrightarrow> fst (store_get t b' k' s') = fst (store_get t b' k' s))"
proof -
  have s1: "kv_inv (store_set t0 b k v ttl s)" by (rule kv.inv_put [OF assms(1)])
  have get: "fst (store_get t b' k' s') = fst (store_get t b' k' (store_set t0 b k v ttl s))" for b' k'
    unfolding s'_def using store_prune_get [OF kv.inv_get [OF s1] assms(4)] kv.get_get [OF s1 assms(4)] by simp
  have *: "unix_sec t < unix_sec (t0 + ttl)" if "t + 1000000000 \<le> t0 + ttl"
    using zdiv_mono1 [OF that, of 1000000000] by (simp add: unix_sec_def)
  have **: "unix_sec (t0 + ttl) \<le> unix_sec t \<and> unix_sec (t0 + ttl) \<noteq> 0"
    if "1000000000 \<le> t0 + ttl" "t0 + ttl \<le> t"
    using zdiv_mono1 [OF that(2), of 1000000000] zdiv_mono1 [OF that(1), of 1000000000]
    by (simp add: unix_sec_def)
  show ?thesis unfolding get
    using * ** by (auto simp: kv.get_put [OF assms(1)] kv_lasts_def)
qed

definition demo_store :: kv_store where
  "demo_store = store_open 1 [] None"

theorem store_set_get_witness:
  "fst (store_get 3000000000 ''pending'' ''alex''
     (store_prune 2000000000 (snd (store_get 2000000000 ''pending'' ''sam''
       (store_set 1000000000 ''pending'' ''alex'' ''hub'' 9000000000 demo_store))))) = Some ''hub''"
proof -
  have "kv_inv demo_store" by code_simp
  from store_set_get [OF this, of 1000000000 2000000000 3000000000 9000000000 "''pending''" "''alex''"
      "''pending''" "''sam''" "''hub''"]
  show ?thesis by simp
qed

end
