(* ===== verification/Pending.thy ===== *)
theory Pending
  imports Kv_Store Registry
begin

text \<open>
  \<^verbatim>\<open>internal/router/pending.go\<close>: what the router remembers of a player across connections, in four
  buckets of the store: the server chosen for the next login, the mod lists a client refused, the
  last server played, and the last player seen at an address (for the server list entry).

  The lemmas are consequences of the contract of the store: the buckets do not interfere, player
  names are taken without case, and a refusal is remembered for one pair of player and server only.
\<close>

definition bucketPending :: string where
  "bucketPending = ''pending''"

definition bucketRejected :: string where
  "bucketRejected = ''forge-rejected''"

definition bucketSticky :: string where
  "bucketSticky = ''sticky''"

definition bucketIPPlayer :: string where
  "bucketIPPlayer = ''ip-player''"

definition player_key :: "string \<Rightarrow> string" where
  "player_key player = to_lower player"

definition pending_set :: "time \<Rightarrow> string \<Rightarrow> string \<Rightarrow> duration \<Rightarrow> kv_store \<Rightarrow> kv_store" where
  "pending_set now player srv ttl st = store_set now bucketPending (player_key player) srv ttl st"

definition pending_get :: "time \<Rightarrow> string \<Rightarrow> kv_store \<Rightarrow> string option \<times> kv_store" where
  "pending_get now player st = store_get now bucketPending (player_key player) st"

definition pending_clear :: "string \<Rightarrow> kv_store \<Rightarrow> kv_store" where
  "pending_clear player st = store_delete bucketPending (player_key player) st"

definition rejected_key :: "string \<Rightarrow> string \<Rightarrow> string" where
  "rejected_key player srv = player_key player @ ''|'' @ srv"

definition pending_reject :: "time \<Rightarrow> string \<Rightarrow> string \<Rightarrow> duration \<Rightarrow> kv_store \<Rightarrow> kv_store" where
  "pending_reject now player srv ttl st = store_set now bucketRejected (rejected_key player srv) ''1'' ttl st"

definition pending_rejected :: "time \<Rightarrow> string \<Rightarrow> string \<Rightarrow> kv_store \<Rightarrow> bool \<times> kv_store" where
  "pending_rejected now player srv st =
     (case store_get now bucketRejected (rejected_key player srv) st of (v, st) \<Rightarrow> (v \<noteq> None, st))"

definition set_sticky :: "time \<Rightarrow> string \<Rightarrow> string \<Rightarrow> duration \<Rightarrow> kv_store \<Rightarrow> kv_store" where
  "set_sticky now player srv ttl st = store_set now bucketSticky (player_key player) srv ttl st"

definition sticky :: "time \<Rightarrow> string \<Rightarrow> kv_store \<Rightarrow> string option \<times> kv_store" where
  "sticky now player st = store_get now bucketSticky (player_key player) st"

definition set_ip_player :: "time \<Rightarrow> string \<Rightarrow> string \<Rightarrow> duration \<Rightarrow> kv_store \<Rightarrow> kv_store" where
  "set_ip_player now ip player ttl st = store_set now bucketIPPlayer ip player ttl st"

definition ip_player :: "time \<Rightarrow> string \<Rightarrow> kv_store \<Rightarrow> string option \<times> kv_store" where
  "ip_player now ip st = store_get now bucketIPPlayer ip st"

definition pending_prune :: "time \<Rightarrow> kv_store \<Rightarrow> kv_store" where
  "pending_prune now st = store_prune now st"

lemmas bucket_defs = bucketPending_def bucketRejected_def bucketSticky_def bucketIPPlayer_def

lemmas pending_defs = pending_set_def pending_get_def pending_clear_def pending_reject_def
  pending_rejected_def set_sticky_def sticky_def set_ip_player_def ip_player_def player_key_def

lemma fst_pending_rejected:
  "fst (pending_rejected t p x st) \<longleftrightarrow> fst (store_get t bucketRejected (rejected_key p x) st) \<noteq> None"
  by (simp add: pending_rejected_def split: prod.splits)

lemma rejected_key_inject:
  "id_pattern x \<Longrightarrow> id_pattern y \<Longrightarrow> rejected_key p x = rejected_key q y \<longleftrightarrow> to_lower p = to_lower q \<and> x = y"
  using last_sep_inject [of "CHR ''|''" x y "to_lower p" "to_lower q"]
  by (simp add: rejected_key_def player_key_def id_pattern_no_sep)

text \<open>A remembered route is found for the same player, in any capitalisation, while it lasts; it
  changes nothing for other players, and no other memory of the router. Clearing it forgets it.\<close>

theorem pending_isolated:
  assumes "kv_inv st" and "kv_lasts t0 ttl t"
  shows "fst (pending_get t q (pending_set t0 p srv ttl st))
      = (if to_lower q = to_lower p then Some srv else fst (pending_get t q st))
    \<and> fst (pending_get t q (pending_clear p st)) = (if to_lower q = to_lower p then None else fst (pending_get t q st))
    \<and> fst (sticky t q (pending_set t0 p srv ttl st)) = fst (sticky t q st)
    \<and> fst (pending_rejected t q x (pending_set t0 p srv ttl st)) = fst (pending_rejected t q x st)
    \<and> fst (ip_player t ip (pending_set t0 p srv ttl st)) = fst (ip_player t ip st)"
  using assms(2)
  by (simp add: fst_pending_rejected, simp add: pending_defs kv.get_put [OF assms(1)] kv.get_del [OF assms(1)],
      simp add: bucket_defs)

theorem pending_isolated_witness:
  "fst (pending_get 5000000000 ''ALEX'' (pending_set 1000000000 ''Alex'' ''hub'' 9000000000 demo_store)) = Some ''hub''"
proof -
  have "kv_inv demo_store" "kv_lasts 1000000000 9000000000 5000000000"
    and low: "to_lower ''ALEX'' = to_lower ''Alex''" by code_simp+
  from pending_isolated [OF this(1,2), of "''ALEX''" "''Alex''" "''hub''"] show ?thesis
    by (simp add: low)
qed

text \<open>Remembering that a client refused the mods of a server rejects exactly that player there:
  although the key joins a player name, which may contain the separator, and a server id, no other
  pair is affected.\<close>

theorem rejected_isolated:
  assumes "kv_inv st" and "kv_lasts t0 ttl t" and "id_pattern x" and "id_pattern y"
  shows "fst (pending_rejected t q y (pending_reject t0 p x ttl st)) \<longleftrightarrow>
     (to_lower q = to_lower p \<and> y = x) \<or> fst (pending_rejected t q y st)"
  using assms(2) rejected_key_inject [OF assms(4,3), of q p]
  by (auto simp: fst_pending_rejected pending_reject_def kv.get_put [OF assms(1)])

theorem rejected_isolated_witness:
  "\<not> fst (pending_rejected 5 ''a|b'' ''c'' (pending_reject 1 ''a'' ''b'' 0 demo_store))"
proof -
  have *: "kv_inv demo_store" "kv_lasts 1 0 5" "id_pattern ''b''" "id_pattern ''c''"
    "\<not> fst (pending_rejected 5 ''a|b'' ''c'' demo_store)" by code_simp+
  from rejected_isolated [OF *(1-4), of "''a|b''" "''a''"] *(5) show ?thesis by simp
qed

end
