(* ===== verification/Cookie.thy ===== *)
theory Cookie
  imports Kv_Store
begin

text \<open>
  \<^verbatim>\<open>internal/router/cookie.go\<close>: the signed route cookie a client carries across a transfer, and the
  two base64 encodings of encoding/base64 the gateway writes.

  HMAC-SHA256 is the parameter \<open>hmac\<close>, a function from a key and a message to bytes; nothing of it is
  assumed here. The lemmas show that a cookie verifies for the player it was issued to until it
  expires, and that whatever verifies carries the tag of exactly the route it names.
\<close>

section \<open>Base64\<close>

definition b64_alphabet :: "string \<Rightarrow> string" where
  "b64_alphabet tail =
     ''ABCDEFGHIJKLMNOPQRSTUVWXYZabcdefghijklmnopqrstuvwxyz0123456789'' @ tail"

fun b64_encode :: "string \<Rightarrow> string \<Rightarrow> byte list \<Rightarrow> string" where
  "b64_encode two pad (a # b # c # bs) =
     (let n = unat a * 65536 + unat b * 256 + unat c
      in map (\<lambda>i. b64_alphabet two ! i) [n div 262144, n div 4096 mod 64, n div 64 mod 64, n mod 64]
         @ b64_encode two pad bs)"
| "b64_encode two pad [a, b] =
     (let n = unat a * 65536 + unat b * 256
      in map (\<lambda>i. b64_alphabet two ! i) [n div 262144, n div 4096 mod 64, n div 64 mod 64] @ pad)"
| "b64_encode two pad [a] =
     (let n = unat a * 65536
      in map (\<lambda>i. b64_alphabet two ! i) [n div 262144, n div 4096 mod 64] @ pad @ pad)"
| "b64_encode two pad [] = []"

text \<open>\<^verbatim>\<open>base64.RawURLEncoding\<close> and \<^verbatim>\<open>base64.StdEncoding\<close>.\<close>

definition b64_raw_url :: "byte list \<Rightarrow> string" where
  "b64_raw_url bs = b64_encode ''-_'' [] bs"

definition b64_std :: "byte list \<Rightarrow> string" where
  "b64_std bs = b64_encode ''+/'' ''='' bs"

lemma b64_letter: "i < 64 \<Longrightarrow> length two = 2 \<Longrightarrow> b64_alphabet two ! i \<in> set (b64_alphabet two)"
  by (rule nth_mem) (simp add: b64_alphabet_def)

lemma byte_less: "unat (b :: byte) < 256"
  using unsigned_less [of b] by simp

lemma b64_encode_set:
  "length two = 2 \<Longrightarrow> set (b64_encode two pad bs) \<subseteq> set (b64_alphabet two) \<union> set pad"
proof (induction two pad bs rule: b64_encode.induct)
  case (1 two pad a b c bs)
  have "(unat a * 65536 + unat b * 256 + unat c) div 262144 < 64"
    using byte_less [of a] byte_less [of b] byte_less [of c] by simp
  then show ?case using 1 by (simp add: Let_def b64_letter)
next
  case (2 two pad a b)
  have "(unat a * 65536 + unat b * 256) div 262144 < 64"
    using byte_less [of a] byte_less [of b] by simp
  then show ?case using 2 by (simp add: Let_def b64_letter)
next
  case (3 two pad a)
  have "unat a * 65536 div 262144 < 64"
    using byte_less [of a] by simp
  then show ?case using 3 by (simp add: Let_def b64_letter)
qed simp

lemma b64_raw_url_no_bar: "CHR ''|'' \<notin> set (b64_raw_url bs)"
proof -
  have "CHR ''|'' \<notin> set (b64_alphabet ''-_'')" by code_simp
  then show ?thesis using b64_encode_set [of "''-_''" "[]" bs] by (auto simp: b64_raw_url_def)
qed

section \<open>Signing and verifying\<close>

datatype cookie_err = C_malformed | C_signature | C_player | C_expired

type_synonym hmac = "byte list \<Rightarrow> byte list \<Rightarrow> byte list"

definition CookieKey :: string where
  "CookieKey = ''vecta:route''"

definition cookie_mac :: "hmac \<Rightarrow> byte list \<Rightarrow> string \<Rightarrow> string" where
  "cookie_mac hmac key body = b64_raw_url (hmac key (bytes body))"

definition sign_route :: "hmac \<Rightarrow> byte list \<Rightarrow> string \<Rightarrow> string \<Rightarrow> time \<Rightarrow> byte list" where
  "sign_route hmac key srv player expires =
     (let body = join ''|'' [''v1'', srv, to_lower player, itoa (unix_sec expires)]
      in bytes (body @ ''|'' @ cookie_mac hmac key body))"

definition verify_route :: "hmac \<Rightarrow> byte list \<Rightarrow> byte list \<Rightarrow> string \<Rightarrow> time \<Rightarrow> cookie_err + string" where
  "verify_route hmac key cookie player now =
     (let parts = split (CHR ''|'') (str cookie) in
      if length parts \<noteq> 5 \<or> parts ! 0 \<noteq> ''v1'' then Inl C_malformed
      else let body = join ''|'' (take 4 parts) in
        if parts ! 4 \<noteq> cookie_mac hmac key body then Inl C_signature
        else if parts ! 2 \<noteq> to_lower player then Inl C_player
        else case parse_int (parts ! 3) of
               None \<Rightarrow> Inl C_expired
             | Some e \<Rightarrow> if unix_sec now > e then Inl C_expired else Inr (parts ! 1))"

lemma mac_no_bar: "CHR ''|'' \<notin> set (cookie_mac hmac key body)"
  by (simp add: cookie_mac_def b64_raw_url_no_bar)

lemma ascii_lower_bar: "ascii_lower c = CHR ''|'' \<longleftrightarrow> c = CHR ''|''"
proof (cases "65 \<le> (of_char c :: nat) \<and> (of_char c :: nat) \<le> 90")
  case True
  then have "(of_char (ascii_lower c) :: nat) \<le> 122" and "(of_char c :: nat) \<le> 90"
    by (simp_all add: ascii_lower_def Let_def)
  then have "ascii_lower c \<noteq> CHR ''|''" and "c \<noteq> CHR ''|''" by auto
  then show ?thesis by simp
next
  case False
  then show ?thesis by (auto simp: ascii_lower_def Let_def)
qed

lemma to_lower_bar [simp]: "CHR ''|'' \<in> set (to_lower s) \<longleftrightarrow> CHR ''|'' \<in> set s"
proof -
  have "CHR ''|'' \<in> ascii_lower ` set s \<longleftrightarrow> (\<exists>c \<in> set s. ascii_lower c = CHR ''|'')"
    by (metis imageE imageI)
  then show ?thesis by (simp add: to_lower_def ascii_lower_bar)
qed

lemma sign_route_split:
  fixes expires :: time
  assumes "CHR ''|'' \<notin> set srv" and "CHR ''|'' \<notin> set player"
  defines "body \<equiv> join ''|'' [''v1'', srv, to_lower player, itoa (unix_sec expires)]"
  shows "split (CHR ''|'') (str (sign_route hmac key srv player expires)) =
     [''v1'', srv, to_lower player, itoa (unix_sec expires), cookie_mac hmac key body]"
proof -
  have eq: "str (sign_route hmac key srv player expires)
      = join [CHR ''|''] [''v1'', srv, to_lower player, itoa (unix_sec expires), cookie_mac hmac key body]"
    by (simp add: sign_route_def body_def Let_def)
  show ?thesis unfolding eq
    by (rule split_join) (use assms(1,2) in \<open>auto simp: mac_no_bar itoa_no_char\<close>)
qed

section \<open>Properties\<close>

text \<open>A signed route verifies, to the server it was issued for, exactly for the player it was
  issued to (in any capitalisation) and until the second it expires; every other use is refused with
  the reason. The server and the player must be free of the separator.\<close>

theorem cookie_roundtrip:
  assumes "CHR ''|'' \<notin> set srv" and "CHR ''|'' \<notin> set player"
    and "- (2 ^ 63) \<le> unix_sec expires" and "unix_sec expires < 2 ^ 63"
  shows "verify_route hmac key (sign_route hmac key srv player expires) other now =
     (if to_lower other \<noteq> to_lower player then Inl C_player
      else if unix_sec now > unix_sec expires then Inl C_expired else Inr srv)"
  using assms(3,4) unfolding verify_route_def sign_route_split [OF assms(1,2)]
  by (auto simp: parse_int_itoa)

definition toy_hmac :: hmac where
  "toy_hmac key msg = [of_nat (length msg), foldl (\<lambda>a b. 31 * a + b) 7 (key @ msg)]"

theorem cookie_roundtrip_witness:
  "verify_route toy_hmac [1, 2] (sign_route toy_hmac [1, 2] ''hub'' ''Alex'' 100000000000) ''alex'' 99000000000
     = Inr ''hub''"
proof -
  have low: "to_lower ''alex'' = to_lower ''Alex''" by code_simp
  have *: "CHR ''|'' \<notin> set ''hub''" "CHR ''|'' \<notin> set ''Alex''" "- (2 ^ 63) \<le> unix_sec 100000000000"
    "unix_sec 100000000000 < 2 ^ 63" by code_simp+
  from cookie_roundtrip [OF *, of toy_hmac "[1, 2]" "''alex''" 99000000000] show ?thesis
    by (simp add: low unix_sec_def)
qed

text \<open>C12: whatever bytes a client presents, a verified route was vouched for: the cookie ends in the
  tag that the key gives to precisely this server, this player in lower case and an expiry that has not
  passed. No separator in a name can shift one field into another.\<close>

theorem cookie_sound:
  assumes "verify_route hmac key cookie player now = Inr srv"
  shows "\<exists>e n. cookie = bytes (join ''|'' [''v1'', srv, to_lower player, e] @ ''|''
                 @ cookie_mac hmac key (join ''|'' [''v1'', srv, to_lower player, e]))
     \<and> parse_int e = Some n \<and> unix_sec now \<le> n
     \<and> CHR ''|'' \<notin> set srv \<and> CHR ''|'' \<notin> set player \<and> CHR ''|'' \<notin> set e"
proof -
  define parts where "parts = split (CHR ''|'') (str cookie)"
  have "length parts = 5" "parts ! 0 = ''v1''" "parts ! 4 = cookie_mac hmac key (join ''|'' (take 4 parts))"
    "parts ! 2 = to_lower player" "parts ! 1 = srv"
    and e: "\<exists>n. parse_int (parts ! 3) = Some n \<and> unix_sec now \<le> n"
    using assms by (auto simp: verify_route_def parts_def [symmetric] Let_def split: if_splits option.splits)
  then obtain e m where p: "parts = [''v1'', srv, to_lower player, e, m]"
    by (auto simp: length_Suc_conv eval_nat_numeral)
  have m: "m = cookie_mac hmac key (join ''|'' [''v1'', srv, to_lower player, e])"
    using \<open>parts ! 4 = _\<close> unfolding p by (simp add: eval_nat_numeral)
  have bars: "CHR ''|'' \<notin> set q" if "q \<in> set parts" for q
    using that unfolding parts_def by (rule split_parts_notin)
  have "str cookie = join [CHR ''|''] parts"
    by (simp only: parts_def join_split)
  then have "cookie = bytes (join ''|'' [''v1'', srv, to_lower player, e] @ ''|'' @ m)"
    using bytes_str [of cookie] unfolding p by simp
  moreover have "CHR ''|'' \<notin> set srv" "CHR ''|'' \<notin> set (to_lower player)" "CHR ''|'' \<notin> set e"
    by (rule bars; simp add: p)+
  ultimately show ?thesis using e unfolding p m by (auto simp: eval_nat_numeral)
qed

theorem cookie_sound_witness:
  "\<exists>e n. sign_route toy_hmac [1, 2] ''hub'' ''Alex'' 100000000000
       = bytes (join ''|'' [''v1'', ''hub'', to_lower ''alex'', e] @ ''|''
           @ cookie_mac toy_hmac [1, 2] (join ''|'' [''v1'', ''hub'', to_lower ''alex'', e]))
     \<and> parse_int e = Some n \<and> unix_sec 99000000000 \<le> n
     \<and> CHR ''|'' \<notin> set ''hub'' \<and> CHR ''|'' \<notin> set ''alex'' \<and> CHR ''|'' \<notin> set e"
  by (rule cookie_sound) code_simp

text \<open>The separator is not escaped, so a route signed for a player whose name contains it never
  verifies, for anyone.\<close>

theorem cookie_bar_malformed:
  assumes "CHR ''|'' \<in> set player"
  shows "verify_route hmac key (sign_route hmac key srv player expires) other now = Inl C_malformed"
proof -
  have "count_list (to_lower player) (CHR ''|'') \<noteq> 0"
    using assms by (simp add: count_list_0_iff)
  then have "length (split (CHR ''|'') (str (sign_route hmac key srv player expires))) > 5"
    by (simp add: length_split sign_route_def Let_def)
  then show ?thesis by (simp add: verify_route_def Let_def)
qed

theorem cookie_bar_malformed_witness:
  "verify_route toy_hmac [1, 2] (sign_route toy_hmac [1, 2] ''hub'' ''a|b'' 100000000000) ''a|b'' 99000000000
     = Inl C_malformed"
  by (rule cookie_bar_malformed) simp

end
