(* ===== verification/Limiter.thy ===== *)
theory Limiter
  imports Strs
begin

text \<open>
  \<^verbatim>\<open>internal/router/limits.go\<close>: the per-IP limiter (token bucket and cap on concurrent connections)
  and the semaphore of lobby sessions.

  The state of an IP is an object that the limiter's map and the release functions of open
  connections share, so the model has a heap: \<open>lm_heap\<close> holds the objects, a pointer is an index, and
  a release function is the pointer it captured. That a sweep cannot separate the map from an object
  still in use is then a theorem and not an assumption. Token counts are exact rationals where the
  code has float64.

  The lemmas show that the cap holds for the connections really open, and the token bucket bound: in
  no window does an IP get more connections than the burst plus the rate times the window.
\<close>

section \<open>The limiter\<close>

record ip_state =
  ip_tokens :: rat
  ip_last :: time
  ip_active :: int

record limiter =
  lm_rate :: rat
  lm_burst :: rat
  lm_max_concurrent :: int
  lm_ips :: "(string \<times> nat) list"
  lm_heap :: "ip_state list"

definition new_limiter :: "rat \<Rightarrow> int \<Rightarrow> int \<Rightarrow> limiter" where
  "new_limiter rate burst max_concurrent =
     \<lparr>lm_rate = rate, lm_burst = of_int (if burst < 1 then 1 else burst),
      lm_max_concurrent = max_concurrent, lm_ips = [], lm_heap = []\<rparr>"

definition enabled :: "limiter \<Rightarrow> bool" where
  "enabled l \<longleftrightarrow> lm_rate l > 0 \<or> lm_max_concurrent l > 0"

definition seconds :: "duration \<Rightarrow> rat" where
  "seconds d = of_int d / 1000000000"

datatype refusal = By_rate | By_concurrency

text \<open>
  The outcome of \<^verbatim>\<open>acquire\<close>: refused with a reason, or admitted with the release function, which is
  \<open>None\<close> where it does nothing and else the pointer whose count it lowers.
\<close>

datatype admission = Refused refusal | Admitted "nat option"

definition ip_entry :: "time \<Rightarrow> string \<Rightarrow> limiter \<Rightarrow> nat \<times> limiter" where
  "ip_entry now ip l =
     (case map_of (lm_ips l) ip of
        Some p \<Rightarrow> (p, l)
      | None \<Rightarrow>
          let p = length (lm_heap l)
          in (p, l\<lparr>lm_ips := AList.update ip p (lm_ips l),
                   lm_heap := lm_heap l @ [\<lparr>ip_tokens = lm_burst l, ip_last = now, ip_active = 0\<rparr>]\<rparr>))"

definition put_state :: "nat \<Rightarrow> ip_state \<Rightarrow> limiter \<Rightarrow> limiter" where
  "put_state p st l = l\<lparr>lm_heap := (lm_heap l)[p := st]\<rparr>"

definition refill :: "time \<Rightarrow> limiter \<Rightarrow> ip_state \<Rightarrow> ip_state" where
  "refill now l st =
     (if lm_rate l > 0
      then st\<lparr>ip_tokens := min (lm_burst l) (ip_tokens st + seconds (now - ip_last st) * lm_rate l),
              ip_last := now\<rparr>
      else st)"

definition acquire :: "time \<Rightarrow> string \<Rightarrow> limiter \<Rightarrow> admission \<times> limiter" where
  "acquire now ip l =
     (if \<not> enabled l then (Admitted None, l)
      else let (p, l) = ip_entry now ip l;
               st = refill now l (lm_heap l ! p)
           in if lm_rate l > 0 \<and> ip_tokens st < 1 then (Refused By_rate, put_state p st l)
              else if lm_max_concurrent l > 0 \<and> ip_active st \<ge> lm_max_concurrent l
              then (Refused By_concurrency, put_state p st l)
              else let st = (if lm_rate l > 0 then st\<lparr>ip_tokens := ip_tokens st - 1\<rparr> else st);
                       st = st\<lparr>ip_active := ip_active st + 1\<rparr>
                   in (Admitted (Some p), put_state p st l))"

text \<open>The body of a release function; \<^verbatim>\<open>sync.Once\<close> makes every later call do nothing.\<close>

definition release :: "nat \<Rightarrow> limiter \<Rightarrow> limiter" where
  "release p l = put_state p ((lm_heap l ! p)\<lparr>ip_active := ip_active (lm_heap l ! p) - 1\<rparr>) l"

definition idle :: "time \<Rightarrow> limiter \<Rightarrow> ip_state \<Rightarrow> bool" where
  "idle now l st \<longleftrightarrow> ip_active st = 0 \<and>
     (lm_rate l \<le> 0 \<or> ip_tokens st + seconds (now - ip_last st) * lm_rate l \<ge> lm_burst l)"

definition limiter_sweep :: "time \<Rightarrow> limiter \<Rightarrow> limiter" where
  "limiter_sweep now l =
     (if \<not> enabled l then l
      else l\<lparr>lm_ips := filter (\<lambda>(ip, p). \<not> idle now l (lm_heap l ! p)) (lm_ips l)\<rparr>)"

section \<open>The semaphore\<close>

text \<open>A channel used as a semaphore: capacity and tokens in it; \<open>None\<close> is the nil semaphore.\<close>

type_synonym semaphore = "(nat \<times> nat) option"

definition new_semaphore :: "int \<Rightarrow> semaphore" where
  "new_semaphore n = (if n \<le> 0 then None else Some (nat n, 0))"

definition try_acquire :: "semaphore \<Rightarrow> bool \<times> semaphore" where
  "try_acquire s =
     (case s of
        None \<Rightarrow> (True, None)
      | Some (cap, n) \<Rightarrow> if n < cap then (True, Some (cap, Suc n)) else (False, s))"

text \<open>\<^verbatim>\<open>release\<close> blocks on an empty channel: then it does not return, which is \<open>None\<close>.\<close>

definition sem_release :: "semaphore \<Rightarrow> semaphore option" where
  "sem_release s =
     (case s of None \<Rightarrow> Some None | Some (cap, n) \<Rightarrow> if n = 0 then None else Some (Some (cap, n - 1)))"

section \<open>Runs\<close>

text \<open>
  A limiter and the connections it admitted that are still open, each with its IP and release
  function; \<open>L_release i\<close> is the end of the i-th of them.
\<close>

datatype lim_op = L_acquire string | L_release nat | L_sweep

type_synonym lim_state = "(string \<times> nat) list \<times> limiter"

fun lim_step :: "time \<times> lim_op \<Rightarrow> lim_state \<Rightarrow> lim_state" where
  "lim_step (now, L_acquire ip) (conns, l) =
     (case acquire now ip l of
        (Admitted (Some p), l) \<Rightarrow> ((ip, p) # conns, l)
      | (_, l) \<Rightarrow> (conns, l))"
| "lim_step (now, L_release i) (conns, l) =
     (if i < length conns then (take i conns @ drop (Suc i) conns, release (snd (conns ! i)) l) else (conns, l))"
| "lim_step (now, L_sweep) (conns, l) = (conns, limiter_sweep now l)"

definition lim_run :: "(time \<times> lim_op) list \<Rightarrow> lim_state \<Rightarrow> lim_state" where
  "lim_run ops s = foldl (\<lambda>s op. lim_step op s) s ops"

text \<open>The connections of an IP that a run admits.\<close>

fun admitted :: "string \<Rightarrow> (time \<times> lim_op) list \<Rightarrow> lim_state \<Rightarrow> nat" where
  "admitted ip [] s = 0"
| "admitted ip ((now, op) # ops) s =
     (if op = L_acquire ip \<and> (\<exists>r. fst (acquire now ip (snd s)) = Admitted r) then 1 else 0)
     + admitted ip ops (lim_step (now, op) s)"

section \<open>The invariant\<close>

definition conns_at :: "nat \<Rightarrow> (string \<times> nat) list \<Rightarrow> nat" where
  "conns_at p conns = length (filter (\<lambda>c. snd c = p) conns)"

text \<open>
  At time \<open>now\<close>: the map has distinct IPs and distinct valid pointers, every open connection of an IP
  holds the pointer the map has for it, each object counts its open connections, within the cap, and
  its tokens are between none and the burst.
\<close>

definition state_ok :: "time \<Rightarrow> limiter \<Rightarrow> ip_state \<Rightarrow> bool" where
  "state_ok now l st \<longleftrightarrow>
     ip_last st \<le> now \<and> 0 \<le> ip_tokens st \<and> ip_tokens st \<le> lm_burst l
     \<and> (0 < lm_max_concurrent l \<longrightarrow> ip_active st \<le> lm_max_concurrent l)"

definition lim_inv :: "time \<Rightarrow> lim_state \<Rightarrow> bool" where
  "lim_inv now s \<longleftrightarrow> (case s of (conns, l) \<Rightarrow>
     distinct (map fst (lm_ips l)) \<and> distinct (map snd (lm_ips l))
     \<and> (\<forall>(ip, p) \<in> set (lm_ips l). p < length (lm_heap l) \<and> state_ok now l (lm_heap l ! p)
          \<and> ip_active (lm_heap l ! p) = int (conns_at p conns))
     \<and> (\<forall>c \<in> set conns. c \<in> set (lm_ips l))
     \<and> 1 \<le> lm_burst l)"

lemma state_ok_mono: "state_ok now l st \<Longrightarrow> now \<le> t \<Longrightarrow> state_ok t l st"
  by (simp add: state_ok_def)

lemma lim_inv_mono: "lim_inv now s \<Longrightarrow> now \<le> t \<Longrightarrow> lim_inv t s"
  by (auto simp: lim_inv_def intro: state_ok_mono)

lemma lim_inv_entry:
  assumes "lim_inv now (conns, l)" and "map_of (lm_ips l) ip = Some p"
  shows "p < length (lm_heap l)" "state_ok now l (lm_heap l ! p)"
    "ip_active (lm_heap l ! p) = int (conns_at p conns)"
  using assms by (auto simp: lim_inv_def dest: map_of_SomeD)

lemma update_new: "map_of xs k = None \<Longrightarrow> AList.update k v xs = xs @ [(k, v)]"
  by (induction xs) (auto split: if_splits)

lemma conns_at_0: "\<forall>c \<in> set conns. snd c \<noteq> p \<Longrightarrow> conns_at p conns = 0"
  by (simp add: conns_at_def filter_empty_conv)

lemma state_ok_cong:
  "lm_burst l' = lm_burst l \<Longrightarrow> lm_max_concurrent l' = lm_max_concurrent l \<Longrightarrow> state_ok now l' = state_ok now l"
  by (simp add: state_ok_def fun_eq_iff)

lemma ip_entry_inv:
  assumes inv: "lim_inv now (conns, l)" and e: "ip_entry now ip l = (p, l')"
  shows "lim_inv now (conns, l')" "map_of (lm_ips l') ip = Some p"
    "lm_rate l' = lm_rate l" "lm_burst l' = lm_burst l" "lm_max_concurrent l' = lm_max_concurrent l"
proof -
  have "lim_inv now (conns, l') \<and> map_of (lm_ips l') ip = Some p \<and> lm_rate l' = lm_rate l
      \<and> lm_burst l' = lm_burst l \<and> lm_max_concurrent l' = lm_max_concurrent l"
  proof (cases "map_of (lm_ips l) ip")
    case (Some q)
    then show ?thesis using inv e by (simp add: ip_entry_def)
  next
    case None
    define st where "st = \<lparr>ip_tokens = lm_burst l, ip_last = now, ip_active = 0\<rparr>"
    have l': "p = length (lm_heap l)" "l' = l\<lparr>lm_ips := lm_ips l @ [(ip, p)], lm_heap := lm_heap l @ [st]\<rparr>"
      using e None by (auto simp: ip_entry_def Let_def update_new st_def)
    have ok: "state_ok now l' st" "state_ok now l' = state_ok now l"
      using inv by (auto simp: state_ok_def l' st_def lim_inv_def fun_eq_iff)
    have old: "\<forall>(i, q) \<in> set (lm_ips l). q < p" and sub: "\<forall>c \<in> set conns. c \<in> set (lm_ips l)"
      using inv by (auto simp: lim_inv_def l'(1))
    then have "conns_at p conns = 0"
      by (intro conns_at_0) fastforce
    moreover have "ip \<notin> fst ` set (lm_ips l)" using None by (simp add: map_of_eq_None_iff)
    moreover have "p \<notin> snd ` set (lm_ips l)" using old by auto
    moreover have "lm_ips l' = lm_ips l @ [(ip, p)]" "lm_heap l' = lm_heap l @ [st]" "ip_active st = 0"
      "lm_burst l' = lm_burst l"
      by (simp_all add: l' st_def)
    ultimately have "lim_inv now (conns, l')"
      using inv old ok(1) l'(1) unfolding lim_inv_def
      by (auto simp: ok(2) nth_append)
    then show ?thesis using None by (simp add: l' map_add_def)
  qed
  then show "lim_inv now (conns, l')" "map_of (lm_ips l') ip = Some p"
    "lm_rate l' = lm_rate l" "lm_burst l' = lm_burst l" "lm_max_concurrent l' = lm_max_concurrent l"
    by simp_all
qed

lemma put_state_inv:
  assumes inv: "lim_inv now (conns, l)" and p: "map_of (lm_ips l) ip = Some p"
    and st: "state_ok now l st" "ip_active st = int (conns_at p conns')"
    and conns': "\<forall>c \<in> set conns'. c \<in> set (lm_ips l)" "\<forall>q. q \<noteq> p \<longrightarrow> conns_at q conns' = conns_at q conns"
  shows "lim_inv now (conns', put_state p st l)"
proof -
  have pl: "p < length (lm_heap l)" by (rule lim_inv_entry [OF inv p])
  have ok: "state_ok now (put_state p st l) = state_ok now l"
    by (rule state_ok_cong) (simp_all add: put_state_def)
  show ?thesis using inv st conns' pl unfolding lim_inv_def
    by (auto simp: ok, auto simp: put_state_def nth_list_update)
qed

lemma refill_ok: "lim_inv now (conns, l) \<Longrightarrow> map_of (lm_ips l) ip = Some p \<Longrightarrow>
    state_ok now l (refill now l (lm_heap l ! p)) \<and> ip_active (refill now l (lm_heap l ! p)) = int (conns_at p conns)"
proof -
  assume inv: "lim_inv now (conns, l)" and p: "map_of (lm_ips l) ip = Some p"
  note e = lim_inv_entry [OF inv p]
  have "0 \<le> seconds (now - ip_last (lm_heap l ! p)) * lm_rate l" if "lm_rate l > 0"
    using that e(2) by (simp add: seconds_def state_ok_def)
  then show ?thesis using e(2,3) inv
    by (auto simp: refill_def state_ok_def lim_inv_def)
qed

lemma release_conns:
  assumes "i < length conns"
  shows "conns_at q conns = conns_at q (take i conns @ drop (Suc i) conns) + (if snd (conns ! i) = q then 1 else 0)"
proof -
  have "conns = take i conns @ conns ! i # drop (Suc i) conns" by (rule id_take_nth_drop [OF assms])
  then have "conns_at q conns = conns_at q (take i conns @ conns ! i # drop (Suc i) conns)" by simp
  then show ?thesis by (simp add: conns_at_def)
qed

lemma acquire_inv:
  assumes inv: "lim_inv now (conns, l)"
  shows "lim_inv now (lim_step (now, L_acquire ip) (conns, l))"
proof (cases "enabled l")
  case False
  then show ?thesis using inv by (simp add: acquire_def)
next
  case True
  obtain p l1 where e: "ip_entry now ip l = (p, l1)" by (cases "ip_entry now ip l")
  note inv1 = ip_entry_inv [OF inv e]
  define st where "st = refill now l1 (lm_heap l1 ! p)"
  have st: "state_ok now l1 st" "ip_active st = int (conns_at p conns)"
    using refill_ok [OF inv1(1,2)] by (simp_all add: st_def)
  have sub: "\<forall>c \<in> set conns. c \<in> set (lm_ips l1)" using inv1(1) by (auto simp: lim_inv_def)
  define st' where "st' = (if lm_rate l1 > 0 then st\<lparr>ip_tokens := ip_tokens st - 1\<rparr> else st)\<lparr>ip_active := ip_active st + 1\<rparr>"
  have refused: "lim_inv now (conns, put_state p st l1)"
    by (rule put_state_inv [OF inv1(1,2) st]) (use sub in auto)
  have "lim_inv now ((ip, p) # conns, put_state p st' l1)"
    if "\<not> (lm_rate l1 > 0 \<and> ip_tokens st < 1)"
      "\<not> (lm_max_concurrent l1 > 0 \<and> ip_active st \<ge> lm_max_concurrent l1)"
    by (rule put_state_inv [OF inv1(1,2)])
      (use that st sub map_of_SomeD [OF inv1(2)] in \<open>auto simp: st'_def state_ok_def conns_at_def\<close>)
  with refused show ?thesis using True
    by (auto simp: acquire_def e st_def [symmetric] st'_def Let_def split: if_splits)
qed

lemma release_inv:
  assumes inv: "lim_inv now (conns, l)" and i: "i < length conns"
  shows "lim_inv now (take i conns @ drop (Suc i) conns, release (snd (conns ! i)) l)"
proof -
  obtain ip p where c: "conns ! i = (ip, p)" by (cases "conns ! i")
  then have "(ip, p) \<in> set (lm_ips l)" using inv i nth_mem [OF i] by (auto simp: lim_inv_def)
  then have p: "map_of (lm_ips l) ip = Some p" using inv by (simp add: lim_inv_def)
  note e = lim_inv_entry [OF inv p]
  have sub: "set (take i conns @ drop (Suc i) conns) \<subseteq> set conns"
    by (auto dest: in_set_takeD in_set_dropD)
  show ?thesis unfolding release_def c snd_conv
    by (rule put_state_inv [OF inv p])
      (use e sub inv release_conns [OF i] in \<open>auto simp: c state_ok_def lim_inv_def\<close>)
qed

lemma sweep_keeps:
  assumes inv: "lim_inv now (conns, l)" and c: "(ip, p) \<in> set conns"
  shows "(ip, p) \<in> set (lm_ips (limiter_sweep now l))"
proof -
  have i: "(ip, p) \<in> set (lm_ips l)" using inv c by (auto simp: lim_inv_def)
  have "conns_at p conns \<noteq> 0" using c by (force simp: conns_at_def filter_empty_conv)
  then have "\<not> idle now l (lm_heap l ! p)" using inv i by (auto simp: lim_inv_def idle_def)
  then show ?thesis using i by (simp add: limiter_sweep_def)
qed

lemma sweep_inv:
  assumes inv: "lim_inv now (conns, l)"
  shows "lim_inv now (conns, limiter_sweep now l)"
proof -
  have ok: "state_ok now (limiter_sweep now l) = state_ok now l"
    by (rule state_ok_cong) (simp_all add: limiter_sweep_def)
  have "\<forall>c \<in> set conns. c \<in> set (lm_ips (limiter_sweep now l))"
    using sweep_keeps [OF inv] by auto
  moreover have "distinct (map snd (lm_ips (limiter_sweep now l)))"
    using inv by (simp add: limiter_sweep_def lim_inv_def distinct_map_filter)
  ultimately show ?thesis using inv unfolding lim_inv_def
    by (auto simp: ok) (auto simp: limiter_sweep_def split: if_splits)
qed

lemma lim_step_inv: "lim_inv now s \<Longrightarrow> lim_inv now (lim_step (now, op) s)"
  by (cases s; cases op) (simp_all add: acquire_inv release_inv sweep_inv del: lim_step.simps(1))

section \<open>The token bucket\<close>

text \<open>The tokens an IP could use at a time: a full bucket if it is not known.\<close>

definition avail :: "time \<Rightarrow> string \<Rightarrow> limiter \<Rightarrow> rat" where
  "avail t ip l =
     (case map_of (lm_ips l) ip of None \<Rightarrow> lm_burst l | Some p \<Rightarrow> ip_tokens (refill t l (lm_heap l ! p)))"

lemma seconds_nonneg: "0 \<le> d \<Longrightarrow> 0 \<le> seconds d"
  by (simp add: seconds_def)

lemma seconds_add: "seconds (a + b) = seconds a + seconds b"
  by (simp add: seconds_def add_divide_distrib)

lemma avail_range:
  assumes "lim_inv now (conns, l)"
  shows "0 \<le> avail now ip l" "avail now ip l \<le> lm_burst l"
proof -
  have b: "1 \<le> lm_burst l" using assms by (simp add: lim_inv_def)
  show "0 \<le> avail now ip l" "avail now ip l \<le> lm_burst l"
    using refill_ok [OF assms, of ip] b by (auto simp: avail_def state_ok_def split: option.splits)
qed

lemma avail_grow:
  assumes inv: "lim_inv now (conns, l)" and t: "now \<le> t" and rate: "0 < lm_rate l"
  shows "avail t ip l \<le> avail now ip l + lm_rate l * seconds (t - now)"
proof (cases "map_of (lm_ips l) ip")
  case None
  then show ?thesis using rate t by (simp add: avail_def seconds_nonneg)
next
  case (Some p)
  define st where "st = lm_heap l ! p"
  have "seconds (t - ip_last st) = seconds (now - ip_last st) + seconds (t - now)"
    by (simp flip: seconds_add)
  then have "seconds (t - ip_last st) * lm_rate l = seconds (now - ip_last st) * lm_rate l + lm_rate l * seconds (t - now)"
    by (simp add: algebra_simps)
  moreover have "0 \<le> lm_rate l * seconds (t - now)" using rate t by (simp add: seconds_nonneg)
  ultimately show ?thesis using rate
    by (simp add: avail_def Some refill_def st_def [symmetric])
qed

lemma avail_ip_entry:
  assumes inv: "lim_inv now (conns, l)" and e: "ip_entry now ip l = (p, l')" and rate: "0 < lm_rate l"
  shows "avail now ip' l' = avail now ip' l"
proof (cases "map_of (lm_ips l) ip")
  case (Some q)
  then show ?thesis using e by (simp add: ip_entry_def)
next
  case None
  have "lm_ips l' = lm_ips l @ [(ip, length (lm_heap l))]"
    "lm_heap l' = lm_heap l @ [\<lparr>ip_tokens = lm_burst l, ip_last = now, ip_active = 0\<rparr>]"
    "lm_burst l' = lm_burst l" "lm_rate l' = lm_rate l"
    using e None by (auto simp: ip_entry_def Let_def update_new)
  then show ?thesis using None rate lim_inv_entry(1) [OF inv, of ip']
    by (auto simp: avail_def map_add_def refill_def nth_append seconds_def split: option.splits)
qed

lemma avail_put_state:
  assumes inv: "lim_inv now (conns, l)" and p: "map_of (lm_ips l) ip = Some p"
    and st: "ip_last st = now" "ip_tokens st \<le> lm_burst l" and rate: "0 < lm_rate l"
  shows "avail now ip' (put_state p st l) = (if ip' = ip then ip_tokens st else avail now ip' l)"
proof (cases "map_of (lm_ips l) ip'")
  case None
  then show ?thesis using p by (auto simp: avail_def put_state_def)
next
  case (Some q)
  have "q = p \<longleftrightarrow> ip' = ip"
  proof
    assume "q = p"
    then have "(ip', p) \<in> set (lm_ips l)" "(ip, p) \<in> set (lm_ips l)" using Some p by (auto dest: map_of_SomeD)
    moreover have "inj_on snd (set (lm_ips l))" using inv by (simp add: lim_inv_def distinct_map)
    ultimately show "ip' = ip" using inj_onD [of snd _ "(ip', p)" "(ip, p)"] by simp
  qed (use Some p in simp)
  then show ?thesis using st rate lim_inv_entry(1) [OF inv p] Some
    by (auto simp: avail_def put_state_def refill_def seconds_def)
qed

lemma avail_acquire:
  assumes inv: "lim_inv now (conns, l)" and rate: "0 < lm_rate l"
  shows "avail now ip' (snd (acquire now ip l))
     + (if ip' = ip \<and> (\<exists>r. fst (acquire now ip l) = Admitted r) then 1 else 0) = avail now ip' l"
proof -
  obtain p l1 where e: "ip_entry now ip l = (p, l1)" by (cases "ip_entry now ip l")
  note inv1 = ip_entry_inv [OF inv e]
  define st where "st = refill now l1 (lm_heap l1 ! p)"
  have st: "ip_last st = now" "ip_tokens st \<le> lm_burst l1" "avail now ip l1 = ip_tokens st"
    using refill_ok [OF inv1(1,2)] rate inv1(2,3)
    by (auto simp: st_def refill_def state_ok_def avail_def)
  note put = avail_put_state [OF inv1(1,2)]
  have r1: "0 < lm_rate l1" using rate inv1(3) by simp
  have en: "enabled l" using rate by (simp add: enabled_def)
  have kept: "avail now ip' (put_state p st l1) = avail now ip' l"
    using put [OF st(1,2) r1, of ip'] st(3) avail_ip_entry [OF inv e rate, of ip'] by (auto split: if_splits)
  have spent: "avail now ip' (put_state p (st\<lparr>ip_tokens := ip_tokens st - 1, ip_active := ip_active st + 1\<rparr>) l1)
      = avail now ip' l - (if ip' = ip then 1 else 0)"
    using put [of "st\<lparr>ip_tokens := ip_tokens st - 1, ip_active := ip_active st + 1\<rparr>" ip', OF _ _ r1]
      st avail_ip_entry [OF inv e rate, of ip'] by (auto split: if_splits)
  show ?thesis using en kept spent r1
    by (auto simp: acquire_def e st_def [symmetric] Let_def split: if_splits)
qed

lemma avail_release:
  "avail now ip (release p l) = avail now ip l"
proof (cases "p < length (lm_heap l)")
  case True
  then show ?thesis
    by (auto simp: avail_def release_def put_state_def refill_def nth_list_update split: option.splits)
next
  case False
  then show ?thesis
    by (auto simp: avail_def release_def put_state_def refill_def list_update_beyond split: option.splits)
qed

lemma avail_sweep:
  assumes inv: "lim_inv now (conns, l)" and rate: "0 < lm_rate l"
  shows "avail now ip (limiter_sweep now l) = avail now ip l"
proof -
  have en: "enabled l" using rate by (simp add: enabled_def)
  have "map_of (lm_ips (limiter_sweep now l)) ip =
      (case map_of (lm_ips l) ip of None \<Rightarrow> None | Some p \<Rightarrow> if idle now l (lm_heap l ! p) then None else Some p)"
    using inv en by (simp add: limiter_sweep_def lim_inv_def map_of_filter_val if_not_P split: option.splits)
  moreover have "lm_heap (limiter_sweep now l) = lm_heap l" "refill now (limiter_sweep now l) = refill now l"
    "lm_burst (limiter_sweep now l) = lm_burst l"
    by (simp_all add: limiter_sweep_def refill_def fun_eq_iff)
  moreover have "ip_tokens (refill now l st) = lm_burst l" if "idle now l st" for st
    using that rate by (simp add: idle_def refill_def)
  ultimately show ?thesis by (simp add: avail_def split: option.splits)
qed

lemma lim_step_sel [simp]:
  "lm_rate (snd (lim_step op s)) = lm_rate (snd s)" "lm_burst (snd (lim_step op s)) = lm_burst (snd s)"
  "lm_max_concurrent (snd (lim_step op s)) = lm_max_concurrent (snd s)"
proof -
  have e: "lm_rate l' = lm_rate l \<and> lm_burst l' = lm_burst l \<and> lm_max_concurrent l' = lm_max_concurrent l"
    if "ip_entry now ip l = (p, l')" for now ip l p l'
    using that by (auto simp: ip_entry_def Let_def split: option.splits)
  have "lm_rate (snd (lim_step op s)) = lm_rate (snd s) \<and> lm_burst (snd (lim_step op s)) = lm_burst (snd s)
      \<and> lm_max_concurrent (snd (lim_step op s)) = lm_max_concurrent (snd s)"
    by (cases s; cases op rule: prod.exhaust; rename_tac conns l now o'; case_tac o')
      (auto simp: acquire_def put_state_def release_def limiter_sweep_def Let_def dest: e
        split: prod.splits if_splits)
  then show "lm_rate (snd (lim_step op s)) = lm_rate (snd s)" "lm_burst (snd (lim_step op s)) = lm_burst (snd s)"
    "lm_max_concurrent (snd (lim_step op s)) = lm_max_concurrent (snd s)" by simp_all
qed

lemma avail_step:
  assumes inv: "lim_inv now s" and rate: "0 < lm_rate (snd s)"
  shows "avail now ip (snd (lim_step (now, op) s))
     + (if op = L_acquire ip \<and> (\<exists>r. fst (acquire now ip (snd s)) = Admitted r) then 1 else 0)
     = avail now ip (snd s)"
proof (cases s)
  case (Pair conns l)
  show ?thesis
  proof (cases op)
    case (L_acquire ip')
    have "snd (lim_step (now, op) s) = snd (acquire now ip' l)"
      by (auto simp: Pair L_acquire split: prod.splits admission.splits option.splits)
    then show ?thesis using avail_acquire [of now conns l ip ip'] inv rate
      by (cases "ip' = ip") (auto simp: Pair L_acquire)
  qed (use inv rate in \<open>auto simp: Pair avail_release avail_sweep\<close>)
qed

lemma admitted_bound:
  assumes "lim_inv now s" and "0 < lm_rate (snd s)" and "sorted (now # map fst ops)" and "\<forall>t \<in> fst ` set ops. t \<le> b"
    and "now \<le> b"
  shows "rat_of_nat (admitted ip ops s) \<le> avail now ip (snd s) + lm_rate (snd s) * seconds (b - now)"
  using assms
proof (induction ip ops s arbitrary: now rule: admitted.induct)
  case (1 ip s)
  obtain conns l where s: "s = (conns, l)" by (cases s)
  from 1 show ?case using avail_range(1) [of now conns l ip] by (simp add: s seconds_nonneg)
next
  case (2 ip t op ops s)
  obtain conns l where s: "s = (conns, l)" by (cases s)
  have t: "now \<le> t" "t \<le> b" using "2.prems" by auto
  have inv: "lim_inv t s" by (rule lim_inv_mono [OF "2.prems"(1) t(1)])
  have IH: "rat_of_nat (admitted ip ops (lim_step (t, op) s))
      \<le> avail t ip (snd (lim_step (t, op) s)) + lm_rate (snd s) * seconds (b - t)"
    using "2.IH" [OF lim_step_inv [OF inv]] "2.prems" t by simp
  have "avail t ip (snd s) \<le> avail now ip (snd s) + lm_rate (snd s) * seconds (t - now)"
    using avail_grow [of now conns l t ip] "2.prems"(1,2) t by (simp add: s)
  moreover have "seconds (b - now) = seconds (t - now) + seconds (b - t)"
    by (simp flip: seconds_add)
  then have "lm_rate (snd s) * seconds (b - now) = lm_rate (snd s) * seconds (t - now) + lm_rate (snd s) * seconds (b - t)"
    by (simp add: algebra_simps)
  ultimately show ?case
    using IH avail_step [OF inv "2.prems"(2), of ip op] by (auto split: if_splits)
qed

section \<open>Properties\<close>

lemma lim_run_inv:
  "lim_inv now s \<Longrightarrow> sorted (now # map fst ops) \<Longrightarrow>
   lim_inv (last (now # map fst ops)) (lim_run ops s)"
proof (induction ops arbitrary: now s)
  case Nil
  then show ?case by (simp add: lim_run_def)
next
  case (Cons op ops)
  obtain t o' where op: "op = (t, o')" by (cases op)
  have "lim_inv t (lim_step (t, o') s)"
    using Cons.prems by (intro lim_step_inv) (auto simp: op intro: lim_inv_mono)
  from Cons.IH [OF this] Cons.prems show ?case by (simp add: op lim_run_def)
qed

lemma lim_run_sel [simp]:
  "lm_rate (snd (lim_run ops s)) = lm_rate (snd s)" "lm_burst (snd (lim_run ops s)) = lm_burst (snd s)"
  "lm_max_concurrent (snd (lim_run ops s)) = lm_max_concurrent (snd s)"
  by (induction ops arbitrary: s) (simp_all add: lim_run_def)

lemma new_limiter_inv: "lim_inv now ([], new_limiter rate burst cap)"
  by (simp add: lim_inv_def new_limiter_def)

lemma reachable_lim_inv:
  assumes "sorted (map fst ops)" and "\<forall>t \<in> fst ` set ops. t \<le> now"
  shows "lim_inv now (lim_run ops ([], new_limiter rate burst cap))"
proof (cases ops)
  case Nil
  then show ?thesis by (simp add: lim_run_def new_limiter_inv)
next
  case (Cons op rest)
  have "lim_inv (last (fst op # map fst ops)) (lim_run ops ([], new_limiter rate burst cap))"
    by (rule lim_run_inv [OF new_limiter_inv]) (use assms Cons in auto)
  moreover have "last (fst op # map fst ops) \<le> now"
    using assms(2) Cons last_in_set [of "map fst ops"] by auto
  ultimately show ?thesis by (rule lim_inv_mono)
qed



lemma conns_cap:
  assumes inv: "lim_inv now (conns, l)" and cap: "lm_max_concurrent l = cap" "0 < cap"
  shows "int (length (filter (\<lambda>c. fst c = ip) conns)) \<le> cap"
proof -
  have known: "\<forall>c \<in> set conns. c \<in> set (lm_ips l)" using inv by (simp add: lim_inv_def)
  show ?thesis
  proof (cases "map_of (lm_ips l) ip")
    case None
    then have "filter (\<lambda>c. fst c = ip) conns = []"
      using known by (auto simp: map_of_eq_None_iff filter_empty_conv)
    then show ?thesis using cap(2) by simp
  next
    case (Some p)
    have "distinct (map fst (lm_ips l))" using inv by (simp add: lim_inv_def)
    then have "\<forall>c \<in> set conns. fst c = ip \<longrightarrow> snd c = p"
      using known Some map_of_is_SomeI by fastforce
    then have "length (filter (\<lambda>c. fst c = ip) conns) \<le> length (filter (\<lambda>c. snd c = p) conns)"
      by (induction conns) auto
    then show ?thesis
      using lim_inv_entry(2,3) [OF inv Some] cap by (simp add: state_ok_def conns_at_def)
  qed
qed

text \<open>The cap on concurrent connections holds for the connections that are really open: the
  limiter never has more than \<open>maxConcurrent\<close> of them for one IP, since sweeping never forgets an
  IP that still has one.\<close>

theorem connection_cap:
  assumes "0 < cap" and "sorted (map fst ops)"
  shows "int (length (filter (\<lambda>c. fst c = ip) (fst (lim_run ops ([], new_limiter rate burst cap))))) \<le> cap"
proof -
  obtain conns l where s: "lim_run ops ([], new_limiter rate burst cap) = (conns, l)" by fastforce
  have inv: "lim_inv (Max (insert 0 (fst ` set ops))) (conns, l)"
    unfolding s [symmetric] by (rule reachable_lim_inv [OF assms(2)]) simp
  have "lm_max_concurrent (snd (lim_run ops ([], new_limiter rate burst cap))) = cap" by (simp add: new_limiter_def)
  then show ?thesis using conns_cap [OF inv _ assms(1)] by (simp add: s)
qed

theorem connection_cap_witness:
  "int (length (filter (\<lambda>c. fst c = ''9.9.9.9'')
     (fst (lim_run [(1, L_acquire ''9.9.9.9''), (2, L_acquire ''9.9.9.9''), (3, L_sweep), (4, L_acquire ''9.9.9.9'')]
        ([], new_limiter 0 1 2))))) \<le> 2"
  by (rule connection_cap) auto

end
