(* ===== verification/Sideport.thy ===== *)
theory Sideport
  imports Registry
begin

text \<open>
  \<^verbatim>\<open>internal/sideport/sideport.go\<close>: the manager that assigns public ports to the side ports of
  registered servers. A binding is an object that two maps share, so the model keeps the objects in
  a heap (\<open>mg_heap\<close>) and the maps hold indices. Every method holds the mutex and is one step.

  The operating system's answer to \<^verbatim>\<open>net.Listen\<close> is the parameter \<open>os\<close>, a predicate on a protocol and
  a port; what is served on an open listener is not modelled here. A write to a nil map panics in Go:
  an operation that would do so has the value \<open>None\<close>.

  The lemmas show the invariant that ties the two maps together (so no two side ports share a public
  port), that exactly the active bindings listen, that a port under grace goes to nobody else, that
  repeating a registration keeps its ports, and that a port is refused only if none is free.
\<close>

section \<open>State\<close>

record side_key =
  sk_server :: string
  sk_name :: string
  sk_protocol :: string

record binding =
  bd_key :: side_key
  bd_owner :: string
  bd_public :: int
  bd_backend :: int
  bd_held :: "time option"
  bd_closer :: bool

record manager =
  mg_public_host :: string
  mg_min_port :: int
  mg_max_port :: int
  mg_grace :: duration
  mg_heap :: "binding list"
  mg_by_key :: "(side_key \<times> nat) list"
  mg_by_port :: "((string \<times> int) \<times> nat) list"
  mg_broken :: "((string \<times> int) \<times> time) list"

definition new_manager :: "string \<Rightarrow> int \<Rightarrow> int \<Rightarrow> duration \<Rightarrow> manager" where
  "new_manager host lo hi grace =
     \<lparr>mg_public_host = host, mg_min_port = lo, mg_max_port = hi,
      mg_grace = (if grace \<le> 0 then 120000000000 else grace),
      mg_heap = [], mg_by_key = [], mg_by_port = [], mg_broken = []\<rparr>"

definition ErrDisabled :: string where
  "ErrDisabled = ''side ports are disabled on this gateway''"

definition ErrNoPort :: string where
  "ErrNoPort = ''no free public port''"

definition mg_enabled :: "manager \<Rightarrow> bool" where
  "mg_enabled m \<longleftrightarrow> mg_max_port m > 0"

definition mg_assigned :: "manager \<Rightarrow> nat" where
  "mg_assigned m = length (filter (\<lambda>(k, i). bd_held (mg_heap m ! i) = None) (mg_by_key m))"

section \<open>Bindings\<close>

definition port_of :: "binding \<Rightarrow> string \<times> int" where
  "port_of b = (sk_protocol (bd_key b), bd_public b)"

definition set_binding :: "nat \<Rightarrow> binding \<Rightarrow> manager \<Rightarrow> manager" where
  "set_binding i b m = m\<lparr>mg_heap := (mg_heap m)[i := b]\<rparr>"

definition known_protocol :: "string \<Rightarrow> bool" where
  "known_protocol p \<longleftrightarrow> p = ''tcp'' \<or> p = ''udp''"

text \<open>Whether \<^verbatim>\<open>open\<close> succeeds: an unknown protocol is an error of its own.\<close>

definition open_ok :: "(string \<Rightarrow> int \<Rightarrow> bool) \<Rightarrow> binding \<Rightarrow> bool" where
  "open_ok os b \<longleftrightarrow> known_protocol (sk_protocol (bd_key b)) \<and> os (sk_protocol (bd_key b)) (bd_public b)"

definition mg_release :: "time \<Rightarrow> nat \<Rightarrow> manager \<Rightarrow> manager" where
  "mg_release now i m =
     (let b = mg_heap m ! i in
      if bd_held b \<noteq> None then m
      else set_binding i (b\<lparr>bd_closer := False, bd_held := Some (now + mg_grace m)\<rparr>) m)"

definition mg_drop :: "nat \<Rightarrow> manager \<Rightarrow> manager" where
  "mg_drop i m =
     (let b = mg_heap m ! i;
          m = set_binding i (b\<lparr>bd_closer := False\<rparr>) m;
          m = m\<lparr>mg_by_key := AList.delete (bd_key b) (mg_by_key m)\<rparr>
      in if map_of (mg_by_port m) (port_of b) = Some i
         then m\<lparr>mg_by_port := AList.delete (port_of b) (mg_by_port m)\<rparr> else m)"

text \<open>The closure \<^verbatim>\<open>try\<close> of \<^verbatim>\<open>assign\<close>.\<close>

definition try_port ::
  "(string \<Rightarrow> int \<Rightarrow> bool) \<Rightarrow> time \<Rightarrow> side_key \<Rightarrow> string \<Rightarrow> int \<Rightarrow> manager \<Rightarrow> (nat option \<times> manager) option" where
  "try_port os now k owner port m =
     (let pp = (sk_protocol k, port) in
      if port < mg_min_port m \<or> port > mg_max_port m \<or> map_of (mg_by_port m) pp \<noteq> None then Some (None, m)
      else if (case map_of (mg_broken m) pp of None \<Rightarrow> False | Some until' \<Rightarrow> now < until') then Some (None, m)
      else let b = \<lparr>bd_key = k, bd_owner = owner, bd_public = port, bd_backend = 0, bd_held = None, bd_closer = False\<rparr>
           in if \<not> open_ok os b
              then (if known_protocol (sk_protocol k)
                    then Some (None, m\<lparr>mg_broken := AList.update pp (now + 60000000000) (mg_broken m)\<rparr>)
                    else None)
              else let i = length (mg_heap m)
                   in Some (Some i, m\<lparr>mg_heap := mg_heap m @ [b\<lparr>bd_closer := True\<rparr>],
                                      mg_by_key := AList.update k i (mg_by_key m),
                                      mg_by_port := AList.update pp i (mg_by_port m)\<rparr>))"

fun try_ports ::
  "(string \<Rightarrow> int \<Rightarrow> bool) \<Rightarrow> time \<Rightarrow> side_key \<Rightarrow> string \<Rightarrow> int list \<Rightarrow> manager \<Rightarrow> (nat option \<times> manager) option" where
  "try_ports os now k owner [] m = Some (None, m)"
| "try_ports os now k owner (port # ports) m =
     (case try_port os now k owner port m of
        None \<Rightarrow> None
      | Some (Some i, m) \<Rightarrow> Some (Some i, m)
      | Some (None, m) \<Rightarrow> try_ports os now k owner ports m)"

text \<open>The first part of \<^verbatim>\<open>assign\<close>: the binding the key already has, if it can be used.\<close>

definition reuse :: "(string \<Rightarrow> int \<Rightarrow> bool) \<Rightarrow> side_key \<Rightarrow> string \<Rightarrow> manager \<Rightarrow> nat option \<times> manager" where
  "reuse os k owner m =
     (case map_of (mg_by_key m) k of
        None \<Rightarrow> (None, m)
      | Some i \<Rightarrow>
          let b = mg_heap m ! i in
          if bd_owner b \<noteq> owner then (None, mg_drop i m)
          else if bd_held b = None then (Some i, m)
          else if open_ok os b then (Some i, set_binding i (b\<lparr>bd_closer := True, bd_held := None\<rparr>) m)
          else (None, mg_drop i m))"

definition assign ::
  "(string \<Rightarrow> int \<Rightarrow> bool) \<Rightarrow> time \<Rightarrow> side_key \<Rightarrow> string \<Rightarrow> int \<Rightarrow> manager \<Rightarrow> (nat option \<times> manager) option" where
  "assign os now k owner preferred m =
     (case reuse os k owner m of
        (Some i, m) \<Rightarrow> Some (Some i, m)
      | (None, m) \<Rightarrow> try_ports os now k owner (preferred # [mg_min_port m .. mg_max_port m]) m)"

section \<open>The manager\<close>

definition side_key_of :: "server \<Rightarrow> side_port \<Rightarrow> side_key" where
  "side_key_of srv p = \<lparr>sk_server = sv_id srv, sk_name = sp_name p, sk_protocol = sp_protocol p\<rparr>"

fun sync_ports ::
  "(string \<Rightarrow> int \<Rightarrow> bool) \<Rightarrow> time \<Rightarrow> server \<Rightarrow> side_port list \<Rightarrow> manager \<Rightarrow> (side_port list \<times> manager) option" where
  "sync_ports os now srv [] m = Some ([], m)"
| "sync_ports os now srv (p # ps) m =
     (if \<not> mg_enabled m
      then (case sync_ports os now srv ps m of
              None \<Rightarrow> None | Some (qs, m) \<Rightarrow> Some (p\<lparr>sp_error := ErrDisabled\<rparr> # qs, m))
      else case assign os now (side_key_of srv p) (sv_owner srv) (sp_preferred p) m of
             None \<Rightarrow> None
           | Some (None, m) \<Rightarrow>
               (case sync_ports os now srv ps m of
                  None \<Rightarrow> None | Some (qs, m) \<Rightarrow> Some (p\<lparr>sp_error := ErrNoPort\<rparr> # qs, m))
           | Some (Some i, m) \<Rightarrow>
               let b = mg_heap m ! i;
                   m = set_binding i (b\<lparr>bd_backend := sp_port p\<rparr>) m;
                   q = p\<lparr>sp_public := Some \<lparr>pa_host = mg_public_host m, pa_port = bd_public b\<rparr>\<rparr>
               in (case sync_ports os now srv ps m of
                     None \<Rightarrow> None | Some (qs, m) \<Rightarrow> Some (q # qs, m)))"

text \<open>The loop over \<^verbatim>\<open>byKey\<close> that releases the bindings a predicate on the key selects.\<close>

definition release_where :: "time \<Rightarrow> (side_key \<Rightarrow> bool) \<Rightarrow> manager \<Rightarrow> manager" where
  "release_where now P m = foldl (\<lambda>m (k, i). if P k then mg_release now i m else m) m (mg_by_key m)"

definition mg_sync ::
  "(string \<Rightarrow> int \<Rightarrow> bool) \<Rightarrow> time \<Rightarrow> server \<Rightarrow> manager \<Rightarrow> (side_port list \<times> manager) option" where
  "mg_sync os now srv m =
     (case sync_ports os now srv (sv_side_ports srv) m of
        None \<Rightarrow> None
      | Some (out, m) \<Rightarrow>
          Some (out, release_where now
            (\<lambda>k. sk_server k = sv_id srv \<and> k \<notin> set (map (side_key_of srv) (sv_side_ports srv))) m))"

definition mg_release_server :: "time \<Rightarrow> string \<Rightarrow> manager \<Rightarrow> manager" where
  "mg_release_server now server_id m = release_where now (\<lambda>k. sk_server k = server_id) m"

text \<open>\<open>look\<close> is \<^verbatim>\<open>Registry.Get\<close>; the manager may have no registry.\<close>

definition still_registered :: "(string \<Rightarrow> server option) \<Rightarrow> binding \<Rightarrow> bool" where
  "still_registered look b =
     (case look (sk_server (bd_key b)) of
        None \<Rightarrow> False
      | Some s \<Rightarrow> sv_owner s = bd_owner b
          \<and> (\<exists>p \<in> set (sv_side_ports s). sp_name p = sk_name (bd_key b) \<and> sp_protocol p = sk_protocol (bd_key b)))"

definition sweep_binding :: "time \<Rightarrow> (string \<Rightarrow> server option) option \<Rightarrow> nat \<Rightarrow> manager \<Rightarrow> manager" where
  "sweep_binding now reg i m =
     (case bd_held (mg_heap m ! i) of
        Some until' \<Rightarrow> if now > until' then mg_drop i m else m
      | None \<Rightarrow>
          (case reg of
             None \<Rightarrow> m
           | Some look \<Rightarrow> if \<not> still_registered look (mg_heap m ! i) then mg_release now i m else m))"

definition mg_sweep :: "time \<Rightarrow> (string \<Rightarrow> server option) option \<Rightarrow> manager \<Rightarrow> manager" where
  "mg_sweep now reg m =
     (let m = foldl (\<lambda>m (k, i). sweep_binding now reg i m) m (mg_by_key m)
      in m\<lparr>mg_broken := filter (\<lambda>(pp, until'). \<not> now > until') (mg_broken m)\<rparr>)"

text \<open>The end of \<^verbatim>\<open>Run\<close>: every binding is dropped.\<close>

definition mg_close :: "manager \<Rightarrow> manager" where
  "mg_close m = foldl (\<lambda>m (k, i). mg_drop i m) m (mg_by_key m)"

text \<open>The backend address \<^verbatim>\<open>dial\<close> connects to, before the address policy.\<close>

definition dial_server :: "(string \<Rightarrow> server option) option \<Rightarrow> binding \<Rightarrow> server option" where
  "dial_server reg b =
     (case reg of
        None \<Rightarrow> None
      | Some look \<Rightarrow>
          (case look (sk_server (bd_key b)) of
             None \<Rightarrow> None | Some s \<Rightarrow> if sv_owner s \<noteq> bd_owner b then None else Some s))"

section \<open>The invariant\<close>

text \<open>
  The two maps are inverse to each other on the live bindings, whose public ports are in the pool, and
  a binding has an open listener exactly if it is not held for a previous owner.
\<close>

definition bind_ok :: "manager \<Rightarrow> binding \<Rightarrow> bool" where
  "bind_ok m b \<longleftrightarrow> mg_min_port m \<le> bd_public b \<and> bd_public b \<le> mg_max_port m
     \<and> known_protocol (sk_protocol (bd_key b)) \<and> (bd_closer b \<longleftrightarrow> bd_held b = None)"

definition mg_inv :: "manager \<Rightarrow> bool" where
  "mg_inv m \<longleftrightarrow>
     distinct (map fst (mg_by_key m)) \<and> distinct (map fst (mg_by_port m))
     \<and> (\<forall>k i. map_of (mg_by_key m) k = Some i \<longrightarrow>
          i < length (mg_heap m) \<and> bind_ok m (mg_heap m ! i) \<and> bd_key (mg_heap m ! i) = k
          \<and> map_of (mg_by_port m) (port_of (mg_heap m ! i)) = Some i)
     \<and> (\<forall>pp i. map_of (mg_by_port m) pp = Some i \<longrightarrow>
          i < length (mg_heap m) \<and> port_of (mg_heap m ! i) = pp
          \<and> map_of (mg_by_key m) (bd_key (mg_heap m ! i)) = Some i)"

lemma mg_inv_key:
  assumes "mg_inv m" and "map_of (mg_by_key m) k = Some i"
  shows "i < length (mg_heap m)" "bind_ok m (mg_heap m ! i)" "bd_key (mg_heap m ! i) = k"
    "map_of (mg_by_port m) (port_of (mg_heap m ! i)) = Some i"
  using assms unfolding mg_inv_def by blast+

lemma mg_inv_port:
  assumes "mg_inv m" and "map_of (mg_by_port m) pp = Some i"
  shows "i < length (mg_heap m)" "port_of (mg_heap m ! i) = pp"
    "map_of (mg_by_key m) (bd_key (mg_heap m ! i)) = Some i"
  using assms unfolding mg_inv_def by blast+

lemma mg_inv_inj:
  assumes "mg_inv m" and "map_of (mg_by_key m) k = Some i" and "map_of (mg_by_key m) k' = Some i"
  shows "k = k'"
  using mg_inv_key(3) [OF assms(1,2)] mg_inv_key(3) [OF assms(1,3)] by simp

lemma other_index:
  assumes "mg_inv m" and "map_of (mg_by_key m) k = Some i" and "map_of (mg_by_key m) k' = Some j" and "k' \<noteq> k"
  shows "i \<noteq> j"
  using assms mg_inv_inj [of m k' i k] by blast

lemma set_binding_sel [simp]:
  "mg_by_key (set_binding i b m) = mg_by_key m" "mg_by_port (set_binding i b m) = mg_by_port m"
  "mg_min_port (set_binding i b m) = mg_min_port m" "mg_max_port (set_binding i b m) = mg_max_port m"
  "mg_grace (set_binding i b m) = mg_grace m" "mg_public_host (set_binding i b m) = mg_public_host m"
  "mg_heap (set_binding i b m) = (mg_heap m)[i := b]" "mg_broken (set_binding i b m) = mg_broken m"
  by (simp_all add: set_binding_def)

lemma bind_ok_cong:
  "mg_min_port m' = mg_min_port m \<Longrightarrow> mg_max_port m' = mg_max_port m \<Longrightarrow> bind_ok m' = bind_ok m"
  by (simp add: bind_ok_def fun_eq_iff)

lemma set_binding_inv:
  assumes inv: "mg_inv m" and k: "map_of (mg_by_key m) k = Some i"
    and b: "bd_key b = k" "bd_public b = bd_public (mg_heap m ! i)" "bd_closer b \<longleftrightarrow> bd_held b = None"
  shows "mg_inv (set_binding i b m)"
proof -
  note i = mg_inv_key [OF inv k]
  have p: "port_of b = port_of (mg_heap m ! i)" using b i(3) by (simp add: port_of_def)
  have ok: "bind_ok (set_binding i b m) = bind_ok m" by (rule bind_ok_cong) simp_all
  have "bind_ok m b" using i(2,3) b by (simp add: bind_ok_def)
  then show ?thesis
    using inv i b p unfolding mg_inv_def ok by (auto simp: nth_list_update)
qed

lemma mg_release_inv: "mg_inv m \<Longrightarrow> map_of (mg_by_key m) k = Some i \<Longrightarrow> mg_inv (mg_release now i m)"
  by (auto simp: mg_release_def Let_def mg_inv_key intro: set_binding_inv)

lemma mg_drop_eq:
  assumes "mg_inv m" and "map_of (mg_by_key m) k = Some i"
  shows "mg_drop i m = (set_binding i ((mg_heap m ! i)\<lparr>bd_closer := False\<rparr>) m)
    \<lparr>mg_by_key := AList.delete k (mg_by_key m),
     mg_by_port := AList.delete (port_of (mg_heap m ! i)) (mg_by_port m)\<rparr>"
  using mg_inv_key [OF assms] by (simp add: mg_drop_def Let_def)

lemma mg_drop_inv:
  assumes inv: "mg_inv m" and k: "map_of (mg_by_key m) k = Some i"
  shows "mg_inv (mg_drop i m)"
proof -
  note i = mg_inv_key [OF inv k]
  have other: "j \<noteq> i" if "map_of (mg_by_key m) k' = Some j" "k' \<noteq> k" for k' j
    using other_index [OF inv k that] by simp
  have other_port: "j \<noteq> i" if "map_of (mg_by_port m) pp = Some j" "pp \<noteq> port_of (mg_heap m ! i)" for pp j
    using mg_inv_port(2) [OF inv that(1)] that(2) by auto
  have ok: "bind_ok (mg_drop i m) = bind_ok m"
    by (rule bind_ok_cong) (simp_all add: mg_drop_eq [OF inv k])
  show ?thesis
    unfolding mg_inv_def ok
  proof (intro conjI allI impI)
    show "distinct (map fst (mg_by_key (mg_drop i m)))" "distinct (map fst (mg_by_port (mg_drop i m)))"
      using inv by (simp_all add: mg_drop_eq [OF inv k] mg_inv_def)
  next
    fix k' j
    assume "map_of (mg_by_key (mg_drop i m)) k' = Some j"
    then have k': "k' \<noteq> k" "map_of (mg_by_key m) k' = Some j"
      by (auto simp: mg_drop_eq [OF inv k] split: if_splits)
    note j = mg_inv_key [OF inv k'(2)] and ji = other [OF k'(2,1)]
    have "port_of (mg_heap m ! j) \<noteq> port_of (mg_heap m ! i)" using j(4) i(4) ji by auto
    then show "j < length (mg_heap (mg_drop i m))" "bind_ok m (mg_heap (mg_drop i m) ! j)"
      "bd_key (mg_heap (mg_drop i m) ! j) = k'"
      "map_of (mg_by_port (mg_drop i m)) (port_of (mg_heap (mg_drop i m) ! j)) = Some j"
      using j ji by (simp_all add: mg_drop_eq [OF inv k])
  next
    fix pp j
    assume "map_of (mg_by_port (mg_drop i m)) pp = Some j"
    then have pp: "pp \<noteq> port_of (mg_heap m ! i)" "map_of (mg_by_port m) pp = Some j"
      by (auto simp: mg_drop_eq [OF inv k] split: if_splits)
    note j = mg_inv_port [OF inv pp(2)] and ji = other_port [OF pp(2,1)]
    have "bd_key (mg_heap m ! j) \<noteq> k" using j(3) k ji by auto
    then show "j < length (mg_heap (mg_drop i m))" "port_of (mg_heap (mg_drop i m) ! j) = pp"
      "map_of (mg_by_key (mg_drop i m)) (bd_key (mg_heap (mg_drop i m) ! j)) = Some j"
      using j ji by (simp_all add: mg_drop_eq [OF inv k])
  qed
qed

lemma mg_drop_lookup:
  assumes "mg_inv m" and "map_of (mg_by_key m) k = Some i"
  shows "map_of (mg_by_key (mg_drop i m)) = (map_of (mg_by_key m))(k := None)"
    "mg_min_port (mg_drop i m) = mg_min_port m" "mg_max_port (mg_drop i m) = mg_max_port m"
  by (simp_all add: mg_drop_eq [OF assms])

lemma broken_inv [simp]: "mg_inv (m\<lparr>mg_broken := br\<rparr>) = mg_inv m"
proof -
  have "bind_ok (m\<lparr>mg_broken := br\<rparr>) = bind_ok m" by (rule bind_ok_cong) simp_all
  then show ?thesis by (simp add: mg_inv_def)
qed

lemma add_binding_inv:
  assumes inv: "mg_inv m" and new: "map_of (mg_by_key m) (bd_key b) = None" "map_of (mg_by_port m) (port_of b) = None"
    and ok: "bind_ok m b"
  shows "mg_inv (m\<lparr>mg_heap := mg_heap m @ [b], mg_by_key := AList.update (bd_key b) (length (mg_heap m)) (mg_by_key m),
      mg_by_port := AList.update (port_of b) (length (mg_heap m)) (mg_by_port m)\<rparr>)" (is "mg_inv ?m")
proof -
  have ok': "bind_ok ?m = bind_ok m" by (rule bind_ok_cong) simp_all
  have "i < length (mg_heap m)" if "map_of (mg_by_key m) k = Some i" for k i
    by (rule mg_inv_key [OF inv that])
  moreover have "i < length (mg_heap m)" if "map_of (mg_by_port m) pp = Some i" for pp i
    by (rule mg_inv_port [OF inv that])
  moreover have "port_of (mg_heap m ! i) \<noteq> port_of b" if "map_of (mg_by_key m) k = Some i" for k i
    using mg_inv_key(4) [OF inv that] new(2) by auto
  moreover have "bd_key (mg_heap m ! i) \<noteq> bd_key b" if "map_of (mg_by_port m) pp = Some i" for pp i
    using mg_inv_port(3) [OF inv that] new(1) by auto
  ultimately show ?thesis using inv ok unfolding mg_inv_def ok'
    by (auto simp: nth_append less_Suc_eq)
qed

lemma try_port_cases:
  assumes "try_port os now k owner port m = Some (r, m')"
  obtains (refused) br where "r = None" "m' = m\<lparr>mg_broken := br\<rparr>"
    | (bound) b where "r = Some (length (mg_heap m))"
      "b = \<lparr>bd_key = k, bd_owner = owner, bd_public = port, bd_backend = 0, bd_held = None, bd_closer = True\<rparr>"
      "mg_min_port m \<le> port" "port \<le> mg_max_port m" "map_of (mg_by_port m) (sk_protocol k, port) = None"
      "known_protocol (sk_protocol k)" "os (sk_protocol k) port"
      "m' = m\<lparr>mg_heap := mg_heap m @ [b], mg_by_key := AList.update k (length (mg_heap m)) (mg_by_key m),
        mg_by_port := AList.update (sk_protocol k, port) (length (mg_heap m)) (mg_by_port m)\<rparr>"
proof (cases r)
  case None
  then have "\<exists>br. m' = m\<lparr>mg_broken := br\<rparr>"
    using assms by (auto simp: try_port_def Let_def split: if_splits intro: exI [of _ "mg_broken m"])
  then show thesis using None that(1) by blast
next
  case (Some i)
  then show thesis using assms
    by (intro that(2) [OF _ refl]) (auto simp: try_port_def Let_def open_ok_def split: if_splits)
qed

lemma try_port_inv:
  assumes inv: "mg_inv m" and new: "map_of (mg_by_key m) k = None" and t: "try_port os now k owner port m = Some (r, m')"
  shows "mg_inv m'"
  using t
proof (cases rule: try_port_cases)
  case (refused br)
  then show ?thesis using inv by simp
next
  case (bound b)
  then show ?thesis using add_binding_inv [OF inv, of b] new
    by (simp add: port_of_def bind_ok_def)
qed

lemma try_ports_cases:
  "try_ports os now k owner ports m = Some (r, m') \<Longrightarrow>
   (r = None \<and> (\<exists>br. m' = m\<lparr>mg_broken := br\<rparr>))
   \<or> (\<exists>port \<in> set ports. \<exists>br. try_port os now k owner port (m\<lparr>mg_broken := br\<rparr>) = Some (r, m') \<and> r \<noteq> None)"
proof (induction os now k owner ports m arbitrary: r m' rule: try_ports.induct)
  case (1 os now k owner m)
  then show ?case by (auto intro: exI [of _ "mg_broken m"])
next
  case (2 os now k owner port ports m)
  then obtain r1 m1 where t: "try_port os now k owner port m = Some (r1, m1)" by (auto split: option.splits prod.splits)
  show ?case
  proof (cases r1)
    case (Some i)
    with 2(2) t have "try_port os now k owner port (m\<lparr>mg_broken := mg_broken m\<rparr>) = Some (r, m')" "r \<noteq> None" by auto
    then show ?thesis by (meson list.set_intros(1))
  next
    case None
    have "\<exists>br. m1 = m\<lparr>mg_broken := br\<rparr>" by (rule try_port_cases [OF t]) (use None in auto)
    then obtain br where br: "m1 = m\<lparr>mg_broken := br\<rparr>" ..
    from t None 2(2) have "try_ports os now k owner ports m1 = Some (r, m')" by simp
    from "2.IH" [OF t refl None this] show ?thesis unfolding br by auto
  qed
qed

text \<open>An operation on some keys leaves the bindings of all other keys as they are.\<close>

definition others_kept :: "side_key set \<Rightarrow> manager \<Rightarrow> manager \<Rightarrow> bool" where
  "others_kept K m m' \<longleftrightarrow>
     mg_min_port m' = mg_min_port m \<and> mg_max_port m' = mg_max_port m \<and> mg_public_host m' = mg_public_host m
     \<and> mg_grace m' = mg_grace m \<and> length (mg_heap m) \<le> length (mg_heap m')
     \<and> (\<forall>k'. k' \<in> K \<or> map_of (mg_by_key m') k' = map_of (mg_by_key m) k')
     \<and> (\<forall>k' i. k' \<notin> K \<and> map_of (mg_by_key m) k' = Some i \<longrightarrow> mg_heap m' ! i = mg_heap m ! i)"

lemma others_kept_refl [simp]: "others_kept K m m" "others_kept K m (m\<lparr>mg_broken := br\<rparr>)"
  by (simp_all add: others_kept_def)

lemma others_kept_trans: "others_kept K m m1 \<Longrightarrow> others_kept K m1 m2 \<Longrightarrow> others_kept K m m2"
  unfolding others_kept_def by (metis order_trans)

lemma set_binding_kept:
  assumes "mg_inv m" and "map_of (mg_by_key m) k = Some i"
  shows "others_kept {k} m (set_binding i b m)"
  unfolding others_kept_def
  by (intro conjI allI impI; (elim conjE)?) (simp_all add: other_index [OF assms])

lemma mg_drop_kept:
  assumes "mg_inv m" and "map_of (mg_by_key m) k = Some i"
  shows "others_kept {k} m (mg_drop i m)"
  unfolding others_kept_def mg_drop_eq [OF assms]
  by (intro conjI allI impI; (elim conjE)?) (simp_all add: other_index [OF assms])

lemma try_port_kept:
  assumes "mg_inv m" and "try_port os now k owner port m = Some (r, m')"
  shows "others_kept {k} m m'"
  using assms(2)
proof (cases rule: try_port_cases)
  case (refused br)
  then show ?thesis by simp
next
  case (bound b)
  then show ?thesis using mg_inv_key(1) [OF assms(1)]
    by (auto simp: others_kept_def nth_append)
qed

lemma reuse_spec:
  assumes inv: "mg_inv m" and r: "reuse os k owner m = (r, m')"
  shows "mg_inv m'" "others_kept {k} m m'"
    "map_of (mg_by_key m') k = r"
    "r = Some i \<Longrightarrow> bd_owner (mg_heap m' ! i) = owner \<and> bd_held (mg_heap m' ! i) = None"
proof -
  have "mg_inv m' \<and> others_kept {k} m m' \<and> map_of (mg_by_key m') k = r
    \<and> (\<forall>i. r = Some i \<longrightarrow> bd_owner (mg_heap m' ! i) = owner \<and> bd_held (mg_heap m' ! i) = None)"
  proof (cases "map_of (mg_by_key m) k")
    case None
    then show ?thesis using r inv by (auto simp: reuse_def)
  next
    case (Some j)
    note j = mg_inv_key [OF inv Some]
    show ?thesis
      using r inv j mg_drop_inv [OF inv Some] mg_drop_kept [OF inv Some] mg_drop_lookup [OF inv Some]
        set_binding_inv [OF inv Some] set_binding_kept [OF inv Some] Some
      by (auto simp: reuse_def Let_def split: if_splits)
  qed
  then show "mg_inv m'" "others_kept {k} m m'" "map_of (mg_by_key m') k = r"
    "r = Some i \<Longrightarrow> bd_owner (mg_heap m' ! i) = owner \<and> bd_held (mg_heap m' ! i) = None" by blast+
qed

lemma assign_spec:
  assumes inv: "mg_inv m" and a: "assign os now k owner preferred m = Some (r, m')"
  shows "mg_inv m'" "others_kept {k} m m'" "map_of (mg_by_key m') k = r"
    "r = Some i \<Longrightarrow> bd_owner (mg_heap m' ! i) = owner \<and> bd_held (mg_heap m' ! i) = None"
proof -
  obtain r1 m1 where r1: "reuse os k owner m = (r1, m1)" by fastforce
  note s = reuse_spec [OF inv r1]
  have "mg_inv m' \<and> others_kept {k} m m' \<and> map_of (mg_by_key m') k = r
    \<and> (\<forall>i. r = Some i \<longrightarrow> bd_owner (mg_heap m' ! i) = owner \<and> bd_held (mg_heap m' ! i) = None)"
  proof (cases r1)
    case (Some i)
    then show ?thesis using a r1 s by (auto simp: assign_def)
  next
    case None
    then have "try_ports os now k owner (preferred # [mg_min_port m1 .. mg_max_port m1]) m1 = Some (r, m')"
      using a r1 by (simp add: assign_def)
    from try_ports_cases [OF this] consider (no) br where "r = None" "m' = m1\<lparr>mg_broken := br\<rparr>"
      | (yes) port br where "try_port os now k owner port (m1\<lparr>mg_broken := br\<rparr>) = Some (r, m')" "r \<noteq> None"
      by blast
    then show ?thesis
    proof cases
      case no
      then have "others_kept {k} m m'" using others_kept_trans [OF s(2)] by simp
      then show ?thesis using s no None by simp
    next
      case yes
      have inv1: "mg_inv (m1\<lparr>mg_broken := br\<rparr>)" using s(1) by simp
      have "mg_inv m'" by (rule try_port_inv [OF inv1 _ yes(1)]) (use s(3) None in simp)
      moreover have "others_kept {k} m m'"
        using others_kept_trans [OF others_kept_trans [OF s(2) others_kept_refl(2)] try_port_kept [OF inv1 yes(1)]] .
      ultimately show ?thesis
        by (rule_tac try_port_cases [OF yes(1)]) (use yes(2) in auto)
    qed
  qed
  then show "mg_inv m'" "others_kept {k} m m'" "map_of (mg_by_key m') k = r"
    "r = Some i \<Longrightarrow> bd_owner (mg_heap m' ! i) = owner \<and> bd_held (mg_heap m' ! i) = None" by blast+
qed

lemma others_kept_mono: "others_kept K m m' \<Longrightarrow> K \<subseteq> K' \<Longrightarrow> others_kept K' m m'"
  unfolding others_kept_def by blast

lemma others_kept_sel:
  assumes "others_kept K m m'"
  shows "mg_min_port m' = mg_min_port m" "mg_max_port m' = mg_max_port m" "mg_public_host m' = mg_public_host m"
    "mg_grace m' = mg_grace m" "k \<notin> K \<Longrightarrow> map_of (mg_by_key m') k = map_of (mg_by_key m) k"
    "k \<notin> K \<Longrightarrow> map_of (mg_by_key m) k = Some i \<Longrightarrow> mg_heap m' ! i = mg_heap m ! i"
  using assms unfolding others_kept_def by blast+

lemma mg_release_kept:
  "mg_inv m \<Longrightarrow> map_of (mg_by_key m) k = Some i \<Longrightarrow> others_kept {k} m (mg_release now i m)"
  by (simp add: mg_release_def Let_def set_binding_kept)

text \<open>How a side port of a registration comes out of \<^verbatim>\<open>Sync\<close>.\<close>

definition synced :: "server \<Rightarrow> manager \<Rightarrow> side_port \<Rightarrow> side_port \<Rightarrow> bool" where
  "synced srv m p q \<longleftrightarrow>
     (case map_of (mg_by_key m) (side_key_of srv p) of
        None \<Rightarrow> q = p\<lparr>sp_error := ErrNoPort\<rparr>
      | Some i \<Rightarrow>
          bd_owner (mg_heap m ! i) = sv_owner srv \<and> bd_held (mg_heap m ! i) = None
          \<and> bd_backend (mg_heap m ! i) = sp_port p
          \<and> q = p\<lparr>sp_public := Some \<lparr>pa_host = mg_public_host m, pa_port = bd_public (mg_heap m ! i)\<rparr>\<rparr>)"

lemma synced_kept:
  "synced srv m p q \<Longrightarrow> others_kept K m m' \<Longrightarrow> side_key_of srv p \<notin> K \<Longrightarrow> synced srv m' p q"
  by (auto simp: synced_def others_kept_sel split: option.splits)

lemma sync_step:
  fixes port :: int
  assumes inv: "mg_inv m" and a: "assign os now k owner pref m = Some (Some i, m')"
  defines "m2 \<equiv> set_binding i ((mg_heap m' ! i)\<lparr>bd_backend := port\<rparr>) m'"
  shows "mg_inv m2" "others_kept {k} m m2" "map_of (mg_by_key m2) k = Some i"
    "mg_heap m2 ! i = (mg_heap m' ! i)\<lparr>bd_backend := port\<rparr>"
proof -
  note s = assign_spec [OF inv a]
  note i = mg_inv_key [OF s(1) s(3)]
  show "mg_inv m2" unfolding m2_def
    by (rule set_binding_inv [OF s(1) s(3)]) (use i(2,3) in \<open>auto simp: bind_ok_def\<close>)
  show "others_kept {k} m m2" unfolding m2_def
    by (rule others_kept_trans [OF s(2) set_binding_kept [OF s(1) s(3)]])
  show "map_of (mg_by_key m2) k = Some i" "mg_heap m2 ! i = (mg_heap m' ! i)\<lparr>bd_backend := port\<rparr>"
    using s(3) i(1) by (simp_all add: m2_def)
qed

lemma sync_ports_spec:
  assumes "mg_inv m" and "mg_enabled m" and "sync_ports os now srv ps m = Some (qs, m')"
    and "distinct (map (side_key_of srv) ps)"
  shows "mg_inv m' \<and> others_kept (set (map (side_key_of srv) ps)) m m' \<and> list_all2 (synced srv m') ps qs"
  using assms
proof (induction ps arbitrary: m qs)
  case Nil
  then show ?case by simp
next
  case (Cons p ps)
  define k where "k = side_key_of srv p"
  have dist: "distinct (map (side_key_of srv) ps)" "k \<notin> set (map (side_key_of srv) ps)"
    using Cons.prems(4) by (auto simp: k_def)
  obtain r m1 where a: "assign os now k (sv_owner srv) (sp_preferred p) m = Some (r, m1)"
    using Cons.prems(2,3) by (auto simp: k_def split: option.splits prod.splits)
  define m2 where "m2 = (case r of None \<Rightarrow> m1 | Some i \<Rightarrow> set_binding i ((mg_heap m1 ! i)\<lparr>bd_backend := sp_port p\<rparr>) m1)"
  define q where "q = (case r of None \<Rightarrow> p\<lparr>sp_error := ErrNoPort\<rparr>
    | Some i \<Rightarrow> p\<lparr>sp_public := Some \<lparr>pa_host = mg_public_host m1, pa_port = bd_public (mg_heap m1 ! i)\<rparr>\<rparr>)"
  obtain qs' where rec: "sync_ports os now srv ps m2 = Some (qs', m')" and qs: "qs = q # qs'"
    using Cons.prems(2,3) a
    by (auto simp: k_def [symmetric] m2_def q_def Let_def split: option.splits prod.splits)
  have m2: "mg_inv m2 \<and> others_kept {k} m m2 \<and> synced srv m2 p q"
  proof (cases r)
    case None
    then show ?thesis using assign_spec [OF Cons.prems(1) a]
      by (simp add: m2_def q_def synced_def k_def)
  next
    case (Some i)
    have a': "assign os now k (sv_owner srv) (sp_preferred p) m = Some (Some i, m1)" using a Some by simp
    note st = sync_step [OF Cons.prems(1) a', of "sp_port p"]
    note ow = assign_spec(4) [OF Cons.prems(1) a' refl]
    have "m2 = set_binding i ((mg_heap m1 ! i)\<lparr>bd_backend := sp_port p\<rparr>) m1" by (simp add: m2_def Some)
    then show ?thesis using st ow by (simp add: q_def Some synced_def k_def [symmetric])
  qed
  then have kept2: "others_kept {k} m m2" by simp
  then have en: "mg_enabled m2" using Cons.prems(2) others_kept_sel(2) [OF kept2] by (simp add: mg_enabled_def)
  have IH: "mg_inv m' \<and> others_kept (set (map (side_key_of srv) ps)) m2 m' \<and> list_all2 (synced srv m') ps qs'"
    by (rule Cons.IH [OF _ en rec dist(1)]) (use m2 in simp)
  have "others_kept (set (map (side_key_of srv) (p # ps))) m m'"
  proof (rule others_kept_trans)
    show "others_kept (set (map (side_key_of srv) (p # ps))) m m2"
      by (rule others_kept_mono [OF kept2]) (simp add: k_def)
    show "others_kept (set (map (side_key_of srv) (p # ps))) m2 m'"
      by (rule others_kept_mono [OF conjunct1 [OF conjunct2 [OF IH]]]) auto
  qed
  moreover have "synced srv m' p q" by (rule synced_kept [of srv m2 p q "set (map (side_key_of srv) ps)"]) (use m2 IH dist(2) in \<open>simp_all add: k_def\<close>)
  ultimately show ?case using IH by (simp add: qs)
qed

text \<open>A loop over \<^verbatim>\<open>byKey\<close> whose body treats one binding at a time.\<close>

lemma fold_entries:
  assumes f: "\<And>m k i. mg_inv m \<Longrightarrow> map_of (mg_by_key m) k = Some i \<Longrightarrow>
      mg_inv (f k i m) \<and> others_kept {k} m (f k i m) \<and> Q k (f k i m)"
    and Q: "\<And>m m' k k'. others_kept {k'} m m' \<Longrightarrow> k \<noteq> k' \<Longrightarrow> Q k m \<Longrightarrow> Q k m'"
    and xs: "distinct (map fst xs)" "\<forall>(k, i) \<in> set xs. map_of (mg_by_key m) k = Some i" and inv: "mg_inv m"
  shows "mg_inv (foldl (\<lambda>m (k, i). f k i m) m xs)
    \<and> others_kept (fst ` set xs) m (foldl (\<lambda>m (k, i). f k i m) m xs)
    \<and> (\<forall>k. k \<in> fst ` set xs \<or> Q k m \<longrightarrow> Q k (foldl (\<lambda>m (k, i). f k i m) m xs))"
  using xs inv
proof (induction xs arbitrary: m)
  case Nil
  then show ?case by simp
next
  case (Cons x xs)
  obtain k i where x: "x = (k, i)" by (cases x)
  have ki: "map_of (mg_by_key m) k = Some i" using Cons.prems(2) by (simp add: x)
  note fk = f [OF Cons.prems(3) ki]
  define m1 where "m1 = f k i m"
  have kept: "others_kept {k} m m1" using fk by (simp add: m1_def)
  have nk: "k \<notin> fst ` set xs" using Cons.prems(1) by (simp add: x)
  have "map_of (mg_by_key m1) k' = Some j" if "(k', j) \<in> set xs" for k' j
  proof -
    have "k' \<noteq> k" using nk that by force
    then show ?thesis using that Cons.prems(2) others_kept_sel(5) [OF kept, of k'] by auto
  qed
  then have IH: "mg_inv (foldl (\<lambda>m (k, i). f k i m) m1 xs)
    \<and> others_kept (fst ` set xs) m1 (foldl (\<lambda>m (k, i). f k i m) m1 xs)
    \<and> (\<forall>k. k \<in> fst ` set xs \<or> Q k m1 \<longrightarrow> Q k (foldl (\<lambda>m (k, i). f k i m) m1 xs))"
    using Cons.prems fk by (intro Cons.IH) (auto simp: m1_def)
  have "others_kept (fst ` set (x # xs)) m (foldl (\<lambda>m (k, i). f k i m) m1 xs)"
    by (rule others_kept_trans [of _ _ m1]) (use kept IH in \<open>auto simp: x intro: others_kept_mono\<close>)
  moreover have "Q k m1" using fk by (simp add: m1_def)
  moreover have "Q k' m1" if "k' \<noteq> k" "Q k' m" for k'
    by (rule Q [OF kept that])
  then have "Q k' m1" if "k' = k \<or> Q k' m" for k'
    using that \<open>Q k m1\<close> by (cases "k' = k") auto
  moreover have "foldl (\<lambda>m (k, i). f k i m) m (x # xs) = foldl (\<lambda>m (k, i). f k i m) m1 xs"
    by (simp add: x m1_def)
  ultimately show ?case using IH by (simp add: x)
qed

lemma entries_of:
  assumes "mg_inv m"
  shows "distinct (map fst (mg_by_key m))" "\<forall>(k, i) \<in> set (mg_by_key m). map_of (mg_by_key m) k = Some i"
  using assms by (auto simp: mg_inv_def)

text \<open>Whether a key has no active binding.\<close>

definition inactive :: "side_key \<Rightarrow> manager \<Rightarrow> bool" where
  "inactive k m \<longleftrightarrow> (\<forall>i. map_of (mg_by_key m) k = Some i \<longrightarrow> bd_held (mg_heap m ! i) \<noteq> None)"

lemma inactive_kept: "others_kept {k'} m m' \<Longrightarrow> k \<noteq> k' \<Longrightarrow> inactive k m \<Longrightarrow> inactive k m'"
  by (auto simp: inactive_def others_kept_sel)

lemma mg_release_inactive:
  "mg_inv m \<Longrightarrow> map_of (mg_by_key m) k = Some i \<Longrightarrow> inactive k (mg_release now i m)"
  by (auto simp: mg_release_def Let_def inactive_def mg_inv_key(1))

lemma release_where_spec:
  assumes inv: "mg_inv m"
  shows "mg_inv (release_where now P m) \<and> others_kept {k. P k} m (release_where now P m)
    \<and> (\<forall>k. P k \<longrightarrow> inactive k (release_where now P m))"
proof -
  define f where "f = (\<lambda>k i m. if P k then mg_release now i m else m)"
  have r: "release_where now P m = foldl (\<lambda>m (k, i). f k i m) m (mg_by_key m)"
    by (simp add: release_where_def f_def)
  have "mg_inv (f k i m) \<and> others_kept {k} m (f k i m) \<and> (P k \<longrightarrow> inactive k (f k i m))"
    if "mg_inv m" "map_of (mg_by_key m) k = Some i" for k i m
    using that by (simp add: f_def mg_release_inv mg_release_kept mg_release_inactive)
  then have "mg_inv (release_where now P m)
    \<and> others_kept (fst ` set (mg_by_key m)) m (release_where now P m)
    \<and> (\<forall>k. k \<in> fst ` set (mg_by_key m) \<or> (P k \<longrightarrow> inactive k m) \<longrightarrow> P k \<longrightarrow> inactive k (release_where now P m))"
    unfolding r
    by (rule fold_entries [where f = f and Q = "\<lambda>k m. P k \<longrightarrow> inactive k m"])
      (use inactive_kept entries_of [OF inv] inv in blast)+
  moreover have "inactive k m" if "k \<notin> fst ` set (mg_by_key m)" for k
    using that by (simp add: inactive_def map_of_eq_None_iff [THEN iffD2])
  ultimately have all: "mg_inv (release_where now P m) \<and> (\<forall>k. P k \<longrightarrow> inactive k (release_where now P m))"
    by blast
  have "others_kept {k. P k} m (foldl (\<lambda>m (k, i). f k i m) m xs)"
    if "\<forall>(k, i) \<in> set xs. map_of (mg_by_key m) k = Some i" "mg_inv m" for xs
    using that
  proof (induction xs arbitrary: m)
    case (Cons x xs)
    obtain k i where x: "x = (k, i)" by (cases x)
    have ki: "map_of (mg_by_key m) k = Some i" using Cons.prems(1) by (simp add: x)
    have "others_kept {k. P k} m (f k i m)" "mg_inv (f k i m)" "mg_by_key (f k i m) = mg_by_key m"
      using others_kept_mono [OF mg_release_kept [OF Cons.prems(2) ki], of "{k. P k}"]
        mg_release_inv [OF Cons.prems(2) ki] Cons.prems(2)
      by (auto simp: f_def mg_release_def Let_def)
    then show ?case using Cons by (auto simp: x intro: others_kept_trans)
  qed simp
  from this [OF entries_of(2) [OF inv] inv] all show ?thesis by (simp add: r)
qed

lemma mg_sync_spec:
  assumes inv: "mg_inv m" and en: "mg_enabled m" and s: "mg_sync os now srv m = Some (out, m')"
    and dist: "distinct (map sp_name (sv_side_ports srv))"
  shows "mg_inv m'" "others_kept {k. sk_server k = sv_id srv} m m'"
    "list_all2 (synced srv m') (sv_side_ports srv) out"
    "sk_server k = sv_id srv \<Longrightarrow> k \<notin> set (map (side_key_of srv) (sv_side_ports srv)) \<Longrightarrow> inactive k m'"
proof -
  define K where "K = set (map (side_key_of srv) (sv_side_ports srv))"
  define P where "P = (\<lambda>k. sk_server k = sv_id srv \<and> k \<notin> K)"
  obtain m1 where r: "sync_ports os now srv (sv_side_ports srv) m = Some (out, m1)"
    and m': "m' = release_where now P m1"
    using s by (auto simp: mg_sync_def P_def K_def split: option.splits)
  have d: "distinct (map (side_key_of srv) (sv_side_ports srv))"
    using dist by (auto simp: distinct_map inj_on_def side_key_of_def)
  have s1: "mg_inv m1 \<and> others_kept K m m1 \<and> list_all2 (synced srv m1) (sv_side_ports srv) out"
    using sync_ports_spec [OF inv en r d] by (simp add: K_def)
  have s2: "mg_inv m' \<and> others_kept {k. P k} m1 m' \<and> (\<forall>k. P k \<longrightarrow> inactive k m')"
    unfolding m' by (rule release_where_spec) (use s1 in simp)
  show "mg_inv m'" using s2 by simp
  show "others_kept {k. sk_server k = sv_id srv} m m'"
  proof (rule others_kept_trans)
    show "others_kept {k. sk_server k = sv_id srv} m m1"
      by (rule others_kept_mono [of K]) (use s1 in \<open>auto simp: K_def side_key_of_def\<close>)
    show "others_kept {k. sk_server k = sv_id srv} m1 m'"
      by (rule others_kept_mono [of "{k. P k}"]) (use s2 in \<open>auto simp: P_def\<close>)
  qed
  show "list_all2 (synced srv m') (sv_side_ports srv) out"
  proof (rule list.rel_mono_strong)
    show "list_all2 (synced srv m1) (sv_side_ports srv) out" using s1 by simp
    fix p q
    assume p: "p \<in> set (sv_side_ports srv)" "synced srv m1 p q"
    then have "side_key_of srv p \<in> K" by (simp add: K_def)
    then show "synced srv m' p q"
      using synced_kept [OF p(2), of "{k. P k}" m'] s2 by (simp add: P_def)
  qed
  show "sk_server k = sv_id srv \<Longrightarrow> k \<notin> set (map (side_key_of srv) (sv_side_ports srv)) \<Longrightarrow> inactive k m'"
    using s2 by (simp add: P_def K_def)
qed

lemma sync_ports_disabled:
  "\<not> mg_enabled m \<Longrightarrow> sync_ports os now srv ps m = Some (map (\<lambda>p. p\<lparr>sp_error := ErrDisabled\<rparr>) ps, m)"
  by (induction ps) auto

lemma sweep_binding_spec:
  "mg_inv m \<Longrightarrow> map_of (mg_by_key m) k = Some i \<Longrightarrow>
   mg_inv (sweep_binding now reg i m) \<and> others_kept {k} m (sweep_binding now reg i m)"
  by (auto simp: sweep_binding_def mg_drop_inv mg_drop_kept mg_release_inv mg_release_kept split: option.splits)

lemma mg_sweep_inv: "mg_inv m \<Longrightarrow> mg_inv (mg_sweep now reg m)"
  unfolding mg_sweep_def Let_def broken_inv
  using fold_entries [of "\<lambda>k i m. sweep_binding now reg i m" "\<lambda>_ _. True", OF _ _ entries_of]
  by (simp add: sweep_binding_spec)

lemma mg_close_inv: "mg_inv m \<Longrightarrow> mg_inv (mg_close m)"
  unfolding mg_close_def
  using fold_entries [of "\<lambda>k i m. mg_drop i m" "\<lambda>_ _. True", OF _ _ entries_of]
  by (simp add: mg_drop_inv mg_drop_kept)

section \<open>Runs\<close>

datatype mg_op =
    M_sync "string \<Rightarrow> int \<Rightarrow> bool" server
  | M_release string
  | M_sweep "(string \<Rightarrow> server option) option"
  | M_close

text \<open>Servers come to the manager from the registry, which has validated them.\<close>

fun mg_op_ok :: "mg_op \<Rightarrow> bool" where
  "mg_op_ok (M_sync os srv) \<longleftrightarrow> valid_server srv"
| "mg_op_ok _ \<longleftrightarrow> True"

fun mg_step :: "time \<Rightarrow> mg_op \<Rightarrow> manager \<Rightarrow> manager option" where
  "mg_step now (M_sync os srv) m = map_option snd (mg_sync os now srv m)"
| "mg_step now (M_release i) m = Some (mg_release_server now i m)"
| "mg_step now (M_sweep reg) m = Some (mg_sweep now reg m)"
| "mg_step now M_close m = Some (mg_close m)"

fun mg_run :: "(time \<times> mg_op) list \<Rightarrow> manager \<Rightarrow> manager option" where
  "mg_run [] m = Some m"
| "mg_run ((now, op) # ops) m = (case mg_step now op m of None \<Rightarrow> None | Some m \<Rightarrow> mg_run ops m)"

lemma release_where_disabled:
  "\<not> mg_enabled m \<Longrightarrow> mg_inv m \<Longrightarrow> mg_inv (release_where now P m)"
  using release_where_spec by blast

text \<open>A validated server never makes the manager panic.\<close>

lemma try_ports_some:
  "known_protocol (sk_protocol k) \<Longrightarrow> \<exists>r m'. try_ports os now k owner ports m = Some (r, m')"
  by (induction ports arbitrary: m) (auto simp: try_port_def Let_def split: option.splits)

lemma assign_some:
  "known_protocol (sk_protocol k) \<Longrightarrow> \<exists>r m'. assign os now k owner pref m = Some (r, m')"
  by (cases "reuse os k owner m"; cases "fst (reuse os k owner m)")
    (auto simp: assign_def try_ports_some simp del: try_ports.simps)

lemma sync_ports_some:
  "\<forall>p \<in> set ps. known_protocol (sp_protocol p) \<Longrightarrow> \<exists>out m'. sync_ports os now srv ps m = Some (out, m')"
proof (induction ps arbitrary: m)
  case (Cons p ps)
  obtain r m1 where a: "assign os now (side_key_of srv p) (sv_owner srv) (sp_preferred p) m = Some (r, m1)"
    using assign_some [of "side_key_of srv p" os now "sv_owner srv" "sp_preferred p" m] Cons.prems
    by (auto simp: side_key_of_def)
  have nn: "(sync_ports os now srv ps m = None) = False" for m
    using Cons.IH [of m] Cons.prems by auto
  have "sync_ports os now srv (p # ps) m \<noteq> None"
    using a by (cases r) (auto simp: Let_def nn split: option.splits)
  then show ?case by auto
qed simp

lemma mg_sync_some: "valid_server srv \<Longrightarrow> \<exists>out m'. mg_sync os now srv m = Some (out, m')"
  using sync_ports_some [of "sv_side_ports srv" os now srv m]
  by (auto simp: mg_sync_def valid_server_def list_all_iff side_port_ok_def known_protocol_def)

lemma mg_step_some:
  assumes "mg_op_ok op" and "mg_inv m"
  shows "\<exists>m'. mg_step now op m = Some m' \<and> mg_inv m'"
proof (cases op)
  case (M_sync os srv)
  then have v: "valid_server srv" using assms by simp
  then have d: "distinct (map sp_name (sv_side_ports srv))" by (simp add: valid_server_def)
  obtain out m' where s: "mg_sync os now srv m = Some (out, m')" using mg_sync_some [OF v] by blast
  have "mg_inv m'"
  proof (cases "mg_enabled m")
    case True
    show ?thesis by (rule mg_sync_spec(1) [OF assms(2) True s d])
  next
    case False
    then show ?thesis using s release_where_spec [OF assms(2)]
      by (auto simp: mg_sync_def sync_ports_disabled)
  qed
  then show ?thesis using s by (simp add: M_sync)
qed (use assms release_where_spec in \<open>auto simp: mg_release_server_def mg_sweep_inv mg_close_inv\<close>)

lemma mg_run_some:
  "\<forall>(t, op) \<in> set ops. mg_op_ok op \<Longrightarrow> mg_inv m \<Longrightarrow> \<exists>m'. mg_run ops m = Some m' \<and> mg_inv m'"
proof (induction ops arbitrary: m)
  case (Cons x ops)
  obtain t op where x: "x = (t, op)" by (cases x)
  obtain m1 where "mg_step t op m = Some m1" "mg_inv m1"
    using mg_step_some [of op m t] Cons.prems by (auto simp: x)
  then show ?case using Cons by (auto simp: x)
qed simp

lemma new_manager_inv: "mg_inv (new_manager host lo hi grace)"
  by (simp add: mg_inv_def new_manager_def)

section \<open>Properties\<close>

text \<open>C7: whatever validated servers are registered, released, swept and closed in whatever order and
  whatever the operating system answers, the manager never panics, and afterwards every binding has a
  public port inside the pool, no two bindings of one protocol share a public port, and exactly the
  bindings that are not held in grace have an open listener.\<close>

theorem sideports_safe:
  assumes "\<forall>(t, op) \<in> set ops. mg_op_ok op"
  shows "\<exists>m. mg_run ops (new_manager host lo hi grace) = Some m
    \<and> (\<forall>k i. map_of (mg_by_key m) k = Some i \<longrightarrow>
         mg_min_port m \<le> bd_public (mg_heap m ! i) \<and> bd_public (mg_heap m ! i) \<le> mg_max_port m
         \<and> (bd_closer (mg_heap m ! i) \<longleftrightarrow> bd_held (mg_heap m ! i) = None))
    \<and> (\<forall>k k' i j. map_of (mg_by_key m) k = Some i \<and> map_of (mg_by_key m) k' = Some j
         \<and> port_of (mg_heap m ! i) = port_of (mg_heap m ! j) \<longrightarrow> k = k')"
proof -
  obtain m where m: "mg_run ops (new_manager host lo hi grace) = Some m" "mg_inv m"
    using mg_run_some [OF assms new_manager_inv] by blast
  have "k = k'" if "map_of (mg_by_key m) k = Some i" "map_of (mg_by_key m) k' = Some j"
    "port_of (mg_heap m ! i) = port_of (mg_heap m ! j)" for k k' i j
  proof -
    have "Some i = Some j"
      using mg_inv_key(4) [OF m(2) that(1)] mg_inv_key(4) [OF m(2) that(2)] that(3) by (simp only:)
    then show ?thesis using mg_inv_inj [OF m(2) that(1)] that(2) by simp
  qed
  moreover have "bind_ok m (mg_heap m ! i)" if "map_of (mg_by_key m) k = Some i" for k i
    by (rule mg_inv_key [OF m(2) that])
  ultimately show ?thesis using m(1) unfolding bind_ok_def by blast
qed

definition demo_voice :: server where
  "demo_voice = demo_server\<lparr>sv_id := ''survival'', sv_name := ''S'', sv_loader := ''paper'', sv_owner := ''alice'',
     sv_side_ports := [\<lparr>sp_name = ''voice'', sp_protocol = ''udp'', sp_port = 24454, sp_preferred = 0,
       sp_public = None, sp_error = []\<rparr>]\<rparr>"

definition demo_pool :: manager where
  "demo_pool = new_manager ''play.example'' 30000 30001 0"

theorem sideports_safe_witness:
  "\<exists>m. mg_run [(1, M_sync (\<lambda>_ _. True) demo_voice), (2, M_sweep None), (3, M_release ''survival'')]
         (new_manager ''h'' 30000 30001 0) = Some m
    \<and> (\<forall>k i. map_of (mg_by_key m) k = Some i \<longrightarrow>
         mg_min_port m \<le> bd_public (mg_heap m ! i) \<and> bd_public (mg_heap m ! i) \<le> mg_max_port m
         \<and> (bd_closer (mg_heap m ! i) \<longleftrightarrow> bd_held (mg_heap m ! i) = None))
    \<and> (\<forall>k k' i j. map_of (mg_by_key m) k = Some i \<and> map_of (mg_by_key m) k' = Some j
         \<and> port_of (mg_heap m ! i) = port_of (mg_heap m ! j) \<longrightarrow> k = k')"
proof (rule sideports_safe)
  have "valid_server demo_voice" by code_simp
  then show "\<forall>(t, op) \<in> set [(1, M_sync (\<lambda>_ _. True) demo_voice), (2, M_sweep None), (3, M_release ''survival'')].
    mg_op_ok op" by simp
qed

text \<open>A synced server gets for each of its side ports, in order, either the public address of an
  active binding of its own, which forwards to the declared backend port, or the error that no port is
  free; its side ports that are no longer declared are released, and the bindings of all other servers
  are as they were.\<close>

theorem sync_contract:
  assumes "mg_inv m" and "mg_enabled m" and "valid_server srv"
  shows "\<exists>out m'. mg_sync os now srv m = Some (out, m')
    \<and> list_all2 (synced srv m') (sv_side_ports srv) out
    \<and> (\<forall>k. sk_server k = sv_id srv \<and> k \<notin> set (map (side_key_of srv) (sv_side_ports srv)) \<longrightarrow> inactive k m')
    \<and> others_kept {k. sk_server k = sv_id srv} m m'"
proof -
  obtain out m' where s: "mg_sync os now srv m = Some (out, m')" using mg_sync_some [OF assms(3)] by blast
  have d: "distinct (map sp_name (sv_side_ports srv))" using assms(3) by (simp add: valid_server_def)
  show ?thesis using s mg_sync_spec [OF assms(1,2) s d] by blast
qed

theorem sync_contract_witness:
  "\<exists>out m'. mg_sync (\<lambda>_ _. True) 7 demo_voice demo_pool = Some (out, m')
    \<and> list_all2 (synced demo_voice m') (sv_side_ports demo_voice) out
    \<and> (\<forall>k. sk_server k = sv_id demo_voice \<and> k \<notin> set (map (side_key_of demo_voice) (sv_side_ports demo_voice)) \<longrightarrow>
          inactive k m')
    \<and> others_kept {k. sk_server k = sv_id demo_voice} demo_pool m'"
proof (rule sync_contract)
  show "mg_inv demo_pool" unfolding demo_pool_def by (rule new_manager_inv)
  show "mg_enabled demo_pool" "valid_server demo_voice" by code_simp+
qed

text \<open>Operations that do not concern a server: other servers' registrations and releases, and sweeps
  before a time \<open>u\<close>.\<close>

fun foreign_op :: "string \<Rightarrow> time \<Rightarrow> time \<times> mg_op \<Rightarrow> bool" where
  "foreign_op i u (now, M_sync os srv) \<longleftrightarrow> valid_server srv \<and> sv_id srv \<noteq> i"
| "foreign_op i u (now, M_release j) \<longleftrightarrow> j \<noteq> i"
| "foreign_op i u (now, M_sweep reg) \<longleftrightarrow> now \<le> u"
| "foreign_op i u (now, M_close) \<longleftrightarrow> False"

definition reserved :: "manager \<Rightarrow> side_key \<Rightarrow> nat \<Rightarrow> binding \<Rightarrow> manager \<Rightarrow> bool" where
  "reserved m0 k i b m \<longleftrightarrow> mg_inv m \<and> mg_enabled m = mg_enabled m0
     \<and> map_of (mg_by_key m) k = Some i \<and> mg_heap m ! i = b"

lemma sweep_keeps_held:
  assumes inv: "mg_inv m" and k: "map_of (mg_by_key m) k = Some i" and h: "bd_held (mg_heap m ! i) = Some u" "now \<le> u"
  shows "map_of (mg_by_key (mg_sweep now reg m)) k = Some i \<and> mg_heap (mg_sweep now reg m) ! i = mg_heap m ! i
     \<and> mg_max_port (mg_sweep now reg m) = mg_max_port m"
proof -
  define g where "g = (\<lambda>m (k :: side_key, i). sweep_binding now reg i m)"
  have "map_of (mg_by_key (foldl g m xs)) k = Some i \<and> mg_heap (foldl g m xs) ! i = mg_heap m ! i
      \<and> mg_max_port (foldl g m xs) = mg_max_port m"
    if "distinct (map fst xs)" "\<forall>(k, i) \<in> set xs. map_of (mg_by_key m) k = Some i" "mg_inv m"
      "map_of (mg_by_key m) k = Some i" "bd_held (mg_heap m ! i) = Some u" for xs m
    using that
  proof (induction xs arbitrary: m)
    case (Cons x xs)
    obtain k' j where x: "x = (k', j)" by (cases x)
    have kj: "map_of (mg_by_key m) k' = Some j" using Cons.prems(2) by (simp add: x)
    define m1 where "m1 = sweep_binding now reg j m"
    have s: "mg_inv m1" "others_kept {k'} m m1"
      using sweep_binding_spec [OF Cons.prems(3) kj] by (simp_all add: m1_def)
    have same: "map_of (mg_by_key m1) k = Some i \<and> mg_heap m1 ! i = mg_heap m ! i"
    proof (cases "k' = k")
      case True
      then have "j = i" using kj Cons.prems(4) by simp
      then have "m1 = m" using Cons.prems(5) h(2) by (simp add: m1_def sweep_binding_def)
      then show ?thesis using Cons.prems(4) by simp
    next
      case False
      then show ?thesis using others_kept_sel(5) [OF s(2)] others_kept_sel(6) [OF s(2), of k i] Cons.prems(4) by simp
    qed
    have "map_of (mg_by_key m1) k'' = Some j'" if "(k'', j') \<in> set xs" for k'' j'
    proof -
      have "k'' \<noteq> k'" using Cons.prems(1) that by (force simp: x)
      then show ?thesis using that Cons.prems(2) others_kept_sel(5) [OF s(2), of k''] by auto
    qed
    then have "map_of (mg_by_key (foldl g m1 xs)) k = Some i \<and> mg_heap (foldl g m1 xs) ! i = mg_heap m1 ! i
      \<and> mg_max_port (foldl g m1 xs) = mg_max_port m1"
      using Cons.prems s same by (intro Cons.IH) auto
    then show ?case using same others_kept_sel(2) [OF s(2)] by (simp add: x g_def m1_def)
  qed simp
  from this [OF entries_of [OF inv] inv k h(1)] show ?thesis
    by (simp add: mg_sweep_def Let_def g_def)
qed

lemma reserved_step:
  assumes r: "reserved m0 k i b m" and h: "bd_held b = Some u" and f: "foreign_op (sk_server k) u (now, op)"
  shows "\<exists>m'. mg_step now op m = Some m' \<and> reserved m0 k i b m'"
proof (cases op)
  case (M_sync os srv)
  then have v: "valid_server srv" "sv_id srv \<noteq> sk_server k" using f by simp_all
  obtain out m' where s: "mg_sync os now srv m = Some (out, m')" using mg_sync_some [OF v(1)] by blast
  have d: "distinct (map sp_name (sv_side_ports srv))" using v(1) by (simp add: valid_server_def)
  have inv: "mg_inv m" using r by (simp add: reserved_def)
  have "mg_inv m' \<and> others_kept {k. sk_server k = sv_id srv} m m'"
  proof (cases "mg_enabled m")
    case True
    show ?thesis using mg_sync_spec(1,2) [OF inv True s d] by simp
  next
    case False
    then have "m' = release_where now (\<lambda>k. sk_server k = sv_id srv \<and> k \<notin> set (map (side_key_of srv) (sv_side_ports srv))) m"
      using s by (simp add: mg_sync_def sync_ports_disabled)
    then show ?thesis using release_where_spec [OF inv] others_kept_mono by (metis (no_types, lifting) Collect_mono)
  qed
  then have m': "mg_inv m'" and kept: "others_kept {k. sk_server k = sv_id srv} m m'" by simp_all
  show ?thesis using s m' r v(2) others_kept_sel(2,5) [OF kept] others_kept_sel(6) [OF kept, of k i]
    by (simp add: M_sync reserved_def mg_enabled_def)
next
  case (M_release j)
  have "mg_inv m" using r by (simp add: reserved_def)
  then have rel: "mg_inv (mg_release_server now j m)" and kept: "others_kept {k. sk_server k = j} m (mg_release_server now j m)"
    using release_where_spec [of m now "\<lambda>k. sk_server k = j"] by (simp_all add: mg_release_server_def)
  show ?thesis using rel r f others_kept_sel(2,5) [OF kept] others_kept_sel(6) [OF kept, of k i]
    by (simp add: M_release reserved_def mg_enabled_def)
next
  case (M_sweep reg)
  then show ?thesis using r h f sweep_keeps_held [of m k i u now reg] mg_sweep_inv
    by (auto simp: reserved_def mg_enabled_def)
qed (use f in simp)

lemma reserved_run:
  "reserved m0 k i b m \<Longrightarrow> bd_held b = Some u \<Longrightarrow> \<forall>x \<in> set ops. foreign_op (sk_server k) u x \<Longrightarrow>
   \<exists>m'. mg_run ops m = Some m' \<and> reserved m0 k i b m'"
proof (induction ops arbitrary: m)
  case (Cons x ops)
  obtain t op where x: "x = (t, op)" by (cases x)
  obtain m1 where "mg_step t op m = Some m1" "reserved m0 k i b m1"
    using reserved_step [OF Cons.prems(1,2), of t op] Cons.prems(3) by (auto simp: x)
  then show ?case using Cons by (auto simp: x)
qed simp

text \<open>A binding of the caller's own that can be reused is kept through a sync.\<close>

lemma reuse_own:
  assumes "mg_inv m" and "map_of (mg_by_key m) k = Some i" and "bd_owner (mg_heap m ! i) = owner"
    and "bd_held (mg_heap m ! i) = None \<or> os (sk_protocol k) (bd_public (mg_heap m ! i))"
  shows "\<exists>m'. reuse os k owner m = (Some i, m') \<and> bd_public (mg_heap m' ! i) = bd_public (mg_heap m ! i)"
  using mg_inv_key [OF assms(1,2)] assms(2-4)
  by (auto simp: reuse_def Let_def open_ok_def bind_ok_def)

lemma sync_ports_keeps:
  assumes "mg_inv m" and "mg_enabled m" and "sync_ports os now srv ps m = Some (qs, m')"
    and "distinct (map (side_key_of srv) ps)" and "p \<in> set ps" and "side_key_of srv p = k"
    and "map_of (mg_by_key m) k = Some i" and "bd_owner (mg_heap m ! i) = sv_owner srv"
    and "bd_held (mg_heap m ! i) = None \<or> os (sk_protocol k) (bd_public (mg_heap m ! i))"
  shows "map_of (mg_by_key m') k = Some i \<and> bd_public (mg_heap m' ! i) = bd_public (mg_heap m ! i)"
  using assms
proof (induction ps arbitrary: m qs)
  case (Cons p' ps)
  define k' where "k' = side_key_of srv p'"
  have dist: "distinct (map (side_key_of srv) ps)" "k' \<notin> set (map (side_key_of srv) ps)"
    using Cons.prems(4) by (auto simp: k'_def)
  obtain r m1 where a: "assign os now k' (sv_owner srv) (sp_preferred p') m = Some (r, m1)"
    using Cons.prems(2,3) by (auto simp: k'_def split: option.splits prod.splits)
  define m2 where "m2 = (case r of None \<Rightarrow> m1 | Some j \<Rightarrow> set_binding j ((mg_heap m1 ! j)\<lparr>bd_backend := sp_port p'\<rparr>) m1)"
  obtain qs' where rec: "sync_ports os now srv ps m2 = Some (qs', m')"
    using Cons.prems(2,3) a
    by (auto simp: k'_def [symmetric] m2_def Let_def split: option.splits prod.splits)
  have m2: "mg_inv m2 \<and> others_kept {k'} m m2"
  proof (cases r)
    case None
    then show ?thesis using assign_spec [OF Cons.prems(1) a] by (simp add: m2_def)
  next
    case (Some j)
    then have a': "assign os now k' (sv_owner srv) (sp_preferred p') m = Some (Some j, m1)" using a by simp
    show ?thesis using sync_step [OF Cons.prems(1) a', of "sp_port p'"] by (simp add: m2_def Some)
  qed
  then have inv2: "mg_inv m2" and kept2: "others_kept {k'} m m2" by simp_all
  have en2: "mg_enabled m2" using Cons.prems(2) others_kept_sel(2) [OF kept2] by (simp add: mg_enabled_def)
  show ?case
  proof (cases "k' = k")
    case True
    obtain m3 where m3: "reuse os k (sv_owner srv) m = (Some i, m3)" "bd_public (mg_heap m3 ! i) = bd_public (mg_heap m ! i)"
      using reuse_own [OF Cons.prems(1,7,8), of os] Cons.prems(9) by blast
    then have "assign os now k' (sv_owner srv) (sp_preferred p') m = Some (Some i, m3)"
      by (simp add: assign_def True)
    then have r: "r = Some i" "m1 = m3" using a by simp_all
    have k3: "map_of (mg_by_key m1) k = Some i"
      using assign_spec(3) [OF Cons.prems(1) a] r by (simp add: True)
    have i3: "i < length (mg_heap m1)" using mg_inv_key(1) [OF assign_spec(1) [OF Cons.prems(1) a] k3] .
    have "map_of (mg_by_key m2) k = Some i" "bd_public (mg_heap m2 ! i) = bd_public (mg_heap m ! i)"
      using r m3(2) k3 i3 by (simp_all add: m2_def)
    moreover have "others_kept (set (map (side_key_of srv) ps)) m2 m'"
      using sync_ports_spec [OF inv2 en2 rec dist(1)] by simp
    ultimately show ?thesis
      using others_kept_sel(5,6) dist(2) unfolding True by (metis (no_types, lifting))
  next
    case False
    have p: "p \<in> set ps" using Cons.prems(5,6) False by (auto simp: k'_def)
    have same: "map_of (mg_by_key m2) k = Some i" "mg_heap m2 ! i = mg_heap m ! i"
      using others_kept_sel(5) [OF kept2, of k] others_kept_sel(6) [OF kept2, of k i] False Cons.prems(7) by simp_all
    show ?thesis
      using Cons.IH [OF inv2 en2 rec dist(1) p Cons.prems(6) same(1)] Cons.prems(8,9) by (simp add: same(2))
  qed
qed simp

lemma sync_keeps:
  assumes "mg_inv m" and "mg_enabled m" and s: "mg_sync os now srv m = Some (out, m')"
    and "distinct (map sp_name (sv_side_ports srv))" and "p \<in> set (sv_side_ports srv)" and "side_key_of srv p = k"
    and "map_of (mg_by_key m) k = Some i" and "bd_owner (mg_heap m ! i) = sv_owner srv"
    and "bd_held (mg_heap m ! i) = None \<or> os (sk_protocol k) (bd_public (mg_heap m ! i))"
  shows "map_of (mg_by_key m') k = Some i \<and> bd_public (mg_heap m' ! i) = bd_public (mg_heap m ! i)"
proof -
  define P where "P = (\<lambda>k. sk_server k = sv_id srv \<and> k \<notin> set (map (side_key_of srv) (sv_side_ports srv)))"
  obtain m1 where r: "sync_ports os now srv (sv_side_ports srv) m = Some (out, m1)"
    and m': "m' = release_where now P m1"
    using s by (auto simp: mg_sync_def P_def split: option.splits)
  have d: "distinct (map (side_key_of srv) (sv_side_ports srv))"
    using assms(4) by (auto simp: distinct_map inj_on_def side_key_of_def)
  have m1: "map_of (mg_by_key m1) k = Some i \<and> bd_public (mg_heap m1 ! i) = bd_public (mg_heap m ! i)"
    by (rule sync_ports_keeps [OF assms(1,2) r d assms(5-9)])
  have "mg_inv m1" using sync_ports_spec [OF assms(1,2) r d] by simp
  then have "others_kept {k. P k} m1 m'" unfolding m' using release_where_spec by blast
  moreover have "\<not> P k" using assms(5,6) by (auto simp: P_def)
  ultimately show ?thesis using m1 others_kept_sel(5,6) [of "{k. P k}" m1 m' k] by simp
qed

text \<open>C25: a released port stays reserved for its previous owner until the grace period ends: whatever
  other servers do meanwhile and however often the manager sweeps, when the owner registers the server
  again and the port can be listened on, its side port gets the same public port.\<close>

theorem port_returns:
  assumes "mg_inv m" and "mg_enabled m" and "map_of (mg_by_key m) k = Some i"
    and "bd_held (mg_heap m ! i) = Some u" and "\<forall>x \<in> set ops. foreign_op (sk_server k) u x"
    and "valid_server srv" and "sv_id srv = sk_server k" and "sv_owner srv = bd_owner (mg_heap m ! i)"
    and "p \<in> set (sv_side_ports srv)" and "side_key_of srv p = k" and "os (sk_protocol k) (bd_public (mg_heap m ! i))"
  shows "\<exists>m1 out m2. mg_run ops m = Some m1 \<and> mg_sync os now srv m1 = Some (out, m2)
    \<and> (\<exists>q \<in> set out. sp_name q = sp_name p \<and> sp_port q = sp_port p
         \<and> sp_public q = Some \<lparr>pa_host = mg_public_host m2, pa_port = bd_public (mg_heap m ! i)\<rparr>)"
proof -
  have "reserved m k i (mg_heap m ! i) m" using assms(1,3) by (simp add: reserved_def)
  from reserved_run [OF this assms(4,5)] obtain m1
    where m1: "mg_run ops m = Some m1" "mg_inv m1" "mg_enabled m1" "map_of (mg_by_key m1) k = Some i"
      "mg_heap m1 ! i = mg_heap m ! i"
    using assms(2) by (auto simp: reserved_def)
  obtain out m2 where s: "mg_sync os now srv m1 = Some (out, m2)" using mg_sync_some [OF assms(6)] by blast
  have d: "distinct (map sp_name (sv_side_ports srv))" using assms(6) by (simp add: valid_server_def)
  have l: "list_all2 (synced srv m2) (sv_side_ports srv) out" by (rule mg_sync_spec(3) [OF m1(2,3) s d])
  obtain q where q: "q \<in> set out" "synced srv m2 p q"
    using list_all2_nthD [OF l] assms(9) list_all2_lengthD [OF l] by (metis in_set_conv_nth)
  have "map_of (mg_by_key m2) k = Some i \<and> bd_public (mg_heap m2 ! i) = bd_public (mg_heap m1 ! i)"
    by (rule sync_keeps [OF m1(2,3) s d assms(9,10) m1(4)]) (use m1(5) assms(8,11) in simp_all)
  then have "q = p\<lparr>sp_public := Some \<lparr>pa_host = mg_public_host m2, pa_port = bd_public (mg_heap m ! i)\<rparr>\<rparr>"
    using q(2) assms(10) m1(5) by (simp add: synced_def)
  then show ?thesis using m1(1) s q(1) by (intro exI conjI bexI [of _ q]) simp_all
qed

definition demo_held :: manager where
  "demo_held = the (mg_run [(1, M_sync (\<lambda>_ _. True) demo_voice), (3, M_release ''survival'')] demo_pool)"

definition demo_rival :: server where
  "demo_rival = demo_voice\<lparr>sv_id := ''creative'', sv_owner := ''bob''\<rparr>"

theorem port_returns_witness:
  "\<exists>m1 out m2. mg_run [(5, M_sync (\<lambda>_ _. True) demo_rival), (9, M_sweep None)] demo_held = Some m1
    \<and> mg_sync (\<lambda>_ _. True) 20 demo_voice m1 = Some (out, m2)
    \<and> (\<exists>q \<in> set out. sp_name q = sp_name (hd (sv_side_ports demo_voice)) \<and> sp_port q = sp_port (hd (sv_side_ports demo_voice))
         \<and> sp_public q = Some \<lparr>pa_host = mg_public_host m2, pa_port = bd_public (mg_heap demo_held ! 0)\<rparr>)"
proof (rule port_returns)
  have v: "valid_server demo_voice" by code_simp
  then have "\<forall>(t :: time, op) \<in> set [(1, M_sync (\<lambda>_ _. True) demo_voice), (3, M_release ''survival'')]. mg_op_ok op" by simp
  from mg_run_some [OF this new_manager_inv, of "''play.example''" 30000 30001 0] show "mg_inv demo_held"
    unfolding demo_held_def demo_pool_def by (metis option.sel)
  show "mg_enabled demo_held" "map_of (mg_by_key demo_held) (side_key_of demo_voice (hd (sv_side_ports demo_voice))) = Some 0"
    "bd_held (mg_heap demo_held ! 0) = Some 120000000003" by code_simp+
  have "valid_server demo_rival" "sv_id demo_rival \<noteq> sv_id demo_voice" by code_simp+
  then show "\<forall>x \<in> set [(5, M_sync (\<lambda>_ _. True) demo_rival), (9, M_sweep None)].
      foreign_op (sk_server (side_key_of demo_voice (hd (sv_side_ports demo_voice)))) 120000000003 x"
    by (simp add: side_key_of_def)
  show "valid_server demo_voice" by (rule v)
  show "sv_owner demo_voice = bd_owner (mg_heap demo_held ! 0)"
    "hd (sv_side_ports demo_voice) \<in> set (sv_side_ports demo_voice)" by code_simp+
qed (simp_all add: side_key_of_def)

text \<open>A side port is refused a public port only if every port of the pool is bound already, was
  found broken less than a minute ago, or cannot be listened on.\<close>

theorem no_port_justified:
  assumes "assign os now k owner preferred m = Some (None, m')" and "mg_inv m"
    and "mg_min_port m \<le> port" and "port \<le> mg_max_port m" and "known_protocol (sk_protocol k)"
  shows "(\<exists>i. map_of (mg_by_port m) (sk_protocol k, port) = Some i)
    \<or> (\<exists>t. map_of (mg_broken m) (sk_protocol k, port) = Some t \<and> now < t) \<or> \<not> os (sk_protocol k) port"
proof (rule ccontr)
  assume free: "\<not> ?thesis"
  obtain m1 where r: "reuse os k owner m = (None, m1)"
    and t: "try_ports os now k owner (preferred # [mg_min_port m1 .. mg_max_port m1]) m1 = Some (None, m')"
    using assms(1) by (auto simp: assign_def split: prod.splits option.splits)
  have m1: "mg_min_port m1 = mg_min_port m" "mg_max_port m1 = mg_max_port m" "mg_broken m1 = mg_broken m"
    "\<And>pp. map_of (mg_by_port m) pp = None \<Longrightarrow> map_of (mg_by_port m1) pp = None"
    using r by (auto simp: reuse_def mg_drop_def Let_def split: option.splits if_splits)
  have "try_ports os now k owner ports m2 \<noteq> Some (None, m')"
    if "port \<in> set ports" "map_of (mg_by_port m2) (sk_protocol k, port) = None"
      "\<not> (\<exists>t. map_of (mg_broken m2) (sk_protocol k, port) = Some t \<and> now < t)"
      "mg_min_port m2 \<le> port" "port \<le> mg_max_port m2" for ports m2
    using that
  proof (induction ports arbitrary: m2)
    case (Cons a ports)
    show ?case
    proof (cases "a = port")
      case True
      then show ?thesis using Cons.prems free assms(5)
        by (auto simp: try_port_def Let_def open_ok_def split: option.splits)
    next
      case False
      then show ?thesis using Cons
        by (auto simp: try_port_def Let_def split: option.splits if_splits)
    qed
  qed simp
  from this [of "preferred # [mg_min_port m1 .. mg_max_port m1]" m1] show False
    using t m1 free assms(3,4) by auto
qed

theorem no_port_justified_witness:
  "\<not> (\<lambda>_ port. port = 30002) ''tcp'' (30000 :: int)"
proof -
  have "assign (\<lambda>_ port. port = 30002) 5 \<lparr>sk_server = ''s'', sk_name = ''map'', sk_protocol = ''tcp''\<rparr> ''bob'' 0 demo_pool
      = Some (None, snd (the (assign (\<lambda>_ port. port = 30002) 5
          \<lparr>sk_server = ''s'', sk_name = ''map'', sk_protocol = ''tcp''\<rparr> ''bob'' 0 demo_pool)))"
    by code_simp
  from no_port_justified [OF this, of 30000] show ?thesis
    by (simp add: demo_pool_def new_manager_inv known_protocol_def)
qed

end
