(* ===== verification/Net_Addr.thy ===== *)
theory Net_Addr
  imports Strs
begin

text \<open>
  What the gateway uses of Go's package net: IP addresses as 4 or 16 bytes with the conversions
  \<^verbatim>\<open>To4\<close> and \<^verbatim>\<open>To16\<close>, TCP addresses, and the 12-byte signature that opens a PROXY protocol v2 header
  (\<^verbatim>\<open>proxyV2Sig\<close> in \<^verbatim>\<open>internal/router/proxyproto.go\<close>, \<^verbatim>\<open>signature\<close> in \<^verbatim>\<open>internal/guard/guard.go\<close>).
\<close>

type_synonym ip = "byte list"

record tcp_addr =
  ta_ip :: ip
  ta_port :: int

text \<open>A \<^verbatim>\<open>net.Addr\<close>: a \<^verbatim>\<open>*net.TCPAddr\<close> or something else.\<close>

datatype net_addr = Tcp tcp_addr | Other_addr

definition v4_in_v6 :: "byte list" where
  "v4_in_v6 = replicate 10 0 @ [0xff, 0xff]"

definition to4 :: "ip \<Rightarrow> ip option" where
  "to4 a =
     (if length a = 4 then Some a
      else if length a = 16 \<and> take 12 a = v4_in_v6 then Some (drop 12 a)
      else None)"

text \<open>\<^verbatim>\<open>To16\<close>; the nil slice it returns for any other length is the empty list.\<close>

definition to16 :: "ip \<Rightarrow> ip" where
  "to16 a = (if length a = 4 then v4_in_v6 @ a else if length a = 16 then a else [])"

definition ip_ok :: "ip \<Rightarrow> bool" where
  "ip_ok a \<longleftrightarrow> length a = 4 \<or> length a = 16"

definition proxyV2Sig :: "byte list" where
  "proxyV2Sig = [0x0d, 0x0a, 0x0d, 0x0a, 0x00, 0x0d, 0x0a, 0x51, 0x55, 0x49, 0x54, 0x0a]"

text \<open>
  How an address pair is announced: in 4 bytes each if both are IPv4, in 16 bytes each otherwise.
\<close>

definition both_v4 :: "ip \<Rightarrow> ip \<Rightarrow> bool" where
  "both_v4 s d \<longleftrightarrow> to4 s \<noteq> None \<and> to4 d \<noteq> None"

definition wire_ip :: "ip \<Rightarrow> ip \<Rightarrow> ip \<Rightarrow> ip" where
  "wire_ip s d a = (if both_v4 s d then the (to4 a) else to16 a)"

text \<open>The address block of a PROXY v2 header: both addresses, then both ports.\<close>

definition addr_block :: "tcp_addr \<Rightarrow> tcp_addr \<Rightarrow> byte list" where
  "addr_block s d =
     wire_ip (ta_ip s) (ta_ip d) (ta_ip s) @ wire_ip (ta_ip s) (ta_ip d) (ta_ip d)
     @ be_int 2 (ta_port s) @ be_int 2 (ta_port d)"

definition ip_len :: "ip \<Rightarrow> ip \<Rightarrow> nat" where
  "ip_len s d = (if both_v4 s d then 4 else 16)"

lemma length_proxyV2Sig [simp]: "length proxyV2Sig = 12"
  by (simp add: proxyV2Sig_def)

lemma length_to4: "to4 a = Some b \<Longrightarrow> length b = 4"
  by (auto simp: to4_def split: if_splits)

lemma length_to16: "ip_ok a \<Longrightarrow> length (to16 a) = 16"
  by (auto simp: to16_def ip_ok_def v4_in_v6_def)

lemma length_wire_ip [simp]:
  "ip_ok s \<Longrightarrow> ip_ok d \<Longrightarrow> length (wire_ip s d s) = ip_len s d"
  "ip_ok s \<Longrightarrow> ip_ok d \<Longrightarrow> length (wire_ip s d d) = ip_len s d"
  by (auto simp: wire_ip_def ip_len_def both_v4_def length_to16 length_to4)

lemma length_addr_block:
  "ip_ok (ta_ip s) \<Longrightarrow> ip_ok (ta_ip d) \<Longrightarrow> length (addr_block s d) = 2 * ip_len (ta_ip s) (ta_ip d) + 4"
  by (simp add: addr_block_def)

text \<open>Reading an address block back.\<close>

lemma addr_block_fields:
  assumes "ip_ok (ta_ip s)" and "ip_ok (ta_ip d)" and "0 \<le> ta_port s" "ta_port s < 65536" "0 \<le> ta_port d" "ta_port d < 65536"
  defines "n \<equiv> ip_len (ta_ip s) (ta_ip d)" and "b \<equiv> addr_block s d"
  shows "take n (b @ x) = wire_ip (ta_ip s) (ta_ip d) (ta_ip s)"
    "take n (drop n (b @ x)) = wire_ip (ta_ip s) (ta_ip d) (ta_ip d)"
    "int (be_dec (take 2 (drop (2 * n) (b @ x)))) = ta_port s"
    "int (be_dec (take 2 (drop (2 * n + 2) (b @ x)))) = ta_port d"
proof -
  note l = length_wire_ip [OF assms(1,2), folded n_def]
  have port: "int (be_dec (be_int 2 p)) = p" if "0 \<le> p" "p < 65536" for p
    using that by (simp add: be_dec_int)
  show "take n (b @ x) = wire_ip (ta_ip s) (ta_ip d) (ta_ip s)"
    "take n (drop n (b @ x)) = wire_ip (ta_ip s) (ta_ip d) (ta_ip d)"
    by (simp_all add: b_def addr_block_def l)
  have "drop (2 * n) (b @ x) = be_int 2 (ta_port s) @ be_int 2 (ta_port d) @ x"
    "drop (2 * n + 2) (b @ x) = be_int 2 (ta_port d) @ x"
    by (simp_all add: b_def addr_block_def l)
  then show "int (be_dec (take 2 (drop (2 * n) (b @ x)))) = ta_port s"
    "int (be_dec (take 2 (drop (2 * n + 2) (b @ x)))) = ta_port d"
    using assms(3-6) by (simp_all add: port)
qed

end
