(* ===== verification/Proxy_Proto.thy ===== *)
theory Proxy_Proto
  imports Net_Addr
begin

text \<open>
  \<^verbatim>\<open>internal/router/proxyproto.go\<close>: the PROXY protocol header that a proxy in front of the gateway puts
  before a connection, and the version 2 header the gateway sends to backends. The buffered reader is
  the list of bytes to come; its buffer of 4096 bytes bounds the line of a version 1 header. The
  parameter \<open>parse_ip\<close> is \<^verbatim>\<open>net.ParseIP\<close>.

  The lemmas show that a header the gateway writes is read back to the source address and consumed
  exactly, and that no byte after a version 2 header is touched whatever it contains.
\<close>

section \<open>Definitions\<close>

datatype proxy_err =
    Px_eof | Px_missing | Px_v1_line | Px_v1_malformed | Px_v1_source
  | Px_v2_version | Px_v2_short_v4 | Px_v2_short_v6

type_synonym 'a proxy_reader = "byte list \<Rightarrow> proxy_err + 'a \<times> byte list"

definition read_full :: "nat \<Rightarrow> byte list proxy_reader" where
  "read_full n bs = (if length bs < n then Inl Px_eof else Inr (take n bs, drop n bs))"

text \<open>\<^verbatim>\<open>ReadSlice('\n')\<close> on the router's buffer.\<close>

definition read_line :: "byte list proxy_reader" where
  "read_line bs =
     (let pre = takeWhile (\<lambda>b. b \<noteq> 0x0a) bs in
      if length pre = length bs \<or> length pre \<ge> 4096 then Inl Px_v1_line
      else Inr (take (Suc (length pre)) bs, drop (Suc (length pre)) bs))"

definition read_proxy_v1 :: "(string \<Rightarrow> ip option) \<Rightarrow> tcp_addr option proxy_reader" where
  "read_proxy_v1 parse_ip bs =
     sum_bind (read_line bs) (\<lambda>(line, rest).
       let f = Strs.fields (trim_space (str line)) in
       if length f \<ge> 2 \<and> f ! 1 = ''UNKNOWN'' then Inr (None, rest)
       else if length f \<noteq> 6 then Inl Px_v1_malformed
       else case (parse_ip (f ! 2), parse_int (f ! 4)) of
              (Some a, Some p) \<Rightarrow> Inr (Some \<lparr>ta_ip = a, ta_port = p\<rparr>, rest)
            | _ \<Rightarrow> Inl Px_v1_source)"

definition read_proxy_v2 :: "tcp_addr option proxy_reader" where
  "read_proxy_v2 bs =
     sum_bind (read_full 16 bs) (\<lambda>(hdr, rest).
       let ver_cmd = hdr ! 12; fam = hdr ! 13; n = be_dec (take 2 (drop 14 hdr)) in
       sum_bind (read_full n rest) (\<lambda>(body, rest).
         if unat ver_cmd div 16 \<noteq> 2 then Inl Px_v2_version
         else if unat ver_cmd mod 16 = 0 then Inr (None, rest)
         else if unat fam div 16 = 1 then
           (if length body < 12 then Inl Px_v2_short_v4
            else Inr (Some \<lparr>ta_ip = take 4 body, ta_port = int (be_dec (take 2 (drop 8 body)))\<rparr>, rest))
         else if unat fam div 16 = 2 then
           (if length body < 36 then Inl Px_v2_short_v6
            else Inr (Some \<lparr>ta_ip = take 16 body, ta_port = int (be_dec (take 2 (drop 32 body)))\<rparr>, rest))
         else Inr (None, rest)))"

definition read_proxy_header :: "(string \<Rightarrow> ip option) \<Rightarrow> tcp_addr option proxy_reader" where
  "read_proxy_header parse_ip bs =
     (if length bs < 12 then Inl Px_eof
      else if take 12 bs = proxyV2Sig then read_proxy_v2 bs
      else if take 6 bs = bytes ''PROXY '' then read_proxy_v1 parse_ip bs
      else Inl Px_missing)"

definition proxy_v2_header :: "net_addr \<Rightarrow> net_addr \<Rightarrow> byte list" where
  "proxy_v2_header src dst =
     (case (src, dst) of
        (Tcp s, Tcp d) \<Rightarrow>
          proxyV2Sig
          @ (case (to4 (ta_ip s), to4 (ta_ip d)) of
               (Some s4, Some d4) \<Rightarrow> [0x21, 0x11, 0x00, 12] @ s4 @ d4
             | _ \<Rightarrow> [0x21, 0x21, 0x00, 36] @ to16 (ta_ip s) @ to16 (ta_ip d))
          @ be_int 2 (ta_port s) @ be_int 2 (ta_port d)
      | _ \<Rightarrow> proxyV2Sig @ [0x20, 0x00, 0x00, 0x00])"

section \<open>Lemmas\<close>

definition fam_byte :: "ip \<Rightarrow> ip \<Rightarrow> byte" where
  "fam_byte s d = (if both_v4 s d then 0x11 else 0x21)"

lemma proxy_v2_header_eq:
  "proxy_v2_header (Tcp s) (Tcp d) =
     proxyV2Sig @ [0x21, fam_byte (ta_ip s) (ta_ip d)]
     @ [0, of_nat (2 * ip_len (ta_ip s) (ta_ip d) + 4)] @ addr_block s d"
  by (simp add: proxy_v2_header_def addr_block_def wire_ip_def both_v4_def ip_len_def fam_byte_def
      split: option.splits)

lemma read_full_append [simp]: "n = length xs \<Longrightarrow> read_full n (xs @ ys) = Inr (xs, ys)"
  by (simp add: read_full_def)

text \<open>A version 2 header in parts: signature, command and family, length, body.\<close>

lemma read_proxy_v2_parts:
  assumes "length body < 65536"
  shows "read_proxy_v2 (proxyV2Sig @ [vc, fam] @ be_enc 2 (length body) @ body @ rest) =
     (if unat vc div 16 \<noteq> 2 then Inl Px_v2_version
      else if unat vc mod 16 = 0 then Inr (None, rest)
      else if unat fam div 16 = 1 then
        (if length body < 12 then Inl Px_v2_short_v4
         else Inr (Some \<lparr>ta_ip = take 4 body, ta_port = int (be_dec (take 2 (drop 8 body)))\<rparr>, rest))
      else if unat fam div 16 = 2 then
        (if length body < 36 then Inl Px_v2_short_v6
         else Inr (Some \<lparr>ta_ip = take 16 body, ta_port = int (be_dec (take 2 (drop 32 body)))\<rparr>, rest))
      else Inr (None, rest))"
proof -
  define hdr where "hdr = proxyV2Sig @ [vc, fam] @ be_enc 2 (length body)"
  have h: "read_full 16 (hdr @ body @ rest) = Inr (hdr, body @ rest)"
    by (rule read_full_append) (simp add: hdr_def)
  have "hdr ! 12 = vc" "hdr ! 13 = fam" "take 2 (drop 14 hdr) = be_enc 2 (length body)"
    by (simp_all add: hdr_def nth_append)
  moreover have "be_dec (be_enc 2 (length body)) = length body"
    using assms by (simp add: be_dec_enc)
  ultimately have "read_proxy_v2 (hdr @ body @ rest) =
     (if unat vc div 16 \<noteq> 2 then Inl Px_v2_version
      else if unat vc mod 16 = 0 then Inr (None, rest)
      else if unat fam div 16 = 1 then
        (if length body < 12 then Inl Px_v2_short_v4
         else Inr (Some \<lparr>ta_ip = take 4 body, ta_port = int (be_dec (take 2 (drop 8 body)))\<rparr>, rest))
      else if unat fam div 16 = 2 then
        (if length body < 36 then Inl Px_v2_short_v6
         else Inr (Some \<lparr>ta_ip = take 16 body, ta_port = int (be_dec (take 2 (drop 32 body)))\<rparr>, rest))
      else Inr (None, rest))"
    unfolding read_proxy_v2_def h by (simp add: Let_def)
  then show ?thesis by (simp add: hdr_def)
qed

lemma read_proxy_header_v2:
  "read_proxy_header parse_ip (proxyV2Sig @ xs) = read_proxy_v2 (proxyV2Sig @ xs)"
  by (simp add: read_proxy_header_def)

text \<open>The address of a PROXY command is read from any body that starts with an address block.\<close>

lemma read_proxy_addr:
  assumes "ip_ok (ta_ip s)" and "ip_ok (ta_ip d)" and "0 \<le> ta_port s" and "ta_port s < 65536"
    and "0 \<le> ta_port d" and "ta_port d < 65536" and "length tlvs < 65000"
  shows "read_proxy_header parse_ip
      (proxyV2Sig @ [0x21, fam_byte (ta_ip s) (ta_ip d)] @ be_enc 2 (length (addr_block s d @ tlvs))
       @ (addr_block s d @ tlvs) @ rest)
     = Inr (Some \<lparr>ta_ip = wire_ip (ta_ip s) (ta_ip d) (ta_ip s), ta_port = ta_port s\<rparr>, rest)"
proof -
  define n where "n = ip_len (ta_ip s) (ta_ip d)"
  note l = length_addr_block [OF assms(1,2), folded n_def]
  note f = addr_block_fields [OF assms(1-6), folded n_def]
  have n: "n = 4 \<and> fam_byte (ta_ip s) (ta_ip d) = 0x11 \<or> n = 16 \<and> fam_byte (ta_ip s) (ta_ip d) = 0x21"
    by (simp add: n_def ip_len_def fam_byte_def)
  then have len: "length (addr_block s d @ tlvs) < 65536" using assms(7) by (auto simp: l)
  show ?thesis unfolding read_proxy_header_v2 read_proxy_v2_parts [OF len]
    using n f(1,3) [of tlvs] by (auto simp: l)
qed

lemma be_enc_lens: "be_enc 2 0 = [0, 0]" "be_enc 2 12 = [0, 12]" "be_enc 2 36 = [0, 36]"
  by code_simp+

section \<open>Properties\<close>

text \<open>What the gateway announces to a backend is what a PROXY protocol reader learns: reading back
  a header that announces a TCP connection gives the client's address and port, IPv4 in 4 bytes if
  both ends are IPv4 and in its 16-byte form otherwise, and leaves the rest of the stream untouched; a
  connection that is not TCP is announced without an address.\<close>

theorem proxy_header_roundtrip:
  assumes "ip_ok (ta_ip s)" and "ip_ok (ta_ip d)" and "0 \<le> ta_port s" and "ta_port s < 65536"
    and "0 \<le> ta_port d" and "ta_port d < 65536"
  shows "read_proxy_header parse_ip (proxy_v2_header (Tcp s) (Tcp d) @ rest)
      = Inr (Some \<lparr>ta_ip = wire_ip (ta_ip s) (ta_ip d) (ta_ip s), ta_port = ta_port s\<rparr>, rest)
    \<and> read_proxy_header parse_ip (proxy_v2_header Other_addr (Tcp d) @ rest) = Inr (None, rest)"
proof
  have "be_enc 2 (length (addr_block s d @ [])) = [0, of_nat (2 * ip_len (ta_ip s) (ta_ip d) + 4)]"
    by (simp add: length_addr_block [OF assms(1,2)] ip_len_def be_enc_lens del: be_enc.simps)
  then show "read_proxy_header parse_ip (proxy_v2_header (Tcp s) (Tcp d) @ rest)
      = Inr (Some \<lparr>ta_ip = wire_ip (ta_ip s) (ta_ip d) (ta_ip s), ta_port = ta_port s\<rparr>, rest)"
    using read_proxy_addr [OF assms, where tlvs = "[]" and parse_ip = parse_ip and rest = rest] by (simp add: proxy_v2_header_eq del: be_enc.simps)
  show "read_proxy_header parse_ip (proxy_v2_header Other_addr (Tcp d) @ rest) = Inr (None, rest)"
    using read_proxy_v2_parts [where body = "[]" and vc = "0x20" and fam = 0 and rest = rest]
    by (simp add: proxy_v2_header_def read_proxy_header_v2 be_enc_lens del: be_enc.simps)
qed

theorem proxy_header_roundtrip_witness:
  "read_proxy_header (\<lambda>_. None)
     (proxy_v2_header (Tcp \<lparr>ta_ip = [203, 0, 113, 9], ta_port = 50123\<rparr>) (Tcp \<lparr>ta_ip = [10, 0, 0, 7], ta_port = 25565\<rparr>)
      @ [0x10, 0x00]) = Inr (Some \<lparr>ta_ip = [203, 0, 113, 9], ta_port = 50123\<rparr>, [0x10, 0x00])"
  using proxy_header_roundtrip [of "\<lparr>ta_ip = [203, 0, 113, 9], ta_port = 50123\<rparr>"
      "\<lparr>ta_ip = [10, 0, 0, 7], ta_port = 25565\<rparr>" "\<lambda>_. None" "[0x10, 0x00]"]
  by (simp add: ip_ok_def wire_ip_def both_v4_def to4_def)

end
