(* ===== verification/Guard.thy ===== *)
theory Guard
  imports Proxy_Proto Cookie
begin

text \<open>
  \<^verbatim>\<open>internal/guard/guard.go\<close>: the signed PROXY v2 header that a guarded backend accepts connections by.
  SHA-256 and HMAC-SHA256 are the parameters \<open>sha\<close> and \<open>hmac\<close>; of HMAC only the length of a tag (32
  bytes) is used, as a hypothesis. Verification may be given a nonce cache, a function from a nonce
  and a state to the answer and the new state (\<^verbatim>\<open>seen\<close>). The panics for a nonce of the wrong length are
  the value \<open>None\<close>. A timestamp difference is the exact one, where \<^verbatim>\<open>Time.Sub\<close> saturates at 292 years.

  The lemmas show that a header verifies under the key it was built with within the allowed skew, that
  everything that verifies carries the tag over exactly the addresses it reports, that a nonce cache
  stops a second use, and that a reader of PROXY headers that knows nothing of guards sees the same
  client address.
\<close>

section \<open>Definitions\<close>

definition TLVType :: byte where
  "TLVType = 0xE0"

definition Version :: byte where
  "Version = 1"

definition NonceLen :: nat where
  "NonceLen = 12"

definition MACLen :: nat where
  "MACLen = 32"

definition MaxSkew :: duration where
  "MaxSkew = 120 * 1000000000"

definition MaxHeaderLen :: nat where
  "MaxHeaderLen = 16 + 1024"

definition tlvValueLen :: nat where
  "tlvValueLen = 1 + 8 + NonceLen + MACLen"

definition cmdLocal :: byte where
  "cmdLocal = 0x20"

definition cmdProxy :: byte where
  "cmdProxy = 0x21"

definition famUnspec :: byte where
  "famUnspec = 0x00"

definition famTCP4 :: byte where
  "famTCP4 = 0x11"

definition famTCP6 :: byte where
  "famTCP6 = 0x21"

definition macContext :: string where
  "macContext = ''vecta-guard-v1''"

definition keyContext :: string where
  "keyContext = ''vecta-guard-key-v1:''"

definition guard_key :: "(byte list \<Rightarrow> byte list) \<Rightarrow> string \<Rightarrow> byte list" where
  "guard_key sha secret = sha (bytes (keyContext @ secret))"

definition guard_mac :: "hmac \<Rightarrow> byte list \<Rightarrow> byte \<Rightarrow> byte \<Rightarrow> byte list \<Rightarrow> nat \<Rightarrow> byte list \<Rightarrow> byte list" where
  "guard_mac hmac key ver_cmd fam addr ts nonce =
     hmac key (bytes macContext @ [ver_cmd, fam] @ addr @ [Version] @ be_enc 8 ts @ nonce)"

text \<open>\<^verbatim>\<open>uint64(now.Unix())\<close> and back: \<^verbatim>\<open>int64(ts)\<close>.\<close>

definition unix_u64 :: "time \<Rightarrow> nat" where
  "unix_u64 now = nat (unix_sec now mod 2 ^ 64)"

definition i64 :: "nat \<Rightarrow> int" where
  "i64 ts = sint (word_of_nat ts :: 64 word)"

definition guard_build ::
  "hmac \<Rightarrow> byte list \<Rightarrow> byte \<Rightarrow> byte \<Rightarrow> byte list \<Rightarrow> time \<Rightarrow> byte list \<Rightarrow> byte list option" where
  "guard_build hmac key ver_cmd fam addr now nonce =
     (if length nonce \<noteq> NonceLen then None
      else let ts = unix_u64 now;
               tlv = [TLVType, 0, of_nat tlvValueLen, Version] @ be_enc 8 ts @ nonce
                     @ guard_mac hmac key ver_cmd fam addr ts nonce
           in Some (proxyV2Sig @ [ver_cmd, fam] @ be_enc 2 (length addr + length tlv) @ addr @ tlv))"

definition local_header :: "hmac \<Rightarrow> byte list \<Rightarrow> time \<Rightarrow> byte list \<Rightarrow> byte list option" where
  "local_header hmac key now nonce = guard_build hmac key cmdLocal famUnspec [] now nonce"

definition guard_header ::
  "hmac \<Rightarrow> byte list \<Rightarrow> net_addr \<Rightarrow> net_addr \<Rightarrow> time \<Rightarrow> byte list \<Rightarrow> byte list option" where
  "guard_header hmac key src dst now nonce =
     (case (src, dst) of
        (Tcp s, Tcp d) \<Rightarrow>
          (let (fam, addr) =
                 (case (to4 (ta_ip s), to4 (ta_ip d)) of
                    (Some s4, Some d4) \<Rightarrow> (famTCP4, s4 @ d4)
                  | _ \<Rightarrow> (famTCP6, to16 (ta_ip s) @ to16 (ta_ip d)))
           in guard_build hmac key cmdProxy fam (addr @ be_int 2 (ta_port s) @ be_int 2 (ta_port d)) now nonce)
      | _ \<Rightarrow> local_header hmac key now nonce)"

datatype guard_err =
    G_eof | G_not_v2 | G_too_long nat | G_length | G_command byte byte | G_short_addr
  | G_tlv_truncated | G_tlv_duplicate | G_tlv_missing | G_signature | G_skew int | G_replay

definition read_guard_header :: "byte list \<Rightarrow> guard_err + byte list \<times> byte list" where
  "read_guard_header bs =
     (if length bs < 16 then Inl G_eof
      else let hdr = take 16 bs; n = be_dec (take 2 (drop 14 hdr)) in
        if take 12 hdr \<noteq> proxyV2Sig then Inl G_not_v2
        else if 16 + n > MaxHeaderLen then Inl (G_too_long n)
        else if length bs < 16 + n then Inl G_eof
        else Inr (take (16 + n) bs, drop (16 + n) bs))"

record guard_result =
  gr_local :: bool
  gr_src :: "tcp_addr option"
  gr_dst :: "tcp_addr option"

text \<open>The loop over the TLVs; \<open>value\<close> is the signature TLV found so far.\<close>

function guard_tlvs :: "byte list option \<Rightarrow> byte list \<Rightarrow> guard_err + byte list option" where
  "guard_tlvs v tlvs =
     (if tlvs = [] then Inr v
      else if length tlvs < 3 then Inl G_tlv_truncated
      else let t = tlvs ! 0; l = be_dec (take 2 (drop 1 tlvs)) in
        if length tlvs < 3 + l then Inl G_tlv_truncated
        else if t = TLVType \<and> v \<noteq> None then Inl G_tlv_duplicate
        else guard_tlvs (if t = TLVType then Some (take l (drop 3 tlvs)) else v) (drop (3 + l) tlvs))"
  by pat_completeness auto
termination
  by (relation "measure (\<lambda>(v, tlvs). length tlvs)") auto

declare guard_tlvs.simps [simp del]

text \<open>The command and family a header may have, with the length of its address block.\<close>

definition addr_len :: "byte \<Rightarrow> byte \<Rightarrow> nat option" where
  "addr_len ver_cmd fam =
     (if ver_cmd = cmdLocal then Some 0
      else if ver_cmd = cmdProxy \<and> fam = famTCP4 then Some 12
      else if ver_cmd = cmdProxy \<and> fam = famTCP6 then Some 36
      else None)"

definition guard_verify ::
  "hmac \<Rightarrow> byte list \<Rightarrow> byte list \<Rightarrow> time \<Rightarrow> (byte list \<Rightarrow> 's \<Rightarrow> bool \<times> 's) option \<Rightarrow> 's
    \<Rightarrow> (guard_err + guard_result) \<times> 's" where
  "guard_verify hmac key header now seen st =
     (if length header < 16 \<or> take 12 header \<noteq> proxyV2Sig then (Inl G_not_v2, st)
      else let ver_cmd = header ! 12; fam = header ! 13; body = drop 16 header in
      if be_dec (take 2 (drop 14 header)) \<noteq> length body then (Inl G_length, st)
      else case addr_len ver_cmd fam of
        None \<Rightarrow> (Inl (G_command ver_cmd fam), st)
      | Some n \<Rightarrow>
      if length body < n then (Inl G_short_addr, st)
      else let addr = take n body in
      case guard_tlvs None (drop n body) of
        Inl e \<Rightarrow> (Inl e, st)
      | Inr v \<Rightarrow>
      let value = (case v of None \<Rightarrow> [] | Some v \<Rightarrow> v) in
      if length value \<noteq> tlvValueLen \<or> value ! 0 \<noteq> Version then (Inl G_tlv_missing, st)
      else let ts = be_dec (take 8 (drop 1 value)); nonce = take NonceLen (drop 9 value);
               got = drop (9 + NonceLen) value in
      if got \<noteq> guard_mac hmac key ver_cmd fam addr ts nonce then (Inl G_signature, st)
      else let d = now - i64 ts * 1000000000 in
      if d > MaxSkew \<or> d < - MaxSkew then (Inl (G_skew d), st)
      else let (replayed, st) = (case seen of None \<Rightarrow> (False, st) | Some f \<Rightarrow> f nonce st) in
      if replayed then (Inl G_replay, st)
      else if ver_cmd = cmdLocal then (Inr \<lparr>gr_local = True, gr_src = None, gr_dst = None\<rparr>, st)
      else let l = (if fam = famTCP6 then 16 else 4) in
        (Inr \<lparr>gr_local = False,
              gr_src = Some \<lparr>ta_ip = take l addr, ta_port = int (be_dec (take 2 (drop (2 * l) addr)))\<rparr>,
              gr_dst = Some \<lparr>ta_ip = take l (drop l addr), ta_port = int (be_dec (take 2 (drop (2 * l + 2) addr)))\<rparr>\<rparr>,
         st))"

section \<open>Lemmas\<close>

lemma guard_tlvs_one:
  assumes "length val = l" and "l < 65536"
  shows "guard_tlvs None ([TLVType] @ be_enc 2 l @ val) = Inr (Some val)"
proof -
  have "be_dec (be_enc 2 l) = l" using assms(2) by (simp add: be_dec_enc)
  moreover have "take 2 (drop 1 ([TLVType] @ be_enc 2 l @ val)) = be_enc 2 l" by simp
  ultimately show ?thesis
    using assms(1) by (subst guard_tlvs.simps) (simp add: guard_tlvs.simps [of _ "[]"] del: be_enc.simps)
qed

lemma unix_u64_less: "unix_u64 now < 2 ^ 64"
  by (simp add: unix_u64_def nat_less_iff)

lemma unix_u64_i64:
  assumes "- (2 ^ 63) \<le> unix_sec now" and "unix_sec now < 2 ^ 63"
  shows "i64 (unix_u64 now) = unix_sec now"
proof -
  have "(word_of_nat (unix_u64 now) :: 64 word) = word_of_int (unix_sec now mod 2 ^ 64)"
    by (simp add: unix_u64_def of_nat_nat)
  also have "\<dots> = word_of_int (unix_sec now)"
    by (simp add: word_uint_eq_iff uint_word_of_int)
  finally show ?thesis using assms
    by (simp add: i64_def sint_sbintrunc' signed_take_bit_int_eq_self)
qed

text \<open>The signed value of a header built for an address block, and what verification makes of it.\<close>

definition sig_value :: "hmac \<Rightarrow> byte list \<Rightarrow> byte \<Rightarrow> byte \<Rightarrow> byte list \<Rightarrow> time \<Rightarrow> byte list \<Rightarrow> byte list" where
  "sig_value hmac key ver_cmd fam addr now nonce =
     [Version] @ be_enc 8 (unix_u64 now) @ nonce @ guard_mac hmac key ver_cmd fam addr (unix_u64 now) nonce"

lemma guard_build_eq:
  assumes "length nonce = NonceLen" and "\<And>k m. length (hmac k m) = MACLen"
  shows "guard_build hmac key vc fam addr now nonce =
     Some (proxyV2Sig @ [vc, fam] @ be_enc 2 (length (addr @ [TLVType] @ be_enc 2 tlvValueLen @ sig_value hmac key vc fam addr now nonce))
       @ (addr @ [TLVType] @ be_enc 2 tlvValueLen @ sig_value hmac key vc fam addr now nonce))"
proof -
  have "be_enc 2 tlvValueLen = [0, of_nat tlvValueLen]" by code_simp
  then show ?thesis using assms
    by (simp add: guard_build_def sig_value_def guard_mac_def Let_def del: be_enc.simps)
qed

lemma length_sig_value:
  "length nonce = NonceLen \<Longrightarrow> (\<And>k m. length (hmac k m) = MACLen) \<Longrightarrow>
   length (sig_value hmac key vc fam addr now nonce) = tlvValueLen"
  by (simp add: sig_value_def guard_mac_def tlvValueLen_def)

text \<open>The result that verification reports for a PROXY command with this address block.\<close>

definition block_result :: "byte \<Rightarrow> byte list \<Rightarrow> guard_result" where
  "block_result fam addr =
     (let l = (if fam = famTCP6 then 16 else 4) in
      \<lparr>gr_local = False,
       gr_src = Some \<lparr>ta_ip = take l addr, ta_port = int (be_dec (take 2 (drop (2 * l) addr)))\<rparr>,
       gr_dst = Some \<lparr>ta_ip = take l (drop l addr), ta_port = int (be_dec (take 2 (drop (2 * l + 2) addr)))\<rparr>\<rparr>)"

definition cmd_result :: "byte \<Rightarrow> byte \<Rightarrow> byte list \<Rightarrow> guard_result" where
  "cmd_result vc fam addr =
     (if vc = cmdLocal then \<lparr>gr_local = True, gr_src = None, gr_dst = None\<rparr> else block_result fam addr)"

text \<open>What a verifier does with a nonce once the tag and the time are right.\<close>

definition nonce_check :: "(byte list \<Rightarrow> 's \<Rightarrow> bool \<times> 's) option \<Rightarrow> byte list \<Rightarrow> 's \<Rightarrow> bool \<times> 's" where
  "nonce_check seen nonce st = (case seen of None \<Rightarrow> (False, st) | Some f \<Rightarrow> f nonce st)"

lemma guard_verify_built:
  fixes now now' :: time
  assumes n: "length nonce = NonceLen" and mac: "\<And>k m. length (hmac k m) = MACLen"
    and al: "addr_len vc fam = Some (length addr)"
    and t: "- (2 ^ 63) \<le> unix_sec now" "unix_sec now < 2 ^ 63"
    and h: "guard_build hmac key vc fam addr now nonce = Some h"
  defines "d \<equiv> now' - unix_sec now * 1000000000"
  shows "guard_verify hmac key h now' seen st =
     (if d > MaxSkew \<or> d < - MaxSkew then (Inl (G_skew d), st)
      else if fst (nonce_check seen nonce st) then (Inl G_replay, snd (nonce_check seen nonce st))
      else (Inr (cmd_result vc fam addr), snd (nonce_check seen nonce st)))"
proof -
  define val where "val = sig_value hmac key vc fam addr now nonce"
  define body where "body = addr @ [TLVType] @ be_enc 2 tlvValueLen @ val"
  have len: "length val = tlvValueLen" unfolding val_def by (rule length_sig_value [OF n mac])
  have small: "length body < 65536"
    using al len by (auto simp: body_def addr_len_def tlvValueLen_def NonceLen_def MACLen_def split: if_splits)
  have h: "h = proxyV2Sig @ [vc, fam] @ be_enc 2 (length body) @ body"
    using h unfolding guard_build_eq [OF n mac] by (simp add: body_def val_def del: be_enc.simps)
  have parts: "length h \<ge> 16" "take 12 h = proxyV2Sig" "h ! 12 = vc" "h ! 13 = fam" "drop 16 h = body"
    "take 2 (drop 14 h) = be_enc 2 (length body)"
    by (simp_all add: h nth_append del: be_enc.simps)
  have lb: "be_dec (be_enc 2 (length body)) = length body" using small by (simp add: be_dec_enc del: be_enc.simps)
  have tl: "guard_tlvs None (drop (length addr) body) = Inr (Some val)"
    unfolding body_def using guard_tlvs_one [OF len] by (simp add: tlvValueLen_def NonceLen_def MACLen_def del: be_enc.simps)
  have v: "val ! 0 = Version" "take 8 (drop 1 val) = be_enc 8 (unix_u64 now)" "take NonceLen (drop 9 val) = nonce"
    "drop (9 + NonceLen) val = guard_mac hmac key vc fam addr (unix_u64 now) nonce"
    using n by (simp_all add: val_def sig_value_def NonceLen_def del: be_enc.simps)
  have ts: "be_dec (be_enc 8 (unix_u64 now)) = unix_u64 now"
    using unix_u64_less [of now] by (simp add: be_dec_enc del: be_enc.simps)
  have ta: "take (length addr) body = addr" "\<not> length body < length addr" by (simp_all add: body_def)
  show ?thesis
    unfolding guard_verify_def Let_def parts(2-6) lb al option.case ta tl sum.case v ts len unix_u64_i64 [OF t]
      nonce_check_def [symmetric] d_def [symmetric]
    using parts(1) by (auto simp: ta cmd_result_def block_result_def Let_def split: prod.splits)
qed

lemma guard_header_eq:
  "guard_header hmac key (Tcp s) (Tcp d) now nonce =
     guard_build hmac key cmdProxy (fam_byte (ta_ip s) (ta_ip d)) (addr_block s d) now nonce"
  by (auto simp: guard_header_def addr_block_def wire_ip_def both_v4_def fam_byte_def famTCP4_def famTCP6_def
      split: option.splits)

lemma addr_len_fam:
  "ip_ok (ta_ip s) \<Longrightarrow> ip_ok (ta_ip d) \<Longrightarrow>
   addr_len cmdProxy (fam_byte (ta_ip s) (ta_ip d)) = Some (length (addr_block s d))"
  by (simp add: length_addr_block addr_len_def fam_byte_def ip_len_def cmdProxy_def cmdLocal_def
      famTCP4_def famTCP6_def)

lemma block_result_addr:
  assumes "ip_ok (ta_ip s)" and "ip_ok (ta_ip d)" and "0 \<le> ta_port s" and "ta_port s < 65536"
    and "0 \<le> ta_port d" and "ta_port d < 65536"
  shows "cmd_result cmdProxy (fam_byte (ta_ip s) (ta_ip d)) (addr_block s d) =
     \<lparr>gr_local = False,
      gr_src = Some \<lparr>ta_ip = wire_ip (ta_ip s) (ta_ip d) (ta_ip s), ta_port = ta_port s\<rparr>,
      gr_dst = Some \<lparr>ta_ip = wire_ip (ta_ip s) (ta_ip d) (ta_ip d), ta_port = ta_port d\<rparr>\<rparr>"
proof -
  have l: "(if fam_byte (ta_ip s) (ta_ip d) = famTCP6 then 16 else 4) = ip_len (ta_ip s) (ta_ip d)"
    by (simp add: fam_byte_def famTCP6_def ip_len_def)
  show ?thesis
    using addr_block_fields [OF assms, of "[]"]
    by (simp add: cmd_result_def cmdProxy_def cmdLocal_def block_result_def l Let_def)
qed

text \<open>What the TLV loop returns stands in the bytes it read.\<close>

lemma guard_tlvs_infix:
  "guard_tlvs v tlvs = Inr w \<Longrightarrow> w = v \<or> (\<exists>a b. \<exists>x. w = Some x \<and> tlvs = a @ x @ b)"
proof (induction v tlvs rule: guard_tlvs.induct)
  case (1 v tlvs)
  show ?case
  proof (cases "tlvs = []")
    case True
    then show ?thesis using "1.prems" by (simp add: guard_tlvs.simps)
  next
    case False
    define l where "l = be_dec (take 2 (drop 1 tlvs))"
    define v' where "v' = (if tlvs ! 0 = TLVType then Some (take l (drop 3 tlvs)) else v)"
    have c: "\<not> length tlvs < 3" "\<not> length tlvs < 3 + l" "\<not> (tlvs ! 0 = TLVType \<and> v \<noteq> None)"
      and rec: "guard_tlvs v' (drop (3 + l) tlvs) = Inr w"
      using "1.prems" False
      by (auto simp: guard_tlvs.simps [of v tlvs] Let_def l_def v'_def split: if_splits)
    have split: "tlvs = take 3 tlvs @ take l (drop 3 tlvs) @ drop (3 + l) tlvs"
      by (metis add.commute append_take_drop_id drop_drop)
    note IH = "1.IH" [OF False c(1) refl refl c(2) [unfolded l_def] c(3), folded l_def, folded v'_def]
    from IH [OF rec] show ?thesis
    proof (elim disjE exE conjE)
      assume "w = v'"
      then show ?thesis using split by (auto simp: v'_def)
    next
      fix a b x
      assume w: "w = Some x" and d: "drop (3 + l) tlvs = a @ x @ b"
      have "tlvs = (take 3 tlvs @ take l (drop 3 tlvs) @ a) @ x @ b"
        using split unfolding d by simp
      then show ?thesis using w by blast
    qed
  qed
qed

section \<open>Properties\<close>

text \<open>A header the gateway builds verifies under the same key: whenever the verifier's clock is within
  120 seconds and the nonce is new, the result names the client's and the backend's addresses; with
  a clock further off the header is refused, and with a nonce the cache has seen it is a replay.\<close>

theorem guard_roundtrip:
  fixes now now' :: time
  assumes "length nonce = NonceLen" and "\<And>k m. length (hmac k m) = MACLen"
    and "- (2 ^ 63) \<le> unix_sec now" and "unix_sec now < 2 ^ 63"
    and "ip_ok (ta_ip s)" and "ip_ok (ta_ip d)" and "0 \<le> ta_port s" and "ta_port s < 65536"
    and "0 \<le> ta_port d" and "ta_port d < 65536"
    and "guard_header hmac key (Tcp s) (Tcp d) now nonce = Some h"
  shows "guard_verify hmac key h now' (Some seen) st =
     (if \<bar>now' - unix_sec now * 1000000000\<bar> > MaxSkew
      then (Inl (G_skew (now' - unix_sec now * 1000000000)), st)
      else if fst (seen nonce st) then (Inl G_replay, snd (seen nonce st))
      else (Inr \<lparr>gr_local = False,
                 gr_src = Some \<lparr>ta_ip = wire_ip (ta_ip s) (ta_ip d) (ta_ip s), ta_port = ta_port s\<rparr>,
                 gr_dst = Some \<lparr>ta_ip = wire_ip (ta_ip s) (ta_ip d) (ta_ip d), ta_port = ta_port d\<rparr>\<rparr>,
            snd (seen nonce st)))"
  using guard_verify_built [OF assms(1,2) addr_len_fam [OF assms(5,6)] assms(3,4) assms(11) [unfolded guard_header_eq],
      where seen = "Some seen" and st = st and now' = now']
  by (auto simp: nonce_check_def block_result_addr [OF assms(5-10)] abs_le_iff not_less)

definition toy_mac :: hmac where
  "toy_mac key msg = replicate 31 (of_nat (length key)) @ [foldl (+) 0 msg]"

definition demo_src :: tcp_addr where
  "demo_src = \<lparr>ta_ip = [203, 0, 113, 9], ta_port = 50123\<rparr>"

definition demo_dst :: tcp_addr where
  "demo_dst = \<lparr>ta_ip = [10, 0, 0, 7], ta_port = 25565\<rparr>"

definition demo_header :: "byte list" where
  "demo_header = the (guard_header toy_mac [1, 2, 3] (Tcp demo_src) (Tcp demo_dst) 1700000000000000000 (replicate 12 7))"

lemma demo_guard:
  "length (replicate 12 7 :: byte list) = NonceLen"
  "length (toy_mac k m) = MACLen"
  "- (2 ^ 63) \<le> unix_sec 1700000000000000000" "unix_sec 1700000000000000000 < 2 ^ 63"
  "unix_sec 1700000000000000000 = 1700000000"
  "wire_ip (ta_ip demo_src) (ta_ip demo_dst) (ta_ip demo_src) = ta_ip demo_src"
  "wire_ip (ta_ip demo_src) (ta_ip demo_dst) (ta_ip demo_dst) = ta_ip demo_dst"
  by (code_simp, simp add: toy_mac_def MACLen_def, code_simp+)

lemma demo_addr:
  "ip_ok (ta_ip demo_src)" "ip_ok (ta_ip demo_dst)" "0 \<le> ta_port demo_src" "ta_port demo_src < 65536"
  "0 \<le> ta_port demo_dst" "ta_port demo_dst < 65536"
  by code_simp+

lemma demo_built:
  "guard_header toy_mac [1, 2, 3] (Tcp demo_src) (Tcp demo_dst) 1700000000000000000 (replicate 12 7) = Some demo_header"
  unfolding demo_header_def guard_header_eq guard_build_eq [OF demo_guard(1,2)] option.sel ..

theorem guard_roundtrip_witness:
  "fst (guard_verify toy_mac [1, 2, 3] demo_header 1700000060000000000
      (Some (\<lambda>n seen. (n \<in> set seen, n # seen))) []) =
    Inr \<lparr>gr_local = False, gr_src = Some demo_src, gr_dst = Some demo_dst\<rparr>"
  unfolding guard_roundtrip [OF demo_guard(1-4) demo_addr demo_built] demo_guard(5-7) by (simp add: MaxSkew_def)

text \<open>C8: nothing verifies that the key did not sign: an accepted header contains the tag over the
  command, the address block the result is read from, a timestamp within the allowed skew and a nonce
  that the cache, if there is one, had not seen.\<close>

theorem guard_sound:
  assumes "guard_verify hmac key h now seen st = (Inr res, st')"
  shows "\<exists>vc fam addr ts nonce a b. take 14 h = proxyV2Sig @ [vc, fam]
     \<and> addr_len vc fam = Some (length addr) \<and> take (length addr) (drop 16 h) = addr
     \<and> h = a @ guard_mac hmac key vc fam addr ts nonce @ b
     \<and> length nonce = NonceLen \<and> \<bar>now - i64 ts * 1000000000\<bar> \<le> MaxSkew
     \<and> nonce_check seen nonce st = (False, st') \<and> res = cmd_result vc fam addr"
proof -
  define vc fam body where "vc = h ! 12" and "fam = h ! 13" and "body = drop 16 h"
  have h: "\<not> length h < 16" "take 12 h = proxyV2Sig"
    using assms by (auto simp: guard_verify_def split: if_splits)
  obtain n where n: "addr_len vc fam = Some n" "\<not> length body < n"
    using assms h by (auto simp: guard_verify_def Let_def vc_def fam_def body_def split: if_splits option.splits)
  define addr where "addr = take n body"
  have la: "length addr = n" using n(2) by (simp add: addr_def)
  obtain v where v: "guard_tlvs None (drop n body) = Inr v"
    using assms h n
    by (auto simp: guard_verify_def Let_def vc_def fam_def body_def split: if_splits sum.splits)
  define val where "val = (case v of None \<Rightarrow> [] | Some v \<Rightarrow> v)"
  define ts nonce where "ts = be_dec (take 8 (drop 1 val))" and "nonce = take NonceLen (drop 9 val)"
  define d where "d = now - i64 ts * 1000000000"
  have lv: "length val = tlvValueLen" and got: "drop (9 + NonceLen) val = guard_mac hmac key vc fam addr ts nonce"
    and skew: "d \<le> MaxSkew" "- MaxSkew \<le> d" and nn: "nonce_check seen nonce st = (False, st')"
    and res: "res = cmd_result vc fam addr"
    using assms h n v
    by (auto simp: guard_verify_def Let_def vc_def [symmetric] fam_def [symmetric] body_def [symmetric]
        addr_def [symmetric] val_def [symmetric] ts_def [symmetric] nonce_def [symmetric] d_def [symmetric]
        nonce_check_def [symmetric] cmd_result_def block_result_def not_less simp del: One_nat_def split: if_splits prod.splits)
  have "val \<noteq> []" using lv by (auto simp: tlvValueLen_def)
  then obtain a b where "drop n body = a @ val @ b"
    using guard_tlvs_infix [OF v] by (auto simp: val_def split: option.splits)
  then have "h = take 16 h @ addr @ a @ val @ b"
    by (metis addr_def append_take_drop_id body_def)
  then have "h = (take 16 h @ addr @ a @ take (9 + NonceLen) val) @ guard_mac hmac key vc fam addr ts nonce @ b"
    by (metis append.assoc append_take_drop_id got)
  moreover have "take 14 h = proxyV2Sig @ [vc, fam]"
  proof -
    have "take 14 h = take 12 h @ [h ! 12, h ! 13]"
      using h(1) take_Suc_conv_app_nth [of 13 h] take_Suc_conv_app_nth [of 12 h] by (simp add: eval_nat_numeral)
    then show ?thesis by (simp add: h(2) vc_def fam_def)
  qed
  moreover have "length nonce = NonceLen" using lv by (simp add: nonce_def tlvValueLen_def)
  moreover have "\<bar>now - i64 ts * 1000000000\<bar> \<le> MaxSkew" using skew unfolding d_def by linarith
  moreover have "take (length addr) (drop 16 h) = addr" unfolding la by (simp add: addr_def body_def)
  ultimately show ?thesis using n(1) la nn res by blast
qed

theorem guard_sound_witness:
  "\<exists>vc fam addr ts nonce a b. take 14 demo_header = proxyV2Sig @ [vc, fam]
     \<and> addr_len vc fam = Some (length addr) \<and> take (length addr) (drop 16 demo_header) = addr
     \<and> demo_header = a @ guard_mac toy_mac [1, 2, 3] vc fam addr ts nonce @ b
     \<and> length nonce = NonceLen \<and> \<bar>1700000060000000000 - i64 ts * 1000000000\<bar> \<le> MaxSkew
     \<and> nonce_check None nonce () = (False, ())
     \<and> \<lparr>gr_local = False, gr_src = Some demo_src, gr_dst = Some demo_dst\<rparr> = cmd_result vc fam addr"
  using guard_verify_built [OF demo_guard(1,2) addr_len_fam [OF demo_addr(1,2)] demo_guard(3,4)
      demo_built [unfolded guard_header_eq], where seen = None and st = "()" and now' = 1700000060000000000]
  by (intro guard_sound)
    (simp add: demo_guard(5-7) nonce_check_def MaxSkew_def block_result_addr [OF demo_addr])

text \<open>The nonce a header carries.\<close>

definition header_nonce :: "byte list \<Rightarrow> byte list" where
  "header_nonce h =
     (case addr_len (h ! 12) (h ! 13) of
        None \<Rightarrow> []
      | Some n \<Rightarrow> (case guard_tlvs None (drop n (drop 16 h)) of
                    Inr (Some v) \<Rightarrow> take NonceLen (drop 9 v) | _ \<Rightarrow> []))"

lemma guard_verify_nonce:
  "guard_verify hmac key h now seen st = (Inr res, st') \<Longrightarrow> nonce_check seen (header_nonce h) st = (False, st')"
  by (auto simp: guard_verify_def Let_def header_nonce_def nonce_check_def [symmetric] tlvValueLen_def
      split: if_splits prod.splits option.splits sum.splits)

text \<open>A cache of nonces, as a guard keeps it.\<close>

definition nonce_cache :: "byte list \<Rightarrow> byte list list \<Rightarrow> bool \<times> byte list list" where
  "nonce_cache n seen = (n \<in> set seen, n # seen)"

text \<open>With a cache of nonces no header is accepted twice: once a guard has accepted it, it is refused
  at any later time, under any key, as long as the cache has not forgotten the nonce.\<close>

theorem guard_no_replay:
  assumes "guard_verify hmac key h now (Some nonce_cache) seen = (Inr res, seen')"
    and "set seen' \<subseteq> set later"
  shows "\<exists>e. fst (guard_verify hmac key' h now' (Some nonce_cache) later) = Inl e"
proof -
  have n: "header_nonce h \<in> set later"
    using guard_verify_nonce [OF assms(1)] assms(2) by (auto simp: nonce_check_def nonce_cache_def)
  show ?thesis
  proof (cases "guard_verify hmac key' h now' (Some nonce_cache) later")
    case (Pair r s)
    show ?thesis
    proof (cases r)
      case (Inr res')
      then show ?thesis using guard_verify_nonce [of hmac key' h now' "Some nonce_cache" later res' s] Pair n
        by (simp add: nonce_check_def nonce_cache_def)
    qed (simp add: Pair)
  qed
qed

theorem guard_no_replay_witness:
  "\<exists>e. fst (guard_verify toy_mac [1, 2, 3] demo_header 1700000061000000000 (Some nonce_cache) [replicate 12 7]) = Inl e"
proof (rule guard_no_replay)
  show "guard_verify toy_mac [1, 2, 3] demo_header 1700000060000000000 (Some nonce_cache) [] =
      (Inr \<lparr>gr_local = False, gr_src = Some demo_src, gr_dst = Some demo_dst\<rparr>, [replicate 12 7])"
    by code_simp
qed simp

text \<open>A signed header is a well-formed PROXY v2 header: the guard's reader takes exactly it off the
  stream, and a PROXY reader that ignores the signature learns the same client address and leaves the
  same rest.\<close>

theorem guard_header_framed:
  assumes "length nonce = NonceLen" and "\<And>k m. length (hmac k m) = MACLen"
    and "ip_ok (ta_ip s)" and "ip_ok (ta_ip d)" and "0 \<le> ta_port s" and "ta_port s < 65536"
    and "0 \<le> ta_port d" and "ta_port d < 65536"
    and "guard_header hmac key (Tcp s) (Tcp d) now nonce = Some h"
  shows "read_guard_header (h @ rest) = Inr (h, rest)
    \<and> read_proxy_header parse_ip (h @ rest)
      = Inr (Some \<lparr>ta_ip = wire_ip (ta_ip s) (ta_ip d) (ta_ip s), ta_port = ta_port s\<rparr>, rest)"
proof
  define fam where "fam = fam_byte (ta_ip s) (ta_ip d)"
  define tlv where "tlv = [TLVType] @ be_enc 2 tlvValueLen @ sig_value hmac key cmdProxy fam (addr_block s d) now nonce"
  define body where "body = addr_block s d @ tlv"
  have h: "h = proxyV2Sig @ [0x21, fam] @ be_enc 2 (length body) @ body"
    using assms(9) unfolding guard_header_eq guard_build_eq [OF assms(1,2)]
    by (simp add: body_def tlv_def fam_def cmdProxy_def del: be_enc.simps)
  have lt: "length tlv = 56"
    using length_sig_value [OF assms(1,2)] by (simp add: tlv_def tlvValueLen_def NonceLen_def MACLen_def del: be_enc.simps)
  have lb: "length body \<le> 92"
    using length_addr_block [OF assms(3,4)] by (simp add: body_def lt ip_len_def)
  have dec: "be_dec (be_enc 2 (length body)) = length body"
    using lb by (simp add: be_dec_enc del: be_enc.simps)
  have p: "take 16 (h @ rest) = proxyV2Sig @ [0x21, fam] @ be_enc 2 (length body)"
    "length h = 16 + length body"
    by (simp_all add: h del: be_enc.simps)
  show "read_guard_header (h @ rest) = Inr (h, rest)"
    unfolding read_guard_header_def p(1)
    using lb by (simp add: dec p(2) MaxHeaderLen_def Let_def del: be_enc.simps)
  show "read_proxy_header parse_ip (h @ rest)
      = Inr (Some \<lparr>ta_ip = wire_ip (ta_ip s) (ta_ip d) (ta_ip s), ta_port = ta_port s\<rparr>, rest)"
    using read_proxy_addr [OF assms(3-8), where tlvs = tlv and rest = rest and parse_ip = parse_ip] lt
    by (simp add: h body_def fam_def del: be_enc.simps)
qed

theorem guard_header_framed_witness:
  "read_guard_header (demo_header @ [0x10]) = Inr (demo_header, [0x10])
   \<and> read_proxy_header (\<lambda>_. None) (demo_header @ [0x10])
     = Inr (Some \<lparr>ta_ip = wire_ip (ta_ip demo_src) (ta_ip demo_dst) (ta_ip demo_src), ta_port = ta_port demo_src\<rparr>, [0x10])"
  by (rule guard_header_framed [OF demo_guard(1,2) demo_addr demo_built])

end
