(* ===== verification/Nbt.thy ===== *)
theory Nbt
  imports Codec
begin

text \<open>
  \<^verbatim>\<open>internal/proto/nbt.go\<close>: the NBT encoder. \<open>read_nbt\<close> is the reference: a parser of the NBT wire
  format as a client has it, which the lemmas show to recover every encoded value from its bytes and
  to leave what follows untouched. A Go value of a type on which the encoder panics does not exist in
  the datatype \<open>nbt\<close>; an \<^verbatim>\<open>int\<close> and an \<^verbatim>\<open>int32\<close> are written alike and are one constructor.
\<close>

section \<open>Values and tags\<close>

datatype nbt =
    N_str string
  | N_int int
  | N_bool bool
  | N_compound "(string \<times> nbt) list"
  | N_list "nbt list"
  | N_longs "int list"

definition tagEnd :: byte where
  "tagEnd = 0"

definition tagByte :: byte where
  "tagByte = 1"

definition tagInt :: byte where
  "tagInt = 3"

definition tagString :: byte where
  "tagString = 8"

definition tagList :: byte where
  "tagList = 9"

definition tagCompound :: byte where
  "tagCompound = 10"

definition tagLongArray :: byte where
  "tagLongArray = 12"

lemmas tag_defs = tagEnd_def tagByte_def tagInt_def tagString_def tagList_def tagCompound_def tagLongArray_def

fun tag_id :: "nbt \<Rightarrow> byte" where
  "tag_id (N_str _) = tagString"
| "tag_id (N_int _) = tagInt"
| "tag_id (N_bool _) = tagByte"
| "tag_id (N_compound _) = tagCompound"
| "tag_id (N_list _) = tagList"
| "tag_id (N_longs _) = tagLongArray"

section \<open>Encoding\<close>

text \<open>One rune in Java's modified UTF-8; a supplementary one as its two surrogates, 3 bytes each.\<close>

definition mutf8_three :: "nat \<Rightarrow> byte list" where
  "mutf8_three r = [of_nat (0xe0 + r div 4096), of_nat (0x80 + r div 64 mod 64), of_nat (0x80 + r mod 64)]"

definition mutf8_rune :: "rune \<Rightarrow> byte list" where
  "mutf8_rune r =
     (if r \<noteq> 0 \<and> r < 0x80 then [of_nat r]
      else if r < 0x800 then [of_nat (0xc0 + r div 64), of_nat (0x80 + r mod 64)]
      else if r < 0x10000 then mutf8_three r
      else mutf8_three (0xd800 + (r - 0x10000) div 1024) @ mutf8_three (0xdc00 + (r - 0x10000) mod 1024))"

definition mutf8 :: "string \<Rightarrow> byte list" where
  "mutf8 s = take 0xffff (concat (map mutf8_rune (runes (bytes s))))"

definition nbt_string :: "string \<Rightarrow> byte list" where
  "nbt_string s = be_enc 2 (length (mutf8 s)) @ mutf8 s"

fun nbt_bytes :: "nbt \<Rightarrow> byte list" where
  "nbt_bytes (N_str s) = nbt_string s"
| "nbt_bytes (N_int i) = be_int 4 i"
| "nbt_bytes (N_bool b) = [if b then 1 else 0]"
| "nbt_bytes (N_compound fs) =
     concat (map (\<lambda>(n, v). [tag_id v] @ nbt_string n @ nbt_bytes v) fs) @ [tagEnd]"
| "nbt_bytes (N_list vs) =
     (case vs of
        [] \<Rightarrow> [tagEnd] @ be_enc 4 0
      | v # _ \<Rightarrow> [tag_id v] @ be_enc 4 (length vs) @ concat (map nbt_bytes vs))"
| "nbt_bytes (N_longs xs) = be_enc 4 (length xs) @ concat (map (be_int 8) xs)"

definition network_nbt :: "nbt \<Rightarrow> byte list" where
  "network_nbt v = [tag_id v] @ nbt_bytes v"

definition named_root_nbt :: "(string \<times> nbt) list \<Rightarrow> byte list" where
  "named_root_nbt fs = [tagCompound, 0, 0] @ nbt_bytes (N_compound fs)"

definition compound_payload_nbt :: "byte list \<Rightarrow> bool \<Rightarrow> byte list" where
  "compound_payload_nbt payload named = [tagCompound] @ (if named then [0, 0] else []) @ payload"

section \<open>The wire format\<close>

text \<open>A parser of the payload of a tag, with fuel for the nesting; strings are their raw bytes.\<close>

definition take_exact :: "nat \<Rightarrow> byte list \<Rightarrow> (byte list \<times> byte list) option" where
  "take_exact n bs = (if length bs < n then None else Some (take n bs, drop n bs))"

definition read_nbt_string :: "byte list \<Rightarrow> (string \<times> byte list) option" where
  "read_nbt_string bs =
     Option.bind (take_exact 2 bs) (\<lambda>(l, bs). Option.bind (take_exact (be_dec l) bs) (\<lambda>(s, bs). Some (str s, bs)))"

definition signed :: "nat \<Rightarrow> nat \<Rightarrow> int" where
  "signed n v = (if int v < 2 ^ (8 * n - 1) then int v else int v - 2 ^ (8 * n))"

fun read_longs :: "nat \<Rightarrow> byte list \<Rightarrow> (int list \<times> byte list) option" where
  "read_longs 0 bs = Some ([], bs)"
| "read_longs (Suc n) bs =
     Option.bind (take_exact 8 bs) (\<lambda>(x, bs).
       Option.bind (read_longs n bs) (\<lambda>(xs, bs). Some (signed 8 (be_dec x) # xs, bs)))"

fun read_nbt :: "nat \<Rightarrow> byte \<Rightarrow> byte list \<Rightarrow> (nbt \<times> byte list) option"
  and read_fields :: "nat \<Rightarrow> byte list \<Rightarrow> ((string \<times> nbt) list \<times> byte list) option"
  and read_items :: "nat \<Rightarrow> byte \<Rightarrow> nat \<Rightarrow> byte list \<Rightarrow> (nbt list \<times> byte list) option" where
  "read_nbt 0 t bs = None"
| "read_nbt (Suc f) t bs =
     (if t = tagString then map_option (map_prod N_str id) (read_nbt_string bs)
      else if t = tagInt then map_option (map_prod (\<lambda>b. N_int (signed 4 (be_dec b))) id) (take_exact 4 bs)
      else if t = tagByte then map_option (map_prod (\<lambda>b. N_bool (b \<noteq> [0])) id) (take_exact 1 bs)
      else if t = tagCompound then map_option (map_prod N_compound id) (read_fields f bs)
      else if t = tagList
      then Option.bind (take_exact 1 bs) (\<lambda>(e, bs). Option.bind (take_exact 4 bs) (\<lambda>(n, bs).
             map_option (map_prod N_list id) (read_items f (hd e) (be_dec n) bs)))
      else if t = tagLongArray
      then Option.bind (take_exact 4 bs) (\<lambda>(n, bs). map_option (map_prod N_longs id) (read_longs (be_dec n) bs))
      else None)"
| "read_fields 0 bs = None"
| "read_fields (Suc f) bs =
     Option.bind (take_exact 1 bs) (\<lambda>(t, bs).
       if hd t = tagEnd then Some ([], bs)
       else Option.bind (read_nbt_string bs) (\<lambda>(n, bs).
              Option.bind (read_nbt f (hd t) bs) (\<lambda>(v, bs).
                map_option (map_prod (\<lambda>fs. (n, v) # fs) id) (read_fields f bs))))"
| "read_items 0 t n bs = None"
| "read_items (Suc f) t n bs =
     (if n = 0 then Some ([], bs)
      else Option.bind (read_nbt f t bs) (\<lambda>(v, bs).
             map_option (map_prod ((#) v) id) (read_items f t (n - 1) bs)))"

text \<open>What the wire keeps of a value, the values the wire can hold, and fuel enough to read one.\<close>

fun wire :: "nbt \<Rightarrow> nbt" where
  "wire (N_str s) = N_str (str (mutf8 s))"
| "wire (N_int i) = N_int (to_int32 i)"
| "wire (N_bool b) = N_bool b"
| "wire (N_compound fs) = N_compound (map (\<lambda>(n, v). (str (mutf8 n), wire v)) fs)"
| "wire (N_list vs) = N_list (map wire vs)"
| "wire (N_longs xs) = N_longs xs"

fun nbt_ok :: "nbt \<Rightarrow> bool" where
  "nbt_ok (N_compound fs) \<longleftrightarrow> list_all (\<lambda>(n, v). nbt_ok v) fs"
| "nbt_ok (N_list vs) \<longleftrightarrow>
     list_all nbt_ok vs \<and> list_all (\<lambda>v. tag_id v = tag_id (hd vs)) vs \<and> length vs < 2 ^ 32"
| "nbt_ok (N_longs xs) \<longleftrightarrow> list_all (\<lambda>x. - (2 ^ 63) \<le> x \<and> x < 2 ^ 63) xs \<and> length xs < 2 ^ 32"
| "nbt_ok _ \<longleftrightarrow> True"

fun nbt_fuel :: "nbt \<Rightarrow> nat" where
  "nbt_fuel (N_compound fs) = Suc (Suc (sum_list (map (\<lambda>(n, v). Suc (nbt_fuel v)) fs)))"
| "nbt_fuel (N_list vs) = Suc (Suc (sum_list (map (\<lambda>v. Suc (nbt_fuel v)) vs)))"
| "nbt_fuel _ = 1"

section \<open>Lemmas\<close>

lemma take_exact_append [simp]: "length a = n \<Longrightarrow> take_exact n (a @ b) = Some (a, b)"
  by (auto simp: take_exact_def)

lemma length_mutf8: "length (mutf8 s) < 65536"
  by (simp add: mutf8_def)

lemma read_nbt_string_bytes [simp]: "read_nbt_string (nbt_string s @ rest) = Some (str (mutf8 s), rest)"
  using length_mutf8 [of s]
  by (simp add: read_nbt_string_def nbt_string_def be_dec_enc del: be_enc.simps)

lemma mod_shift:
  fixes x h :: int
  assumes "0 < h"
  shows "(if x mod (2 * h) < h then x mod (2 * h) else x mod (2 * h) - 2 * h) = (x + h) mod (2 * h) - h"
proof -
  define m where "m = x mod (2 * h)"
  have m: "0 \<le> m" "m < 2 * h" using assms by (simp_all add: m_def)
  have "(x + h) mod (2 * h) = (m + h) mod (2 * h)" by (simp add: m_def mod_add_left_eq)
  also have "\<dots> = (if m < h then m + h else m - h)"
  proof (cases "m < h")
    case True
    then show ?thesis using m by (simp add: mod_pos_pos_trivial)
  next
    case False
    have "(m + h) mod (2 * h) = (m + h - 2 * h) mod (2 * h)"
      by (rule mod_pos_geq) (use False assms in auto)
    then show ?thesis using False m by (simp add: mod_pos_pos_trivial)
  qed
  finally show ?thesis by (auto simp: m_def)
qed

lemma signed_be_int:
  assumes "0 < n"
  shows "signed n (be_dec (be_int n x)) = (x + 2 ^ (8 * n - 1)) mod 2 ^ (8 * n) - 2 ^ (8 * n - 1)"
proof -
  define h :: int where "h = 2 ^ (8 * n - 1)"
  have h: "0 < h" "(2 :: int) ^ (8 * n) = 2 * h"
    using assms by (simp_all add: h_def flip: power_Suc)
  have p: "(256 :: int) ^ n = 2 ^ (8 * n)" "(256 :: nat) ^ n = 2 ^ (8 * n)"
    by (simp_all add: power_mult)
  have "nat (x mod 2 ^ (8 * n)) < 2 ^ (8 * n)" by (simp add: nat_less_iff)
  then have v: "int (be_dec (be_int n x)) = x mod 2 ^ (8 * n)"
    by (simp add: be_int_def be_dec_enc p)
  have "signed n (be_dec (be_int n x)) = (if x mod (2 * h) < h then x mod (2 * h) else x mod (2 * h) - 2 * h)"
    unfolding signed_def v h(2) h_def [symmetric] ..
  then show ?thesis unfolding h(2) h_def [symmetric] mod_shift [OF h(1)] .
qed

lemma signed_int32: "signed 4 (be_dec (be_int 4 i)) = to_int32 i"
  by (simp add: signed_be_int to_int32_def signed_take_bit_eq_take_bit_shift sint_sbintrunc'
      take_bit_eq_mod)

lemma signed_int64:
  "- (2 ^ 63) \<le> x \<Longrightarrow> x < 2 ^ 63 \<Longrightarrow> signed 8 (be_dec (be_int 8 x)) = x"
  by (simp add: signed_be_int mod_pos_pos_trivial)

lemma read_longs_bytes:
  "list_all (\<lambda>x. - (2 ^ 63) \<le> x \<and> x < 2 ^ 63) xs \<Longrightarrow>
   read_longs (length xs) (concat (map (be_int 8) xs) @ rest) = Some (xs, rest)"
  by (induction xs) (simp_all add: signed_int64)

lemma read_fields_bytes:
  assumes "\<And>n v f rest. (n, v) \<in> set fs \<Longrightarrow> nbt_fuel v \<le> f \<Longrightarrow>
      read_nbt f (tag_id v) (nbt_bytes v @ rest) = Some (wire v, rest)"
    and "Suc (sum_list (map (\<lambda>(n, v). Suc (nbt_fuel v)) fs)) \<le> f"
  shows "read_fields f (concat (map (\<lambda>(n, v). [tag_id v] @ nbt_string n @ nbt_bytes v) fs) @ tagEnd # rest)
     = Some (map (\<lambda>(n, v). (str (mutf8 n), wire v)) fs, rest)"
  using assms
proof (induction fs arbitrary: f)
  case Nil
  then obtain g where "f = Suc g" by (cases f) auto
  then show ?case using take_exact_append [of "[tagEnd]" 1 rest] by simp
next
  case (Cons x fs)
  obtain n v where x: "x = (n, v)" by (cases x)
  obtain g where f: "f = Suc g" using Cons.prems(2) by (cases f) auto
  define tl' where "tl' = concat (map (\<lambda>(n, v). [tag_id v] @ nbt_string n @ nbt_bytes v) fs) @ tagEnd # rest"
  have t: "take_exact 1 (tag_id v # nbt_string n @ nbt_bytes v @ tl') = Some ([tag_id v], nbt_string n @ nbt_bytes v @ tl')"
    using take_exact_append [of "[tag_id v]" 1] by simp
  have ne: "tag_id v \<noteq> tagEnd" by (cases v) (simp_all add: tag_defs)
  have v: "read_nbt g (tag_id v) (nbt_bytes v @ tl') = Some (wire v, tl')"
    using Cons.prems(1) [of n v g tl'] Cons.prems(2) by (simp add: x f)
  have "read_fields g tl' = Some (map (\<lambda>(n, v). (str (mutf8 n), wire v)) fs, rest)"
    unfolding tl'_def by (rule Cons.IH) (use Cons.prems in \<open>auto simp: x f\<close>)
  then show ?case using t ne v by (simp add: x f tl'_def [symmetric] del: append_assoc) (simp add: tl'_def)
qed

lemma read_items_bytes:
  assumes "\<And>v f rest. v \<in> set vs \<Longrightarrow> nbt_fuel v \<le> f \<Longrightarrow>
      read_nbt f (tag_id v) (nbt_bytes v @ rest) = Some (wire v, rest)"
    and "list_all (\<lambda>v. tag_id v = t) vs" and "Suc (sum_list (map (\<lambda>v. Suc (nbt_fuel v)) vs)) \<le> f"
  shows "read_items f t (length vs) (concat (map nbt_bytes vs) @ rest) = Some (map wire vs, rest)"
  using assms
proof (induction vs arbitrary: f)
  case Nil
  then show ?case by (cases f) auto
next
  case (Cons v vs)
  obtain g where f: "f = Suc g" using Cons.prems(3) by (cases f) auto
  have v: "read_nbt g t (nbt_bytes v @ concat (map nbt_bytes vs) @ rest) = Some (wire v, concat (map nbt_bytes vs) @ rest)"
    using Cons.prems by (auto simp: f)
  have "read_items g t (length vs) (concat (map nbt_bytes vs) @ rest) = Some (map wire vs, rest)"
    by (rule Cons.IH) (use Cons.prems in \<open>auto simp: f\<close>)
  then show ?case using v by (simp add: f)
qed

lemma nbt_read_back:
  assumes "nbt_ok v" and "nbt_fuel v \<le> f"
  shows "read_nbt f (tag_id v) (nbt_bytes v @ rest) = Some (wire v, rest)"
  using assms
proof (induction v arbitrary: f rest)
  case (N_str s)
  then show ?case by (cases f) (simp_all add: tag_defs)
next
  case (N_int i)
  then show ?case by (cases f) (simp_all add: tag_defs signed_int32)
next
  case (N_bool b)
  then show ?case using take_exact_append [of "[if b then 1 else 0]" 1 rest] by (cases f) (auto simp: tag_defs)
next
  case (N_compound fs)
  then obtain g where f: "f = Suc g" by (cases f) auto
  have "read_fields g (concat (map (\<lambda>(n, v). [tag_id v] @ nbt_string n @ nbt_bytes v) fs) @ tagEnd # rest)
      = Some (map (\<lambda>(n, v). (str (mutf8 n), wire v)) fs, rest)"
    by (rule read_fields_bytes) (use N_compound in \<open>fastforce simp: f list_all_iff\<close>)+
  then show ?case by (simp add: f, simp add: tag_defs)
next
  case (N_list vs)
  then obtain g where f: "f = Suc g" by (cases f) auto
  have items: "read_items g (tag_id (hd vs)) (length vs) (concat (map nbt_bytes vs) @ rest) = Some (map wire vs, rest)"
    by (rule read_items_bytes) (use N_list in \<open>auto simp: f list_all_iff\<close>)
  show ?case
  proof (cases vs)
    case Nil
    then show ?thesis using take_exact_append [of "[tagEnd]" 1] N_list
      by (cases g) (simp_all add: f tag_defs be_dec_enc del: be_enc.simps)
  next
    case (Cons v vs')
    have "be_dec (be_enc 4 (length vs)) = length vs" using N_list by (simp add: be_dec_enc del: be_enc.simps)
    then show ?thesis using items take_exact_append [of "[tag_id v]" 1]
      by (simp add: f Cons tag_defs del: be_enc.simps)
  qed
next
  case (N_longs xs)
  have "be_dec (be_enc 4 (length xs)) = length xs" using N_longs by (simp add: be_dec_enc del: be_enc.simps)
  then show ?case using N_longs by (cases f) (simp_all add: tag_defs read_longs_bytes del: be_enc.simps)
qed

section \<open>Properties\<close>

text \<open>A client that parses NBT recovers every value the gateway encodes, nested compounds and lists
  included, from exactly the bytes written, whatever follows: 32-bit integers as \<^verbatim>\<open>int32\<close> takes them,
  strings as the modified UTF-8 that was written (cut at 65535 bytes). Lists must be homogeneous.\<close>

theorem nbt_roundtrip:
  assumes "nbt_ok v" and "nbt_fuel v \<le> f"
  shows "read_nbt f (tag_id v) (nbt_bytes v @ rest) = Some (wire v, rest)"
  by (rule nbt_read_back [OF assms])

theorem nbt_roundtrip_witness:
  "read_nbt 20 tagCompound
     (nbt_bytes (N_compound [(''text'', N_str ''hi''), (''bold'', N_bool True), (''xs'', N_list [N_int 1, N_int 2])]) @ [7])
   = Some (wire (N_compound [(''text'', N_str ''hi''), (''bold'', N_bool True), (''xs'', N_list [N_int 1, N_int 2])]), [7])"
  using nbt_roundtrip [of "N_compound [(''text'', N_str ''hi''), (''bold'', N_bool True), (''xs'', N_list [N_int 1, N_int 2])]"
      20 "[7]"] by simp

end
