(* ===== verification/Chat_Text.thy ===== *)
theory Chat_Text
  imports Nbt Packets
begin

text \<open>
  \<^verbatim>\<open>internal/proto/text.go\<close>: chat components, their JSON value with encoding/json's text of it, and
  their NBT form. The two packets that carry a component as JSON are here as well.

  The lemmas show that the NBT form of every component can be encoded and read back.
\<close>

section \<open>JSON\<close>

text \<open>What \<^verbatim>\<open>json.Marshal\<close> is given: fields in their order, the omitted ones left out.\<close>

datatype json =
    J_null
  | J_bool bool
  | J_int int
  | J_str string
  | J_arr "json list"
  | J_obj "(string \<times> json) list"

definition hex_digit :: "nat \<Rightarrow> byte" where
  "hex_digit n = bytes ''0123456789abcdef'' ! n"

text \<open>A rune of a JSON string that is escaped, or \<open>None\<close> if its bytes stand for themselves.\<close>

definition json_escape_rune :: "rune \<Rightarrow> byte list option" where
  "json_escape_rune r =
     (if r = 34 \<or> r = 92 then Some [92, of_nat r]
      else if r = 8 then Some (92 # bytes ''b'')
      else if r = 12 then Some (92 # bytes ''f'')
      else if r = 10 then Some (92 # bytes ''n'')
      else if r = 13 then Some (92 # bytes ''r'')
      else if r = 9 then Some (92 # bytes ''t'')
      else if r < 32 \<or> r = 38 \<or> r = 60 \<or> r = 62
      then Some (92 # bytes ''u00'' @ [hex_digit (r div 16), hex_digit (r mod 16)])
      else if r = 0x2028 \<or> r = 0x2029 then Some (92 # bytes ''u202'' @ [hex_digit (r mod 16)])
      else None)"

function json_escape :: "byte list \<Rightarrow> byte list" where
  "json_escape bs =
     (if bs = [] then []
      else let (r, w) = decode_rune bs
           in (if r = 65533 \<and> w = 1 then 92 # bytes ''ufffd''
               else case json_escape_rune r of Some e \<Rightarrow> e | None \<Rightarrow> take w bs)
              @ json_escape (drop w bs))"
  by pat_completeness auto
termination
proof (relation "measure length")
  fix bs :: "byte list" and p r w
  assume "bs \<noteq> []" and "p = decode_rune bs" and "(r, w) = p"
  then have "0 < w" using decode_rune_width [of "hd bs" "tl bs"] by (metis list.collapse snd_conv)
  then show "(drop w bs, bs) \<in> measure length" using \<open>bs \<noteq> []\<close> by simp
qed simp

declare json_escape.simps [simp del]

definition json_string :: "string \<Rightarrow> string" where
  "json_string s = [CHR 0x22] @ str (json_escape (bytes s)) @ [CHR 0x22]"

fun json_marshal :: "json \<Rightarrow> string" where
  "json_marshal J_null = ''null''"
| "json_marshal (J_bool b) = (if b then ''true'' else ''false'')"
| "json_marshal (J_int i) = itoa i"
| "json_marshal (J_str s) = json_string s"
| "json_marshal (J_arr vs) = ''['' @ join '','' (map json_marshal vs) @ '']''"
| "json_marshal (J_obj fs) = ''{'' @ join '','' (map (\<lambda>(k, v). json_string k @ '':'' @ json_marshal v) fs) @ ''}''"

section \<open>Components\<close>

datatype text_comp =
  Text (t_text: string) (t_color: string) (t_bold: bool) (t_italic: bool) (t_click: string)
    (t_hover: "text_comp option") (t_extra: "text_comp list")

definition T :: "string \<Rightarrow> text_comp" where
  "T s = Text s [] False False [] None []"

definition C :: "string \<Rightarrow> string \<Rightarrow> text_comp" where
  "C s color = Text s color False False [] None []"

definition Join :: "text_comp list \<Rightarrow> text_comp" where
  "Join parts = Text [] [] False False [] None parts"

text \<open>A field with \<^verbatim>\<open>omitempty\<close>.\<close>

definition opt_field :: "bool \<Rightarrow> string \<Rightarrow> 'v \<Rightarrow> (string \<times> 'v) list" where
  "opt_field present name v = (if present then [(name, v)] else [])"

fun json_value :: "text_comp \<Rightarrow> json" where
  "json_value (Text s color bold italic click hover extra) =
     J_obj ([(''text'', J_str s)]
       @ opt_field (color \<noteq> []) ''color'' (J_str color)
       @ opt_field bold ''bold'' (J_bool bold)
       @ opt_field italic ''italic'' (J_bool italic)
       @ opt_field (click \<noteq> []) ''clickEvent'' (J_obj [(''action'', J_str ''run_command''), (''value'', J_str click)])
       @ (case hover of None \<Rightarrow> []
          | Some h \<Rightarrow> [(''hoverEvent'', J_obj [(''action'', J_str ''show_text''), (''value'', json_value h)])])
       @ opt_field (extra \<noteq> []) ''extra'' (J_arr (map json_value extra)))"

definition text_json :: "text_comp \<Rightarrow> string" where
  "text_json t = json_marshal (json_value t)"

fun text_nbt :: "text_comp \<Rightarrow> nbt" where
  "text_nbt (Text s color bold italic click hover extra) =
     N_compound ([(''text'', N_str s)]
       @ opt_field (color \<noteq> []) ''color'' (N_str color)
       @ opt_field bold ''bold'' (N_bool True)
       @ opt_field italic ''italic'' (N_bool True)
       @ opt_field (click \<noteq> []) ''clickEvent'' (N_compound [(''action'', N_str ''run_command''), (''value'', N_str click)])
       @ (case hover of None \<Rightarrow> []
          | Some h \<Rightarrow> [(''hoverEvent'', N_compound [(''action'', N_str ''show_text''), (''contents'', text_nbt h)])])
       @ opt_field (extra \<noteq> []) ''extra'' (N_list (map text_nbt extra)))"

text \<open>
  What \<^verbatim>\<open>json.Marshal\<close> makes of a \<^verbatim>\<open>Text\<close> that is handed to it directly. The type has no \<^verbatim>\<open>MarshalJSON\<close>, so
  it is encoded as any struct without tags: every field, under its Go name, nil as \<^verbatim>\<open>null\<close>.
\<close>

fun struct_json :: "text_comp \<Rightarrow> json" where
  "struct_json (Text s color bold italic click hover extra) =
     J_obj [(''Text'', J_str s), (''Color'', J_str color), (''Bold'', J_bool bold), (''Italic'', J_bool italic),
       (''Click'', J_str click), (''Hover'', case hover of None \<Rightarrow> J_null | Some h \<Rightarrow> struct_json h),
       (''Extra'', if extra = [] then J_null else J_arr (map struct_json extra))]"

section \<open>Packets with a component\<close>

definition login_disconnect :: "text_comp \<Rightarrow> byte list" where
  "login_disconnect reason = frame_of (b_string (text_json reason) (new_packet LoginDisconnectID))"

definition status_response :: "json \<Rightarrow> byte list" where
  "status_response doc = frame_of (b_string (json_marshal doc) (new_packet 0))"

section \<open>Lemmas\<close>

lemma text_nbt_tag [simp]: "tag_id (text_nbt t) = tagCompound"
  by (cases t) simp

text \<open>A component small enough: no more than \<open>2^32 - 1\<close> parts in any list of it.\<close>

fun text_ok :: "text_comp \<Rightarrow> bool" where
  "text_ok (Text s color bold italic click hover extra) \<longleftrightarrow>
     (case hover of None \<Rightarrow> True | Some h \<Rightarrow> text_ok h) \<and> list_all text_ok extra \<and> length extra < 2 ^ 32"

lemma text_nbt_ok: "text_ok t \<Longrightarrow> nbt_ok (text_nbt t)"
proof (induction t)
  case (Text s color bold italic click hover extra)
  have h: "list_all (\<lambda>(n, v). nbt_ok v) (case hover of None \<Rightarrow> []
      | Some h \<Rightarrow> [(''hoverEvent'', N_compound [(''action'', N_str ''show_text''), (''contents'', text_nbt h)])])"
    using Text by (cases hover) auto
  have "list_all nbt_ok (map text_nbt extra)" using Text by (auto simp: list_all_iff)
  then show ?case using h Text.prems
    by (auto simp: opt_field_def list_all_iff hd_map)
qed

text \<open>Every chat component the gateway sends in NBT form (disconnects and dialogs in the
  configuration phase, chat from 1.20.3) is read back by a client from exactly the bytes sent.\<close>

theorem text_nbt_roundtrip:
  assumes "text_ok t" and "nbt_fuel (text_nbt t) \<le> f"
  shows "read_nbt f (hd (network_nbt (text_nbt t))) (tl (network_nbt (text_nbt t)) @ rest) = Some (wire (text_nbt t), rest)"
proof -
  have "read_nbt f (tag_id (text_nbt t)) (nbt_bytes (text_nbt t) @ rest) = Some (wire (text_nbt t), rest)"
    by (rule nbt_read_back [OF text_nbt_ok [OF assms(1)] assms(2)])
  then show ?thesis by (simp add: network_nbt_def)
qed

theorem text_nbt_roundtrip_witness:
  "read_nbt 30 (hd (network_nbt (text_nbt (Join [C ''Next join: '' ''gray'', T ''hub'']))))
     (tl (network_nbt (text_nbt (Join [C ''Next join: '' ''gray'', T ''hub'']))) @ [9])
   = Some (wire (text_nbt (Join [C ''Next join: '' ''gray'', T ''hub''])), [9])"
  by (rule text_nbt_roundtrip) code_simp+

end
