(* ===== verification/Router.thy ===== *)
theory Router
  imports Match Pending Guard Limiter Chat_Text
begin

text \<open>
  \<^verbatim>\<open>internal/router/router.go\<close>: from the first byte of a connection to the decision where it goes, and
  what is then written to the backend or to the player.

  A handler is a function of the time, the registry, the store and the bytes the client sends; its
  calls of \<^verbatim>\<open>time.Now\<close> are one time. Writes to the client are taken to succeed. The copying of bytes
  after the replayed frames (\<^verbatim>\<open>io.Copy\<close>), metrics and logging are not modelled. Parameters: \<open>hmac\<close>,
  \<^verbatim>\<open>net.ParseIP\<close>, the printed form of a client's IP, the answer of the dialer and the guard keys.

  The lemmas show which routes can be chosen and on what evidence, that a server that a player is
  connected to is registered, online and of a fitting version, and what exactly a backend receives.
\<close>

section \<open>Configuration\<close>

record router_config =
  rc_domain :: string
  rc_transfer_host :: string
  rc_transfer_port :: int
  rc_cookie_secret :: "byte list"
  rc_accept_proxy :: bool
  rc_auto_min_score :: int
  rc_auto_margin :: int
  rc_probe_window :: duration
  rc_pending_ttl :: duration
  rc_forge_query :: bool
  rc_motd :: string
  rc_sticky_ttl :: duration
  rc_personalized :: bool

text \<open>The defaults that \<^verbatim>\<open>New\<close> fills in.\<close>

definition new_config :: "router_config \<Rightarrow> router_config" where
  "new_config cfg =
     cfg\<lparr>rc_auto_min_score := (if rc_auto_min_score cfg = 0 then 50 else rc_auto_min_score cfg),
         rc_auto_margin := (if rc_auto_margin cfg = 0 then 15 else rc_auto_margin cfg),
         rc_probe_window := (if rc_probe_window cfg = 0 then 1500000000 else rc_probe_window cfg),
         rc_pending_ttl := (if rc_pending_ttl cfg = 0 then 180000000000 else rc_pending_ttl cfg),
         rc_sticky_ttl := (if rc_sticky_ttl cfg = 0 then 30 * 24 * 3600 * 1000000000
                           else if rc_sticky_ttl cfg < 0 then 0 else rc_sticky_ttl cfg),
         rc_domain := to_lower (trim_suffix (rc_domain cfg) ''.'')\<rparr>"

section \<open>Accepting a connection\<close>

text \<open>What \<^verbatim>\<open>handle\<close> knows when it has read the handshake: client address, handshake, its raw frame, the
  bytes that follow and the release function of the limiter.\<close>

record opened =
  op_client :: net_addr
  op_hs :: handshake
  op_hs_raw :: "byte list"
  op_input :: "byte list"
  op_release :: "nat option"

definition release_slot :: "nat option \<Rightarrow> limiter \<Rightarrow> limiter" where
  "release_slot r l = (case r of None \<Rightarrow> l | Some p \<Rightarrow> release p l)"

text \<open>\<^verbatim>\<open>handle\<close> up to the dispatch on the intent; \<open>None\<close> is a closed connection.\<close>

definition handle_open ::
  "router_config \<Rightarrow> (string \<Rightarrow> ip option) \<Rightarrow> (net_addr \<Rightarrow> string) \<Rightarrow> time \<Rightarrow> net_addr \<Rightarrow> byte list \<Rightarrow> limiter
    \<Rightarrow> opened option \<times> limiter" where
  "handle_open cfg parse_ip ip_string now remote input l =
     (case (if rc_accept_proxy cfg then read_proxy_header parse_ip input else Inr (None, input)) of
        Inl _ \<Rightarrow> (None, l)
      | Inr (addr, input) \<Rightarrow>
          let client = (case addr of Some a \<Rightarrow> Tcp a | None \<Rightarrow> remote) in
          case acquire now (ip_string client) l of
            (Refused _, l) \<Rightarrow> (None, l)
          | (Admitted r, l) \<Rightarrow>
              if input = [] \<or> hd input = 0xFE then (None, release_slot r l)
              else case read_frame input of
                     Inl _ \<Rightarrow> (None, release_slot r l)
                   | Inr ((raw, payload), input) \<Rightarrow>
                       (case parse_handshake payload of
                          Inl _ \<Rightarrow> (None, release_slot r l)
                        | Inr hs \<Rightarrow> (Some \<lparr>op_client = client, op_hs = hs, op_hs_raw = raw, op_input = input,
                                         op_release = r\<rparr>, l)))"

section \<open>Which server\<close>

definition subdomain_server :: "router_config \<Rightarrow> string \<Rightarrow> string" where
  "subdomain_server cfg host =
     (if rc_domain cfg = [] \<or> \<not> has_suffix host (''.'' @ rc_domain cfg) then []
      else let i = trim_suffix host (''.'' @ rc_domain cfg) in
        if contains i ''.'' then [] else i)"

definition is_lobby_host :: "router_config \<Rightarrow> string \<Rightarrow> bool" where
  "is_lobby_host cfg host \<longleftrightarrow> rc_domain cfg \<noteq> [] \<and> host = ''lobby.'' @ rc_domain cfg"

definition visible_online :: "time \<Rightarrow> registry \<Rightarrow> server list" where
  "visible_online now reg = filter (\<lambda>s. \<not> sv_hidden s) (reg_online now reg)"

definition handshake_client :: "handshake \<Rightarrow> client" where
  "handshake_client hs =
     (let marker = hs_marker hs in
      \<lparr>cl_protocol = hs_protocol hs,
       cl_loader = (if has_prefix marker ''FML'' \<or> contains marker ''FORGE'' then ''forge'' else ''unknown''),
       cl_mods = None\<rparr>)"

text \<open>\<^verbatim>\<open>stickyServer\<close>; the store may forget expired entries on the way.\<close>

definition sticky_server ::
  "router_config \<Rightarrow> time \<Rightarrow> registry \<Rightarrow> handshake \<Rightarrow> string \<Rightarrow> kv_store \<Rightarrow> string option \<times> kv_store" where
  "sticky_server cfg now reg hs player st =
     (if rc_sticky_ttl cfg \<le> 0 then (None, st)
      else case sticky now player st of
             (None, st) \<Rightarrow> (None, st)
           | (Some i, st) \<Rightarrow>
               (case reg_get now reg i of
                  None \<Rightarrow> (None, st)
                | Some srv \<Rightarrow>
                    if \<not> sv_online srv \<or> \<not> accepts srv (hs_protocol hs) then (None, st)
                    else (case pending_rejected now player i st of
                            (rejected, st) \<Rightarrow>
                              if rejected then (None, st)
                              else (if length (rank (handshake_client hs) [srv]) = 1 then Some i else None, st))))"

fun accepting_loop :: "int \<Rightarrow> server list \<Rightarrow> nat \<times> server option \<Rightarrow> nat \<times> server option" where
  "accepting_loop protocol [] acc = acc"
| "accepting_loop protocol (s # ss) (n, only) =
     (if accepts s protocol then accepting_loop protocol ss (Suc n, Some s)
      else accepting_loop protocol ss (n, only))"

definition only_server_for :: "time \<Rightarrow> registry \<Rightarrow> handshake \<Rightarrow> server option" where
  "only_server_for now reg hs =
     (case accepting_loop (hs_protocol hs) (visible_online now reg) (0, None) of
        (n, Some only) \<Rightarrow>
          if n \<noteq> 1 then None
          else (case rank (handshake_client hs) [only] of
                  [k] \<Rightarrow> if ca_certain k then Some only else None
                | _ \<Rightarrow> None)
      | (_, None) \<Rightarrow> None)"

section \<open>Login\<close>

definition cookie_request :: "byte list" where
  "cookie_request = frame_of (b_string CookieKey (new_packet LoginCookieRequestID))"

text \<open>\<^verbatim>\<open>readRouteCookie\<close> on what the client answers; \<open>None\<close> stands for each of its errors.\<close>

definition read_route_cookie :: "hmac \<Rightarrow> byte list \<Rightarrow> string \<Rightarrow> time \<Rightarrow> byte list \<Rightarrow> string option" where
  "read_route_cookie hmac secret player now input =
     (case sum_bind (read_frame input) (\<lambda>((_, payload), _).
            sum_bind (read_varint payload) (\<lambda>(pid, b).
              if pid \<noteq> LoginCookieResponseID then Inl (E_unexpected_packet pid)
              else sum_bind (read_string 32767 b) (\<lambda>(_, b).
                   sum_bind (read_bool b) (\<lambda>(has, b).
                     if \<not> has then Inr None
                     else sum_bind (read_byte_array 5120 b) (\<lambda>(data, _). Inr (Some data)))))) of
        Inr (Some data) \<Rightarrow> (case verify_route hmac secret data player now of Inl _ \<Rightarrow> None | Inr i \<Rightarrow> Some i)
      | _ \<Rightarrow> None)"

text \<open>Where a login goes: the lobby (with or without insisting on the menu) or a server, with the reason.\<close>

datatype route = R_lobby bool | R_connect string string

definition lobbyRoute :: string where
  "lobbyRoute = ''lobby''"

text \<open>Step 4 of \<^verbatim>\<open>handleLogin\<close>: the remembered choice, if its server takes the player now.\<close>

definition pending_choice :: "time \<Rightarrow> registry \<Rightarrow> handshake \<Rightarrow> string \<Rightarrow> kv_store \<Rightarrow> string option \<times> kv_store" where
  "pending_choice now reg hs player st =
     (case pending_get now player st of
        (None, st) \<Rightarrow> (None, st)
      | (Some i, st) \<Rightarrow>
          (case reg_get now reg i of
             None \<Rightarrow> (None, st)
           | Some srv \<Rightarrow>
               if sv_online srv \<and> accepts srv (hs_protocol hs) then (Some i, pending_clear player st)
               else (None, st)))"

text \<open>Steps 4 to 6 of \<^verbatim>\<open>handleLogin\<close>: nothing in the connection itself names a server.\<close>

definition plain_login ::
  "router_config \<Rightarrow> time \<Rightarrow> registry \<Rightarrow> handshake \<Rightarrow> string \<Rightarrow> kv_store \<Rightarrow> route \<times> kv_store" where
  "plain_login cfg now reg hs player st =
     (case pending_choice now reg hs player st of
        (Some i, st) \<Rightarrow> (R_connect i ''pending'', st)
      | (None, st) \<Rightarrow>
          (case sticky_server cfg now reg hs player st of
             (Some i, st) \<Rightarrow> (R_connect i ''sticky'', st)
           | (None, st) \<Rightarrow>
               (case only_server_for now reg hs of
                  Some srv \<Rightarrow> (R_connect (sv_id srv) ''only-candidate'', st)
                | None \<Rightarrow> (R_lobby False, st))))"

text \<open>\<^verbatim>\<open>handleLogin\<close> once the login start is parsed.\<close>

definition route_login ::
  "hmac \<Rightarrow> router_config \<Rightarrow> time \<Rightarrow> registry \<Rightarrow> handshake \<Rightarrow> string \<Rightarrow> byte list \<Rightarrow> kv_store \<Rightarrow> route \<times> kv_store" where
  "route_login hmac cfg now reg hs player input st =
     (let host = hs_host hs;
          cookie = (if hs_intent hs = IntentTransfer \<and> hs_protocol hs \<ge> Proto1_20_5
                    then read_route_cookie hmac (rc_cookie_secret cfg) player now input else None) in
      case cookie of
        Some i \<Rightarrow> (if i = lobbyRoute then R_lobby True else R_connect i ''cookie'', st)
      | None \<Rightarrow>
          if is_lobby_host cfg host then (R_lobby True, st)
          else if subdomain_server cfg host \<noteq> [] then (R_connect (subdomain_server cfg host) ''subdomain'', st)
          else plain_login cfg now reg hs player st)"

text \<open>\<^verbatim>\<open>handleLogin\<close>: the result has the login start and its raw frame, which \<^verbatim>\<open>connect\<close> replays.\<close>

definition handle_login ::
  "hmac \<Rightarrow> router_config \<Rightarrow> time \<Rightarrow> registry \<Rightarrow> string \<Rightarrow> handshake \<Rightarrow> byte list \<Rightarrow> kv_store
    \<Rightarrow> (login_start \<times> byte list \<times> route) option \<times> kv_store" where
  "handle_login hmac cfg now reg client_ip hs input st =
     (case read_frame input of
        Inl _ \<Rightarrow> (None, st)
      | Inr ((raw, payload), input) \<Rightarrow>
          (case parse_login_start payload (hs_protocol hs) of
             Inl _ \<Rightarrow> (None, st)
           | Inr login \<Rightarrow>
               let st = (if rc_personalized cfg
                         then set_ip_player now client_ip (ls_name login) (30 * 24 * 3600 * 1000000000) st else st);
                   (r, st) = route_login hmac cfg now reg hs (ls_name login) input st
               in (Some (login, raw, r), st)))"

section \<open>Connecting to a server\<close>

definition red :: "string \<Rightarrow> text_comp" where
  "red s = C s ''red''"

definition yellow :: "string \<Rightarrow> text_comp" where
  "yellow s = C s ''yellow''"

text \<open>\<^verbatim>\<open>connect\<close> up to \<^verbatim>\<open>pipe\<close>: a refusal with its message, or the server and the handshake to replay.\<close>

definition connect ::
  "router_config \<Rightarrow> time \<Rightarrow> registry \<Rightarrow> handshake \<Rightarrow> byte list \<Rightarrow> string \<Rightarrow> string \<Rightarrow> kv_store
    \<Rightarrow> (text_comp + server \<times> byte list) \<times> kv_store" where
  "connect cfg now reg hs hs_raw player i st =
     (case reg_get now reg i of
        None \<Rightarrow> (Inl (Join [red ''Unknown server '', yellow i]), st)
      | Some srv \<Rightarrow>
          if \<not> sv_online srv then (Inl (Join [yellow (sv_name srv), red '' is offline right now.'']), st)
          else if \<not> accepts srv (hs_protocol hs)
          then (Inl (Join [yellow (sv_name srv),
                  red ('' needs '' @ sv_version_name srv @ '', you are on '' @ version_name (hs_protocol hs) @ ''.'')]), st)
          else let hs_raw = (if hs_intent hs = IntentTransfer
                             then handshake_frame (hs\<lparr>hs_intent := IntentLogin\<rparr>) else hs_raw);
                   st = (if rc_sticky_ttl cfg > 0 then set_sticky now player (sv_id srv) (rc_sticky_ttl cfg) st else st)
               in (Inr (srv, hs_raw), st))"

text \<open>
  \<^verbatim>\<open>pipe\<close>: \<open>P_refused\<close> with the disconnect message, if one is sent, or the bytes the backend receives
  before the copying starts. \<open>keys\<close> is \<^verbatim>\<open>cfg.GuardKeys\<close>, \<open>dialed\<close> the backend's address or a failed dial.
\<close>

datatype piped = P_refused "text_comp option" | P_sent "byte list" | P_panic

definition pipe ::
  "hmac \<Rightarrow> (server \<Rightarrow> byte list option) option \<Rightarrow> net_addr option \<Rightarrow> time \<Rightarrow> byte list \<Rightarrow> net_addr \<Rightarrow> int \<Rightarrow> server
    \<Rightarrow> byte list list \<Rightarrow> piped" where
  "pipe hmac keys dialed now nonce client intent srv replay =
     (let say = (\<lambda>s. if intent \<noteq> IntentStatus then Some (Join [yellow (sv_name srv), red s]) else None);
          key = (if sv_guard srv then (case keys of None \<Rightarrow> None | Some f \<Rightarrow> f srv) else None) in
      if sv_guard srv \<and> key = None then P_refused (say '' is misconfigured on the gateway.'')
      else case dialed of
             None \<Rightarrow> P_refused (say '' is unreachable.'')
           | Some backend \<Rightarrow>
               let preamble = (if sv_guard srv then guard_header hmac (the key) client backend now nonce
                               else if sv_proxy_protocol srv then Some (proxy_v2_header client backend)
                               else Some [])
               in case preamble of
                    None \<Rightarrow> P_panic
                  | Some pre \<Rightarrow> P_sent (pre @ concat replay))"

text \<open>
  \<^verbatim>\<open>handleLogin\<close> to its end: the connection is dropped, answered with a disconnect message, handed to the
  lobby, or a backend receives bytes. \<open>dialer\<close> is \<^verbatim>\<open>Router.dial\<close>.
\<close>

datatype served =
    S_closed
  | S_message "text_comp option"
  | S_lobby bool login_start
  | S_backend server "byte list"
  | S_panic

definition serve_login ::
  "hmac \<Rightarrow> (server \<Rightarrow> byte list option) option \<Rightarrow> (server \<Rightarrow> net_addr option) \<Rightarrow> byte list \<Rightarrow> router_config \<Rightarrow> time
    \<Rightarrow> registry \<Rightarrow> string \<Rightarrow> opened \<Rightarrow> kv_store \<Rightarrow> served \<times> kv_store" where
  "serve_login hmac keys dialer nonce cfg now reg client_ip op st =
     (case handle_login hmac cfg now reg client_ip (op_hs op) (op_input op) st of
        (None, st) \<Rightarrow> (S_closed, st)
      | (Some (login, raw, R_lobby force), st) \<Rightarrow> (S_lobby force login, st)
      | (Some (login, raw, R_connect i reason), st) \<Rightarrow>
          (case connect cfg now reg (op_hs op) (op_hs_raw op) (ls_name login) i st of
             (Inl msg, st) \<Rightarrow> (S_message (Some msg), st)
           | (Inr (srv, hs_raw), st) \<Rightarrow>
               (case pipe hmac keys (dialer srv) now nonce (op_client op) (hs_intent (op_hs op)) srv [hs_raw, raw] of
                  P_refused msg \<Rightarrow> S_message msg
                | P_sent out \<Rightarrow> S_backend srv out
                | P_panic \<Rightarrow> S_panic, st)))"

section \<open>Which servers are chosen\<close>

lemma accepting_loop_eq:
  "accepting_loop p ss (n, only) =
     (let acc = filter (\<lambda>s. accepts s p) ss
      in (n + length acc, if acc = [] then only else Some (last acc)))"
  by (induction ss arbitrary: n only) (auto simp: Let_def)

lemma handshake_client_sel [simp]:
  "cl_protocol (handshake_client hs) = hs_protocol hs" "cl_mods (handshake_client hs) = None"
  by (simp_all add: handshake_client_def Let_def)

lemma set_visible_online:
  "reg_inv reg \<Longrightarrow> s \<in> set (visible_online now reg) \<longleftrightarrow>
     reg_get now reg (sv_id s) = Some s \<and> sv_online s \<and> \<not> sv_hidden s"
  by (auto simp: visible_online_def reg_online_def registry_dir.listing_lookup)

text \<open>The servers that the handshake alone leaves for a player.\<close>

definition open_to :: "time \<Rightarrow> registry \<Rightarrow> int \<Rightarrow> server list" where
  "open_to now reg p = filter (\<lambda>s. accepts s p) (visible_online now reg)"

lemma only_server_eq:
  "only_server_for now reg hs = Some srv \<longleftrightarrow>
     open_to now reg (hs_protocol hs) = [srv]
     \<and> joinable (handshake_client hs) srv \<and> surely (handshake_client hs) srv"
proof -
  define acc where "acc = open_to now reg (hs_protocol hs)"
  have loop: "accepting_loop (hs_protocol hs) (visible_online now reg) (0, None)
      = (length acc, if acc = [] then None else Some (last acc))"
    by (simp add: accepting_loop_eq acc_def open_to_def Let_def)
  consider "acc = []" | s where "acc = [s]" | "length acc > 1"
    by (cases acc rule: remdups_adj.cases) auto
  then show ?thesis
  proof cases
    case 1
    then show ?thesis by (simp add: only_server_for_def loop acc_def [symmetric])
  next
    case (2 s)
    then show ?thesis
      by (cases "joinable (handshake_client hs) s")
        (auto simp: only_server_for_def loop acc_def [symmetric] rank_eq)
  next
    case 3
    then have "acc \<noteq> []" "acc \<noteq> [srv]" by auto
    with 3 show ?thesis by (simp add: only_server_for_def loop acc_def [symmetric])
  qed
qed

text \<open>The server a player is taken back to: the one remembered, if it still fits.\<close>

definition still_fits :: "router_config \<Rightarrow> time \<Rightarrow> registry \<Rightarrow> handshake \<Rightarrow> string \<Rightarrow> kv_store \<Rightarrow> string \<Rightarrow> bool" where
  "still_fits cfg now reg hs player st i \<longleftrightarrow>
     0 < rc_sticky_ttl cfg \<and> fst (sticky now player st) = Some i
     \<and> \<not> fst (pending_rejected now player i st)
     \<and> (case reg_get now reg i of None \<Rightarrow> False
        | Some srv \<Rightarrow> sv_online srv \<and> joinable (handshake_client hs) srv)"

lemma rejected_after_sticky:
  "kv_inv st \<Longrightarrow> fst (pending_rejected now player i (snd (sticky now player st))) = fst (pending_rejected now player i st)"
  by (simp add: fst_pending_rejected sticky_def kv.get_get)

lemma joinable_accepts: "joinable (handshake_client hs) s \<Longrightarrow> accepts s (hs_protocol hs)"
  by (simp add: joinable_def)

lemma sticky_server_eq:
  assumes "kv_inv st"
  shows "fst (sticky_server cfg now reg hs player st) = Some i \<longleftrightarrow> still_fits cfg now reg hs player st i"
proof (cases "rc_sticky_ttl cfg \<le> 0 \<or> fst (sticky now player st) = None")
  case True
  then show ?thesis by (auto simp: sticky_server_def still_fits_def split: prod.splits)
next
  case False
  then obtain j st' where j: "sticky now player st = (Some j, st')"
    by (cases "sticky now player st") auto
  have rej: "fst (pending_rejected now player k st') = fst (pending_rejected now player k st)" for k
    using rejected_after_sticky [OF assms, of now player k] j by simp
  show ?thesis
  proof (cases "reg_get now reg j")
    case None
    then show ?thesis using j by (auto simp: sticky_server_def still_fits_def)
  next
    case (Some srv)
    have "length (rank (handshake_client hs) [srv]) = 1 \<longleftrightarrow> joinable (handshake_client hs) srv"
      by (simp add: rank_eq)
    then show ?thesis using j Some False rej [of j]
      by (auto simp: sticky_server_def still_fits_def split: prod.splits dest: joinable_accepts)
  qed
qed

section \<open>Routes\<close>

text \<open>The remembered choice, if a server that takes the player now answers to it.\<close>

definition ready_choice :: "time \<Rightarrow> registry \<Rightarrow> handshake \<Rightarrow> string \<Rightarrow> kv_store \<Rightarrow> string \<Rightarrow> bool" where
  "ready_choice now reg hs player st i \<longleftrightarrow>
     fst (pending_get now player st) = Some i
     \<and> (case reg_get now reg i of None \<Rightarrow> False
        | Some srv \<Rightarrow> sv_online srv \<and> accepts srv (hs_protocol hs))"

text \<open>The cookie that counts: only a transferred client of 1.20.5 or later is asked for one.\<close>

definition cookie_of :: "hmac \<Rightarrow> router_config \<Rightarrow> time \<Rightarrow> handshake \<Rightarrow> string \<Rightarrow> byte list \<Rightarrow> string option" where
  "cookie_of hmac cfg now hs player input =
     (if hs_intent hs = IntentTransfer \<and> hs_protocol hs \<ge> Proto1_20_5
      then read_route_cookie hmac (rc_cookie_secret cfg) player now input else None)"

lemma cookie_of_signed:
  "cookie_of hmac cfg now hs player input = Some i \<Longrightarrow>
   \<exists>data. verify_route hmac (rc_cookie_secret cfg) data player now = Inr i"
  by (auto simp: cookie_of_def read_route_cookie_def sum_bind_eq_Inr
      split: if_splits sum.splits option.splits)

text \<open>
  What speaks for a route: the reason the gateway logs, and the evidence for it. The last case is not a
  route but the open question that the lobby answers.
\<close>

definition evidence ::
  "hmac \<Rightarrow> router_config \<Rightarrow> time \<Rightarrow> registry \<Rightarrow> handshake \<Rightarrow> string \<Rightarrow> byte list \<Rightarrow> kv_store \<Rightarrow> string \<Rightarrow> string \<Rightarrow> bool" where
  "evidence hmac cfg now reg hs player input st i reason \<longleftrightarrow>
     (reason = ''cookie'' \<and> cookie_of hmac cfg now hs player input = Some i)
     \<or> (reason = ''subdomain'' \<and> rc_domain cfg \<noteq> [] \<and> i \<noteq> [] \<and> CHR ''.'' \<notin> set i
        \<and> hs_host hs = i @ ''.'' @ rc_domain cfg)
     \<or> (reason = ''pending'' \<and> ready_choice now reg hs player st i)
     \<or> (reason = ''sticky'' \<and> still_fits cfg now reg hs player st i)
     \<or> (reason = ''only-candidate''
        \<and> (\<exists>srv. open_to now reg (hs_protocol hs) = [srv] \<and> sv_id srv = i
             \<and> joinable (handshake_client hs) srv \<and> surely (handshake_client hs) srv))"

lemma contains_char: "contains s [c] \<longleftrightarrow> c \<in> set s"
  by (induction s) (auto simp: has_prefix_def)

lemma subdomain_server_eq:
  assumes "i \<noteq> []"
  shows "subdomain_server cfg host = i \<longleftrightarrow>
     rc_domain cfg \<noteq> [] \<and> CHR ''.'' \<notin> set i \<and> host = i @ ''.'' @ rc_domain cfg"
proof (cases "has_suffix host (''.'' @ rc_domain cfg)")
  case False
  then show ?thesis using assms by (auto simp: subdomain_server_def has_suffix_iff)
next
  case True
  then obtain j where "host = j @ ''.'' @ rc_domain cfg" by (auto simp: has_suffix_iff)
  moreover from this have "trim_suffix host (''.'' @ rc_domain cfg) = j" by simp
  ultimately show ?thesis using assms True
    by (auto simp: subdomain_server_def contains_char Let_def)
qed

lemma subdomain_server_ne:
  "subdomain_server cfg host \<noteq> [] \<longleftrightarrow>
     (\<exists>i. i \<noteq> [] \<and> rc_domain cfg \<noteq> [] \<and> CHR ''.'' \<notin> set i \<and> host = i @ ''.'' @ rc_domain cfg)"
  using subdomain_server_eq [of _ cfg host] by metis

text \<open>What a lookup of the remembered choice leaves to later lookups.\<close>

lemma sticky_after_pending:
  "kv_inv st \<Longrightarrow> t0 \<le> t \<Longrightarrow> fst (sticky t q (snd (pending_get t0 p st))) = fst (sticky t q st)"
  "kv_inv st \<Longrightarrow> t0 \<le> t \<Longrightarrow> fst (pending_rejected t q i (snd (pending_get t0 p st))) = fst (pending_rejected t q i st)"
  "kv_inv st \<Longrightarrow> t0 \<le> t \<Longrightarrow> fst (pending_get t q (snd (pending_get t0 p st))) = fst (pending_get t q st)"
  by (simp_all add: fst_pending_rejected sticky_def pending_get_def kv.get_get)

lemma pending_get_inv: "kv_inv st \<Longrightarrow> kv_inv (snd (pending_get t p st))"
  by (simp add: pending_get_def kv.inv_get)

lemma pending_choice_eq:
  "fst (pending_choice now reg hs player st) = Some i \<longleftrightarrow> ready_choice now reg hs player st i"
  by (cases "pending_get now player st")
    (auto simp: pending_choice_def ready_choice_def split: option.splits)

lemma pending_choice_None:
  "fst (pending_choice now reg hs player st) = None \<Longrightarrow>
   snd (pending_choice now reg hs player st) = snd (pending_get now player st)"
  by (cases "pending_get now player st")
    (auto simp: pending_choice_def split: option.splits if_splits)

lemma still_fits_after_pending:
  "kv_inv st \<Longrightarrow> still_fits cfg now reg hs player (snd (pending_get now player st)) i
     = still_fits cfg now reg hs player st i"
  by (simp add: still_fits_def sticky_after_pending)

lemma plain_login_cases:
  assumes st: "kv_inv st"
  obtains i where "fst (plain_login cfg now reg hs player st) = R_connect i ''pending''"
      "ready_choice now reg hs player st i"
  | i where "fst (plain_login cfg now reg hs player st) = R_connect i ''sticky''"
      "\<nexists>j. ready_choice now reg hs player st j" "still_fits cfg now reg hs player st i"
  | srv where "fst (plain_login cfg now reg hs player st) = R_connect (sv_id srv) ''only-candidate''"
      "\<nexists>j. ready_choice now reg hs player st j" "\<nexists>j. still_fits cfg now reg hs player st j"
      "only_server_for now reg hs = Some srv"
  | "fst (plain_login cfg now reg hs player st) = R_lobby False"
      "\<nexists>j. ready_choice now reg hs player st j" "\<nexists>j. still_fits cfg now reg hs player st j"
      "only_server_for now reg hs = None"
proof (cases "fst (pending_choice now reg hs player st)")
  case (Some i)
  then have "ready_choice now reg hs player st i" by (simp add: pending_choice_eq)
  with Some show thesis using that(1) [of i]
    by (cases "pending_choice now reg hs player st") (simp add: plain_login_def)
next
  case None
  define st' where "st' = snd (pending_get now player st)"
  have p: "pending_choice now reg hs player st = (None, st')"
    using None pending_choice_None [OF None] by (simp add: prod_eq_iff st'_def)
  have no: "\<nexists>j. ready_choice now reg hs player st j"
    using None pending_choice_eq [of now reg hs player st] by auto
  have fits: "fst (sticky_server cfg now reg hs player st') = Some j \<longleftrightarrow> still_fits cfg now reg hs player st j" for j
    using sticky_server_eq [OF pending_get_inv [OF st], of cfg now reg hs player now player j]
      still_fits_after_pending [OF st] by (simp add: st'_def)
  show thesis
  proof (cases "fst (sticky_server cfg now reg hs player st')")
    case (Some i)
    then have "still_fits cfg now reg hs player st i" by (simp add: fits)
    with Some show thesis using that(2) [OF _ no, of i]
      by (cases "sticky_server cfg now reg hs player st'") (simp add: plain_login_def p)
  next
    case None
    with fits have "\<nexists>j. still_fits cfg now reg hs player st j" by (metis option.distinct(1))
    with None show thesis using that(3) [OF _ no] that(4) [OF _ no]
      by (cases "only_server_for now reg hs"; cases "sticky_server cfg now reg hs player st'")
        (simp_all add: plain_login_def p)
  qed
qed
section \<open>Properties\<close>

lemma evidence_reasons [simp]:
  "evidence hmac cfg now reg hs player input st i ''cookie'' \<longleftrightarrow> cookie_of hmac cfg now hs player input = Some i"
  "evidence hmac cfg now reg hs player input st i ''subdomain'' \<longleftrightarrow>
     rc_domain cfg \<noteq> [] \<and> i \<noteq> [] \<and> CHR ''.'' \<notin> set i \<and> hs_host hs = i @ ''.'' @ rc_domain cfg"
  "evidence hmac cfg now reg hs player input st i ''pending'' \<longleftrightarrow> ready_choice now reg hs player st i"
  "evidence hmac cfg now reg hs player input st i ''sticky'' \<longleftrightarrow> still_fits cfg now reg hs player st i"
  "evidence hmac cfg now reg hs player input st i ''only-candidate'' \<longleftrightarrow>
     (\<exists>srv. only_server_for now reg hs = Some srv \<and> sv_id srv = i)"
  by (auto simp: evidence_def only_server_eq)

lemma evidence_none:
  assumes "cookie_of hmac cfg now hs player input = None" and "subdomain_server cfg (hs_host hs) = []"
    and "\<nexists>j. ready_choice now reg hs player st j" and "\<nexists>j. still_fits cfg now reg hs player st j"
    and "only_server_for now reg hs = None"
  shows "\<not> evidence hmac cfg now reg hs player input st i reason"
proof -
  have "open_to now reg (hs_protocol hs) = [srv] \<and> joinable (handshake_client hs) srv
      \<and> surely (handshake_client hs) srv \<longleftrightarrow> False" for srv
    using assms(5) only_server_eq [of now reg hs srv] by simp
  then show ?thesis
    using assms(1-4) subdomain_server_ne [of cfg "hs_host hs"] by (auto simp: evidence_def)
qed

lemma route_login_eq:
  "route_login hmac cfg now reg hs player input st =
     (case cookie_of hmac cfg now hs player input of
        Some i \<Rightarrow> (if i = lobbyRoute then R_lobby True else R_connect i ''cookie'', st)
      | None \<Rightarrow>
          if is_lobby_host cfg (hs_host hs) then (R_lobby True, st)
          else if subdomain_server cfg (hs_host hs) \<noteq> []
          then (R_connect (subdomain_server cfg (hs_host hs)) ''subdomain'', st)
          else plain_login cfg now reg hs player st)"
  unfolding route_login_def cookie_of_def Let_def ..

lemma login_evidence:
  assumes "kv_inv st"
  shows "case fst (route_login hmac cfg now reg hs player input st) of
     R_connect i reason \<Rightarrow> evidence hmac cfg now reg hs player input st i reason
   | R_lobby True \<Rightarrow> cookie_of hmac cfg now hs player input = Some lobbyRoute \<or> is_lobby_host cfg (hs_host hs)
   | R_lobby False \<Rightarrow> \<nexists>i reason. evidence hmac cfg now reg hs player input st i reason"
proof -
  consider i where "cookie_of hmac cfg now hs player input = Some i"
    | "cookie_of hmac cfg now hs player input = None" "is_lobby_host cfg (hs_host hs)"
    | "cookie_of hmac cfg now hs player input = None" "\<not> is_lobby_host cfg (hs_host hs)"
      "subdomain_server cfg (hs_host hs) \<noteq> []"
    | "cookie_of hmac cfg now hs player input = None" "\<not> is_lobby_host cfg (hs_host hs)"
      "subdomain_server cfg (hs_host hs) = []"
    by (cases "cookie_of hmac cfg now hs player input") auto
  then show ?thesis
  proof cases
    case 3
    then show ?thesis using subdomain_server_eq [OF 3(3), of cfg "hs_host hs"]
      by (simp add: route_login_eq)
  next
    case 4
    then have r: "fst (route_login hmac cfg now reg hs player input st) = fst (plain_login cfg now reg hs player st)"
      by (simp add: route_login_eq)
    show ?thesis unfolding r
      by (rule plain_login_cases [OF assms, of cfg now reg hs player])
        (use evidence_none [OF 4(1,3)] in auto)
  qed (simp_all add: route_login_eq)
qed

text \<open>C1: no login goes anywhere without evidence for it: a named route needs a cookie that verifies for
  this player, the subdomain the player typed, a remembered choice or last server that is online and
  takes the client, or a single server that can be meant; the menu is forced only by a cookie or the
  lobby's own host, and the lobby has to choose only when there is no evidence for any server.\<close>

theorem route_evidence:
  assumes "kv_inv st"
  shows "case fst (route_login hmac cfg now reg hs player input st) of
     R_connect i reason \<Rightarrow> evidence hmac cfg now reg hs player input st i reason
   | R_lobby True \<Rightarrow> cookie_of hmac cfg now hs player input = Some lobbyRoute \<or> is_lobby_host cfg (hs_host hs)
   | R_lobby False \<Rightarrow> \<nexists>i reason. evidence hmac cfg now reg hs player input st i reason"
  by (rule login_evidence [OF assms])

definition demo_cfg :: router_config where
  "demo_cfg = new_config \<lparr>rc_domain = ''Play.Example.com.'', rc_transfer_host = [], rc_transfer_port = 0,
     rc_cookie_secret = [1, 2], rc_accept_proxy = False, rc_auto_min_score = 0, rc_auto_margin = 0,
     rc_probe_window = 0, rc_pending_ttl = 0, rc_forge_query = False, rc_motd = [], rc_sticky_ttl = 0, rc_personalized = True\<rparr>"

definition demo_backend :: server where
  "demo_backend = zero_server\<lparr>sv_id := ''survival'', sv_name := ''Survival'', sv_address := ''10.0.0.7:25565'',
     sv_loader := ''vanilla'', sv_static := True, sv_online := True, sv_protocol := 767, sv_proxy_protocol := True\<rparr>"

definition demo_reg :: registry where
  "demo_reg = [(''survival'', demo_backend)]"

definition demo_hs :: handshake where
  "demo_hs = \<lparr>hs_protocol = 767, hs_address = ''play.example.com'', hs_port = 25565, hs_intent = 3\<rparr>"

definition demo_choice :: kv_store where
  "demo_choice = pending_set 1000000000 ''Alex'' ''survival'' 9000000000 demo_store"

lemma demo_choice_inv: "kv_inv demo_choice"
  by code_simp

lemma demo_route:
  "route_login toy_hmac demo_cfg 5000000000 demo_reg demo_hs ''ALEX'' [] demo_choice
     = (R_connect ''survival'' ''pending'', pending_clear ''ALEX'' demo_choice)"
  by code_simp

theorem route_evidence_witness:
  "ready_choice 5000000000 demo_reg demo_hs ''ALEX'' demo_choice ''survival''"
  using route_evidence [OF demo_choice_inv, where hmac = toy_hmac and cfg = demo_cfg and now = 5000000000
      and reg = demo_reg and hs = demo_hs and player = "''ALEX''" and input = "[]"]
  by (simp add: demo_route)

text \<open>A server the gateway chooses by itself (remembered choice, last server or single candidate) is
  registered under the chosen id, online and accepts the client's version, so that connecting to it at
  that time is never refused.\<close>

theorem auto_route_admitted:
  assumes "kv_inv st" and "reg_inv reg"
    and "fst (route_login hmac cfg now reg hs player input st) = R_connect i reason"
    and "reason \<noteq> ''cookie''" and "reason \<noteq> ''subdomain''"
  shows "\<exists>srv raw. reg_get now reg i = Some srv \<and> sv_id srv = i \<and> sv_online srv \<and> accepts srv (hs_protocol hs)
     \<and> fst (connect cfg now reg hs hs_raw player i st') = Inr (srv, raw)"
proof -
  have "evidence hmac cfg now reg hs player input st i reason"
    using login_evidence [OF assms(1), where hmac = hmac and cfg = cfg and now = now and reg = reg
        and hs = hs and player = player and input = input] assms(3) by simp
  then have "ready_choice now reg hs player st i \<or> still_fits cfg now reg hs player st i
      \<or> (\<exists>srv \<in> set (open_to now reg (hs_protocol hs)). sv_id srv = i)"
    using assms(4,5) by (auto simp: evidence_def)
  then obtain srv where "reg_get now reg i = Some srv" "sv_online srv" "accepts srv (hs_protocol hs)"
    using set_visible_online [OF assms(2)]
    by (auto simp: ready_choice_def still_fits_def open_to_def joinable_accepts split: option.splits)
  then show ?thesis
    using registry_dir.lookup_id [OF assms(2), of now i srv] by (simp add: connect_def)
qed

theorem auto_route_admitted_witness:
  "\<exists>srv raw. reg_get 5000000000 demo_reg ''survival'' = Some srv \<and> sv_id srv = ''survival'' \<and> sv_online srv
     \<and> accepts srv (hs_protocol demo_hs)
     \<and> fst (connect demo_cfg 5000000000 demo_reg demo_hs [] ''ALEX'' ''survival'' demo_choice) = Inr (srv, raw)"
proof (rule auto_route_admitted [OF demo_choice_inv])
  show "reg_inv demo_reg" by code_simp
  show "fst (route_login toy_hmac demo_cfg 5000000000 demo_reg demo_hs ''ALEX'' [] demo_choice)
      = R_connect ''survival'' ''pending''" by (simp add: demo_route)
qed simp_all

lemma pending_choice_memory:
  assumes "kv_inv st" and "now \<le> t"
  shows "fst (pending_get t q (snd (pending_choice now reg hs player st))) =
     (if to_lower q = to_lower player \<and> fst (pending_choice now reg hs player st) \<noteq> None then None
      else fst (pending_get t q st))"
proof (cases "fst (pending_choice now reg hs player st)")
  case None
  then show ?thesis using pending_choice_None [OF None] sticky_after_pending(3) [OF assms] by simp
next
  case (Some i)
  then have "snd (pending_choice now reg hs player st) = pending_clear player (snd (pending_get now player st))"
    by (cases "pending_get now player st") (auto simp: pending_choice_def split: option.splits if_splits)
  then show ?thesis using Some sticky_after_pending(3) [OF assms]
    by (simp add: pending_clear_def pending_get_def player_key_def kv.get_del kv.inv_get assms kv.get_get)
qed

lemma pending_choice_inv: "kv_inv st \<Longrightarrow> kv_inv (snd (pending_choice now reg hs player st))"
  by (cases "pending_get now player st", frule pending_get_inv [of st now player])
    (auto simp: pending_choice_def pending_clear_def kv.inv_del split: option.splits)

lemma sticky_server_memory:
  assumes "kv_inv st" and "now \<le> t"
  shows "fst (pending_get t q (snd (sticky_server cfg now reg hs player st))) = fst (pending_get t q st)"
proof -
  have g: "fst (store_get t b k (snd (sticky now player st))) = fst (store_get t b k st)"
    "kv_inv (snd (sticky now player st))" for b k
    using kv.get_get [OF assms] kv.inv_get [OF assms(1)] by (simp_all add: sticky_def)
  have r: "fst (store_get t b k (snd (pending_rejected now player i s))) = fst (store_get t b k s)"
    if "kv_inv s" for b k i s
    using kv.get_get [OF that assms(2)] by (simp add: pending_rejected_def split: prod.splits) (metis snd_conv)
  show ?thesis
    using g r by (auto simp: sticky_server_def pending_get_def split: prod.splits option.splits) (metis snd_conv)+
qed

definition used_choice :: "route \<Rightarrow> bool" where
  "used_choice r = (case r of R_connect i reason \<Rightarrow> reason = ''pending'' | R_lobby _ \<Rightarrow> False)"

lemma plain_login_memory:
  assumes "kv_inv st" and "now \<le> t"
  shows "fst (pending_get t q (snd (plain_login cfg now reg hs player st))) =
     (if to_lower q = to_lower player \<and> used_choice (fst (plain_login cfg now reg hs player st)) then None
      else fst (pending_get t q st))"
proof -
  obtain p s1 where p: "pending_choice now reg hs player st = (p, s1)" by fastforce
  have m: "fst (pending_get t q s1) = (if to_lower q = to_lower player \<and> p \<noteq> None then None
      else fst (pending_get t q st))" and "kv_inv s1"
    using pending_choice_memory [OF assms, where reg = reg and hs = hs and player = player and q = q]
      pending_choice_inv [OF assms(1), where reg = reg and hs = hs and player = player and now = now] p
    by auto
  obtain j s2 where j: "sticky_server cfg now reg hs player s1 = (j, s2)" by fastforce
  have "fst (pending_get t q s2) = fst (pending_get t q s1)"
    using sticky_server_memory [OF \<open>kv_inv s1\<close> assms(2), where cfg = cfg and reg = reg and hs = hs
        and player = player and q = q] j by simp
  with m show ?thesis
    by (cases p; cases j; cases "only_server_for now reg hs") (simp_all add: plain_login_def p j used_choice_def)
qed

text \<open>A remembered choice is used once: a login that is routed by it forgets it, and any other login,
  and the choices of other players, leave all remembered choices as they are.\<close>

theorem pending_used_once:
  assumes "kv_inv st" and "now \<le> t"
  shows "fst (pending_get t q (snd (route_login hmac cfg now reg hs player input st))) =
     (if to_lower q = to_lower player \<and> used_choice (fst (route_login hmac cfg now reg hs player input st))
      then None else fst (pending_get t q st))"
  using plain_login_memory [OF assms, where cfg = cfg and reg = reg and hs = hs and player = player and q = q]
  by (simp add: route_login_eq used_choice_def split: option.splits)

theorem pending_used_once_witness:
  "fst (pending_get 6000000000 ''alex'' (snd (route_login toy_hmac demo_cfg 5000000000 demo_reg demo_hs ''ALEX'' []
     demo_choice))) = None"
proof -
  have "(5000000000 :: time) \<le> 6000000000" and low: "to_lower ''alex'' = to_lower ''ALEX''" by code_simp+
  from pending_used_once [OF demo_choice_inv this(1), where player = "''ALEX''" and q = "''alex''"
      and hmac = toy_hmac and cfg = demo_cfg and reg = demo_reg and hs = demo_hs and input = "[]"]
  show ?thesis by (simp add: demo_route used_choice_def low)
qed

text \<open>What a backend is sent before the frames: the announcement of the client that its entry asks for.\<close>

definition preamble_for ::
  "hmac \<Rightarrow> (server \<Rightarrow> byte list option) option \<Rightarrow> (server \<Rightarrow> net_addr option) \<Rightarrow> time \<Rightarrow> byte list \<Rightarrow> net_addr \<Rightarrow> server
    \<Rightarrow> byte list \<Rightarrow> bool" where
  "preamble_for hmac keys dialer now nonce client srv pre \<longleftrightarrow>
     (\<exists>backend. dialer srv = Some backend
        \<and> (if sv_guard srv
           then \<exists>f key. keys = Some f \<and> f srv = Some key \<and> guard_header hmac key client backend now nonce = Some pre
           else if sv_proxy_protocol srv then pre = proxy_v2_header client backend else pre = []))"

lemma pipe_P_sent:
  "pipe hmac keys (dialer srv) now nonce client intent srv replay = P_sent out \<Longrightarrow>
   \<exists>pre. preamble_for hmac keys dialer now nonce client srv pre \<and> out = pre @ concat replay"
  by (cases keys; cases "dialer srv")
    (auto simp: pipe_def preamble_for_def Let_def split: if_splits option.splits)

lemma handle_open_frame:
  "handle_open cfg parse_ip ip_string now remote input l = (Some op, l') \<Longrightarrow>
   \<exists>bs payload. read_frame bs = Inr ((op_hs_raw op, payload), op_input op) \<and> parse_handshake payload = Inr (op_hs op)"
  by (auto simp: handle_open_def Let_def split: sum.splits prod.splits if_splits option.splits admission.splits) blast+

lemma handle_login_frame:
  "handle_login hmac cfg now reg ip hs input st = (Some (login, raw, r), st') \<Longrightarrow>
   \<exists>payload rest. read_frame input = Inr ((raw, payload), rest) \<and> parse_login_start payload (hs_protocol hs) = Inr login"
  by (auto simp: handle_login_def Let_def split: sum.splits prod.splits)

text \<open>The bytes that a connection to a server replays, read by the server.\<close>

lemma replayed_handshake:
  assumes "read_frame bs = Inr ((raw, payload), rest)" and "parse_handshake payload = Inr hs"
    and "hs_intent hs = IntentLogin \<or> hs_intent hs = IntentTransfer"
  shows "\<exists>p. read_frame ((if hs_intent hs = IntentTransfer then handshake_frame (hs\<lparr>hs_intent := IntentLogin\<rparr>) else raw) @ x)
      = Inr (((if hs_intent hs = IntentTransfer then handshake_frame (hs\<lparr>hs_intent := IntentLogin\<rparr>) else raw), p), x)
    \<and> parse_handshake p = Inr (hs\<lparr>hs_intent := IntentLogin\<rparr>)"
proof (cases "hs_intent hs = IntentTransfer")
  case True
  have "valid_handshake (hs\<lparr>hs_intent := IntentLogin\<rparr>)"
    using parse_handshake_valid [OF assms(2)] by (simp add: valid_handshake_def int32_range_def)
  from handshake_frame_parsed [OF this] show ?thesis using True by simp
next
  case False
  with assms(3) have "hs\<lparr>hs_intent := IntentLogin\<rparr> = hs" by simp
  then show ?thesis using False read_frame_local [OF assms(1)] assms(2) by simp
qed


text \<open>The bytes of a login on a connection that carries a PROXY header, and the witness of the whole way.\<close>

definition demo_login :: "byte list" where
  "demo_login = frame_of (b_string ''Alex'' (new_packet LoginStartID))"

definition demo_opened :: opened where
  "demo_opened = \<lparr>op_client = Tcp demo_src, op_hs = demo_hs, op_hs_raw = handshake_frame demo_hs,
     op_input = demo_login, op_release = None\<rparr>"

lemma demo_handle_open:
  "handle_open demo_cfg (\<lambda>_. None) (\<lambda>_. ''203.0.113.9'') 5000000000 (Tcp demo_src)
     (handshake_frame demo_hs @ demo_login) (new_limiter 0 0 0) = (Some demo_opened, new_limiter 0 0 0)"
  by code_simp

lemma demo_served:
  "fst (serve_login toy_mac None (\<lambda>_. Some (Tcp demo_dst)) [] demo_cfg 5000000000 demo_reg ''203.0.113.9''
      demo_opened demo_choice)
    = S_backend demo_backend (proxy_v2_header (Tcp demo_src) (Tcp demo_dst)
         @ handshake_frame (demo_hs\<lparr>hs_intent := IntentLogin\<rparr>) @ demo_login)"
  by code_simp


end
