(* ===== verification/Tickets.thy ===== *)
theory Tickets
  imports Router
begin

text \<open>
  \<^verbatim>\<open>internal/router/tickets.go\<close>: what a backend is told when it wants to move a player
  (\<^verbatim>\<open>IssueTicket\<close>). Clients of 1.20.5 or later get a signed route cookie and a transfer address, older
  ones a remembered choice and an address to reconnect to. Calls of \<^verbatim>\<open>time.Now\<close> are one time.

  The lemmas show that a ticket is honoured: the login that follows it is routed to its target.
\<close>

section \<open>Definitions\<close>

record ticket =
  tk_mode :: string
  tk_host :: string
  tk_port :: int
  tk_cookie_key :: string
  tk_cookie :: string
  tk_address :: string
  tk_message :: string

definition no_ticket :: ticket where
  "no_ticket = \<lparr>tk_mode = [], tk_host = [], tk_port = 0, tk_cookie_key = [], tk_cookie = [], tk_address = [],
     tk_message = []\<rparr>"

datatype ticket_err = ErrUnknownTarget | ErrIncompatible | ErrNoPublicAddress

text \<open>The checks on the target: the name by which it is announced.\<close>

definition ticket_target :: "time \<Rightarrow> registry \<Rightarrow> int \<Rightarrow> string \<Rightarrow> ticket_err + string" where
  "ticket_target now reg protocol target =
     (if target = lobbyRoute then Inr ''the lobby''
      else case reg_get now reg target of
             None \<Rightarrow> Inl ErrUnknownTarget
           | Some srv \<Rightarrow>
               if \<not> sv_online srv then Inl ErrUnknownTarget
               else if \<not> accepts srv protocol then Inl ErrIncompatible
               else Inr (sv_name srv))"

definition route_cookie :: "hmac \<Rightarrow> router_config \<Rightarrow> time \<Rightarrow> string \<Rightarrow> string \<Rightarrow> byte list" where
  "route_cookie hmac cfg now target player =
     sign_route hmac (rc_cookie_secret cfg) target player (now + 120 * 1000000000)"

definition issue_ticket ::
  "hmac \<Rightarrow> router_config \<Rightarrow> time \<Rightarrow> registry \<Rightarrow> string \<Rightarrow> int \<Rightarrow> string \<Rightarrow> kv_store
    \<Rightarrow> (ticket_err + ticket) \<times> kv_store" where
  "issue_ticket hmac cfg now reg player protocol target st =
     (let target = to_lower (trim_space target) in
      case ticket_target now reg protocol target of
        Inl e \<Rightarrow> (Inl e, st)
      | Inr target_name \<Rightarrow>
      let host = (if rc_transfer_host cfg = [] then rc_domain cfg else rc_transfer_host cfg) in
      if host = [] then (Inl ErrNoPublicAddress, st)
      else let port = (if rc_transfer_port cfg = 0 then 25565 else rc_transfer_port cfg) in
      if protocol \<ge> Proto1_20_5
      then (Inr (no_ticket\<lparr>tk_mode := ''transfer'', tk_host := host, tk_port := port, tk_cookie_key := CookieKey,
                   tk_cookie := b64_std (route_cookie hmac cfg now target player)\<rparr>), st)
      else let address = (if rc_domain cfg = [] then host
                          else if target = lobbyRoute then ''lobby.'' @ rc_domain cfg else rc_domain cfg);
               address = (if port \<noteq> 25565 then address @ '':'' @ itoa port else address);
               t = no_ticket\<lparr>tk_mode := ''reconnect'', tk_address := address\<rparr>
           in if target = lobbyRoute
              then (Inr (t\<lparr>tk_message := ''Reconnect to '' @ address @ '' to choose a server.''\<rparr>), pending_clear player st)
              else (Inr (t\<lparr>tk_message := ''Reconnect to '' @ address @ '' to join '' @ target_name @ ''.''\<rparr>),
                    pending_set now player target (rc_pending_ttl cfg) st))"

section \<open>Lemmas\<close>

text \<open>What a client answers to the cookie request: the key, and the cookie it was given.\<close>

definition cookie_answer :: "byte list \<Rightarrow> byte list" where
  "cookie_answer cookie =
     frame_of (b_byte_array cookie (b_bool True (b_string CookieKey (new_packet LoginCookieResponseID))))"

lemma cookie_key_ok: "string_ok 32767 CookieKey"
  by code_simp

lemma read_cookie_answer:
  assumes "length cookie \<le> 5120"
  shows "read_route_cookie hmac secret player now (cookie_answer cookie @ rest) =
     (case verify_route hmac secret cookie player now of Inl _ \<Rightarrow> None | Inr i \<Rightarrow> Some i)"
proof -
  define p where "p = b_byte_array cookie (b_bool True (b_string CookieKey (new_packet LoginCookieResponseID)))"
  have p: "p = b_varint LoginCookieResponseID [] @ b_string CookieKey [] @ b_bool True [] @ b_byte_array cookie []"
    by (simp add: p_def new_packet_varint put_ne)
  have "length CookieKey = 11" by code_simp
  then have "length p \<le> 5 + (5 + 11) + 1 + (5 + length cookie)"
    using length_put(1) [of LoginCookieResponseID "[]"] length_put(2) [of CookieKey "[]"]
      length_append_varint [of "[]" "to_int32 (int (length cookie))"]
    by (simp add: p b_bool_def b_byte_array_def)
  then have "read_frame (cookie_answer cookie @ rest) = Inr ((cookie_answer cookie, p), rest)"
    unfolding cookie_answer_def p_def [symmetric] using assms
    by (intro read_frame_put) (simp_all add: p MaxFrameLen_def)
  moreover have "byte_array_ok 5120 cookie" using assms by (simp add: byte_array_ok_def)
  moreover have "int32_range LoginCookieResponseID" by (simp add: int32_range_def)
  ultimately show ?thesis
    using get_put(4) [of 5120 cookie "[]"] unfolding read_route_cookie_def p
    by (simp add: get_put cookie_key_ok split: sum.splits)
qed

lemma ticket_target_ok:
  assumes "reg_inv reg" and "ticket_target now reg protocol target = Inr name"
  shows "target = lobbyRoute \<or> (id_pattern target \<and> (\<exists>srv. reg_get now reg target = Some srv
     \<and> sv_online srv \<and> accepts srv protocol))"
  using assms reg_inv_get [OF assms(1), of target]
  by (auto simp: ticket_target_def reg_get_eq entry_ok_def split: if_splits option.splits)

lemma ticket_no_bar:
  "reg_inv reg \<Longrightarrow> ticket_target now reg protocol target = Inr name \<Longrightarrow> CHR ''|'' \<notin> set target"
  using ticket_target_ok [of reg now protocol target name] id_pattern_no_sep(1) [of target]
  by (auto simp: lobbyRoute_def)

lemma issue_ticket_Inr:
  assumes "fst (issue_ticket hmac cfg now reg player protocol target st) = Inr t"
  obtains name where "ticket_target now reg protocol (to_lower (trim_space target)) = Inr name"
    "rc_transfer_host cfg \<noteq> [] \<or> rc_domain cfg \<noteq> []"
  using assms by (auto simp: issue_ticket_def Let_def split: sum.splits if_splits)

lemma issue_ticket_ok:
  "ticket_target now reg protocol (to_lower (trim_space target)) = Inr name \<Longrightarrow> rc_domain cfg \<noteq> [] \<Longrightarrow>
   \<exists>t. fst (issue_ticket hmac cfg now reg player protocol target st) = Inr t"
  by (auto simp: issue_ticket_def Let_def)

text \<open>Two ways back to the gateway: with a route cookie, and by a remembered choice.\<close>

lemma cookie_login_honoured:
  assumes "CHR ''|'' \<notin> set target" and "CHR ''|'' \<notin> set player"
    and "- (2 ^ 63) \<le> unix_sec now" and "unix_sec (now + 120000000000) < 2 ^ 63"
    and "length (route_cookie hmac cfg now target player) \<le> 5120"
    and "hs_intent hs = IntentTransfer" and "hs_protocol hs \<ge> Proto1_20_5"
    and "to_lower player' = to_lower player" and "unix_sec now' \<le> unix_sec (now + 120000000000)"
  shows "fst (route_login hmac cfg now' reg' hs player' (cookie_answer (route_cookie hmac cfg now target player) @ rest) st')
     = (if target = lobbyRoute then R_lobby True else R_connect target ''cookie'')"
proof -
  have "- (2 ^ 63) \<le> unix_sec (now + 120000000000)"
    using assms(3) by (simp add: unix_sec_def)
  from cookie_roundtrip [OF assms(1,2) this assms(4)]
  have "verify_route hmac (rc_cookie_secret cfg) (route_cookie hmac cfg now target player) player' now' = Inr target"
    using assms(8,9) by (simp add: route_cookie_def)
  then have "cookie_of hmac cfg now' hs player' (cookie_answer (route_cookie hmac cfg now target player) @ rest) = Some target"
    using assms(6,7) by (simp add: cookie_of_def read_cookie_answer [OF assms(5)])
  then show ?thesis by (simp add: route_login_eq)
qed

lemma pending_login_honoured:
  assumes "kv_inv st" and "kv_lasts now ttl now'" and "to_lower player' = to_lower player"
    and "hs_intent hs \<noteq> IntentTransfer \<or> hs_protocol hs < Proto1_20_5" and "\<not> is_lobby_host cfg (hs_host hs)"
    and "subdomain_server cfg (hs_host hs) = []"
    and "reg_get now' reg' i = Some srv" and "sv_online srv" and "accepts srv (hs_protocol hs)"
  shows "fst (route_login hmac cfg now' reg' hs player' input (pending_set now player i ttl st)) = R_connect i ''pending''"
proof -
  let ?st = "pending_set now player i ttl st"
  have "kv_inv ?st" and "fst (pending_get now' player' ?st) = Some i"
    using assms(1-3) by (simp_all add: pending_set_def pending_get_def player_key_def kv.inv_put kv.get_put)
  then have ready: "ready_choice now' reg' hs player' ?st i"
    using assms(7-9) by (simp add: ready_choice_def)
  have "cookie_of hmac cfg now' hs player' input = None" using assms(4) by (auto simp: cookie_of_def)
  then have "fst (route_login hmac cfg now' reg' hs player' input ?st) = fst (plain_login cfg now' reg' hs player' ?st)"
    using assms(5,6) by (simp add: route_login_eq)
  also have "\<dots> = R_connect i ''pending''"
    using ready by (cases "pending_choice now' reg' hs player' ?st")
      (use pending_choice_eq [of now' reg' hs player' ?st i] in \<open>simp add: plain_login_def\<close>)
  finally show ?thesis .
qed

section \<open>Properties\<close>

text \<open>A transfer ticket is honoured: when the client it was issued for comes back with the cookie within
  two minutes, in any capitalisation of its name, the gateway routes it to the ticket's target, which
  was online and fits the client's version when the ticket was issued, or opens the menu for it.\<close>

theorem transfer_ticket_honoured:
  assumes "reg_inv reg" and "fst (issue_ticket hmac cfg now reg player protocol target st) = Inr t"
    and "protocol \<ge> Proto1_20_5" and "CHR ''|'' \<notin> set player"
    and "- (2 ^ 63) \<le> unix_sec now" and "unix_sec (now + 120000000000) < 2 ^ 63"
    and "length cookie \<le> 5120" and "cookie = route_cookie hmac cfg now (to_lower (trim_space target)) player"
    and "hs_intent hs = IntentTransfer" and "hs_protocol hs = protocol"
    and "to_lower player' = to_lower player" and "unix_sec now' \<le> unix_sec (now + 120000000000)"
  shows "tk_mode t = ''transfer'' \<and> tk_cookie t = b64_std cookie
   \<and> fst (route_login hmac cfg now' reg' hs player' (cookie_answer cookie @ rest) st')
     = (if to_lower (trim_space target) = lobbyRoute then R_lobby True
        else R_connect (to_lower (trim_space target)) ''cookie'')"
proof -
  obtain name where n: "ticket_target now reg protocol (to_lower (trim_space target)) = Inr name"
    using issue_ticket_Inr [OF assms(2)] by blast
  have "fst (route_login hmac cfg now' reg' hs player' (cookie_answer cookie @ rest) st')
     = (if to_lower (trim_space target) = lobbyRoute then R_lobby True
        else R_connect (to_lower (trim_space target)) ''cookie'')"
    unfolding assms(8)
    by (rule cookie_login_honoured [OF ticket_no_bar [OF assms(1) n]]) (use assms in simp_all)
  moreover have "tk_mode t = ''transfer'' \<and> tk_cookie t = b64_std cookie"
    using assms(2,3,8) n by (auto simp: issue_ticket_def Let_def no_ticket_def split: if_splits)
  ultimately show ?thesis by blast
qed

definition no_hmac :: hmac where
  "no_hmac key msg = [7]"

theorem transfer_ticket_honoured_witness:
  "fst (route_login no_hmac demo_cfg 65000000000 demo_reg demo_hs ''ALEX''
     (cookie_answer (route_cookie no_hmac demo_cfg 5000000000 ''survival'' ''Alex'') @ []) demo_store)
   = R_connect ''survival'' ''cookie''"
proof -
  have low: "to_lower (trim_space '' Survival'') = ''survival''" "''survival'' \<noteq> lobbyRoute"
    "to_lower ''ALEX'' = to_lower ''Alex''" by code_simp+
  have "ticket_target 5000000000 demo_reg 767 (to_lower (trim_space '' Survival'')) = Inr ''Survival''"
    "rc_domain demo_cfg \<noteq> []" by code_simp+
  from issue_ticket_ok [OF this] obtain t
    where t1: "fst (issue_ticket no_hmac demo_cfg 5000000000 demo_reg ''Alex'' 767 '' Survival'' demo_store) = Inr t"
    by blast
  have t: "reg_inv demo_reg" "length (route_cookie no_hmac demo_cfg 5000000000 ''survival'' ''Alex'') \<le> 5120" by code_simp+
  show ?thesis
    using transfer_ticket_honoured [OF t(1) t1 _ _ _ _ t(2), where hs = demo_hs and player' = "''ALEX''"
        and now' = 65000000000 and rest = "[]" and reg' = demo_reg and st' = demo_store]
    by (simp add: low unix_sec_def demo_hs_def)
qed

text \<open>A reconnect ticket is honoured: the player's next plain login within the time a choice is kept
  is routed to the ticket's target, if that still is online and takes the client.\<close>

theorem reconnect_ticket_honoured:
  assumes "kv_inv st" and "issue_ticket hmac cfg now reg player protocol target st = (Inr t, st1)"
    and "protocol < Proto1_20_5" and "to_lower (trim_space target) \<noteq> lobbyRoute"
    and "kv_lasts now (rc_pending_ttl cfg) now'" and "to_lower player' = to_lower player"
    and "hs_protocol hs < Proto1_20_5" and "\<not> is_lobby_host cfg (hs_host hs)"
    and "subdomain_server cfg (hs_host hs) = []"
    and "reg_get now' reg' (to_lower (trim_space target)) = Some srv"
    and "sv_online srv" and "accepts srv (hs_protocol hs)"
  shows "tk_mode t = ''reconnect''
    \<and> fst (route_login hmac cfg now' reg' hs player' input st1) = R_connect (to_lower (trim_space target)) ''pending''"
proof -
  define i where "i = to_lower (trim_space target)"
  have st1: "st1 = pending_set now player i (rc_pending_ttl cfg) st" "tk_mode t = ''reconnect''"
    using assms(2-4) by (auto simp: issue_ticket_def Let_def i_def [symmetric] no_ticket_def split: sum.splits if_splits)
  have "fst (route_login hmac cfg now' reg' hs player' input st1) = R_connect i ''pending''"
    unfolding st1(1)
    by (rule pending_login_honoured [OF assms(1,5,6) _ assms(8,9) _ assms(11,12)]) (use assms(7,10) in \<open>simp_all add: i_def\<close>)
  then show ?thesis using st1(2) by (simp add: i_def)
qed

definition demo_old_hs :: handshake where
  "demo_old_hs = \<lparr>hs_protocol = 758, hs_address = ''play.example.com'', hs_port = 25565, hs_intent = 2\<rparr>"

definition demo_old_reg :: registry where
  "demo_old_reg = [(''survival'', demo_backend\<lparr>sv_protocol := 758\<rparr>)]"

theorem reconnect_ticket_honoured_witness:
  "fst (route_login no_hmac demo_cfg 65000000000 demo_old_reg demo_old_hs ''alex'' []
     (snd (issue_ticket no_hmac demo_cfg 5000000000 demo_old_reg ''Alex'' 758 '' Survival'' demo_store)))
   = R_connect ''survival'' ''pending''"
proof -
  have low: "to_lower (trim_space '' Survival'') = ''survival''" "''survival'' \<noteq> lobbyRoute"
    "to_lower ''alex'' = to_lower ''Alex''" "kv_inv demo_store" "kv_lasts 5000000000 (rc_pending_ttl demo_cfg) 65000000000"
    "\<not> is_lobby_host demo_cfg (hs_host demo_old_hs)" "subdomain_server demo_cfg (hs_host demo_old_hs) = []"
    "reg_get 65000000000 demo_old_reg ''survival'' = Some (demo_backend\<lparr>sv_protocol := 758\<rparr>)"
    "sv_online (demo_backend\<lparr>sv_protocol := 758\<rparr>)" "accepts (demo_backend\<lparr>sv_protocol := 758\<rparr>) (hs_protocol demo_old_hs)"
    by code_simp+
  have "ticket_target 5000000000 demo_old_reg 758 (to_lower (trim_space '' Survival'')) = Inr ''Survival''"
    "rc_domain demo_cfg \<noteq> []" by code_simp+
  from issue_ticket_ok [OF this] obtain t
    where "fst (issue_ticket no_hmac demo_cfg 5000000000 demo_old_reg ''Alex'' 758 '' Survival'' demo_store) = Inr t"
    by blast
  then have t': "issue_ticket no_hmac demo_cfg 5000000000 demo_old_reg ''Alex'' 758 '' Survival'' demo_store
      = (Inr t, snd (issue_ticket no_hmac demo_cfg 5000000000 demo_old_reg ''Alex'' 758 '' Survival'' demo_store))"
    by (simp add: prod_eq_iff)
  from reconnect_ticket_honoured [OF low(4) t' _ _ low(5,3) _ low(6,7) _ low(9,10)] show ?thesis
    using low(1,2,8) by (simp add: demo_old_hs_def)
qed

end
