(* ===== verification/Netguard.thy ===== *)
theory Netguard
  imports Net_Addr
begin

text \<open>
  \<^verbatim>\<open>internal/netguard/netguard.go\<close>: the policy that decides which backend addresses the gateway dials.
  A \<^verbatim>\<open>netip.Addr\<close> is its 4 or 16 bytes with the zone of a scoped IPv6 address; the zero \<^verbatim>\<open>Addr\<close> has no
  bytes. The tests of package netip (\<^verbatim>\<open>Unmap\<close>, \<^verbatim>\<open>IsLoopback\<close>, \<^verbatim>\<open>Contains\<close> and so on) are written out on the
  bytes; parsing an address or a CIDR (\<open>parse_addr\<close>, \<open>parse_prefix\<close>), the DNS answer for a host name
  (\<open>dns\<close>) and one connection attempt (\<open>dial\<close>) are parameters.

  The lemmas describe the accepted addresses by numeric ranges, independently of the code's bit tests,
  and show that nothing outside them is ever dialed, whatever the DNS answers; a scoped \<open>::\<close> is the one
  unspecified address that the policy lets through.
\<close>

unbundle bit_operations_syntax

section \<open>Addresses\<close>

record netip =
  ad_bytes :: ip
  ad_zone :: string

definition addr_of :: "ip \<Rightarrow> netip" where
  "addr_of b = \<lparr>ad_bytes = b, ad_zone = []\<rparr>"

definition is4 :: "netip \<Rightarrow> bool" where
  "is4 a \<longleftrightarrow> length (ad_bytes a) = 4"

definition is6 :: "netip \<Rightarrow> bool" where
  "is6 a \<longleftrightarrow> length (ad_bytes a) = 16"

definition is_valid :: "netip \<Rightarrow> bool" where
  "is_valid a \<longleftrightarrow> is4 a \<or> is6 a"

text \<open>\<^verbatim>\<open>Addr.Unmap\<close>: an IPv4-mapped IPv6 address becomes the IPv4 address, without its zone.\<close>

definition unmap :: "netip \<Rightarrow> netip" where
  "unmap a =
     (if is6 a \<and> take 12 (ad_bytes a) = v4_in_v6 then addr_of (drop 12 (ad_bytes a)) else a)"

text \<open>\<^verbatim>\<open>IsUnspecified\<close> compares with the two unscoped unspecified addresses, so the zone counts.\<close>

definition is_unspecified :: "netip \<Rightarrow> bool" where
  "is_unspecified a \<longleftrightarrow> a = addr_of (replicate 4 0) \<or> a = addr_of (replicate 16 0)"

definition is_loopback :: "netip \<Rightarrow> bool" where
  "is_loopback a \<longleftrightarrow>
     (let b = ad_bytes (unmap a) in
      length b = 4 \<and> b ! 0 = 127 \<or> length b = 16 \<and> b = replicate 15 0 @ [1])"

definition is_link_local_unicast :: "netip \<Rightarrow> bool" where
  "is_link_local_unicast a \<longleftrightarrow>
     (let b = ad_bytes (unmap a) in
      length b = 4 \<and> b ! 0 = 169 \<and> b ! 1 = 254
      \<or> length b = 16 \<and> b ! 0 = 0xfe \<and> b ! 1 AND 0xc0 = 0x80)"

definition is_link_local_multicast :: "netip \<Rightarrow> bool" where
  "is_link_local_multicast a \<longleftrightarrow>
     (let b = ad_bytes (unmap a) in
      length b = 4 \<and> b ! 0 = 224 \<and> b ! 1 = 0 \<and> b ! 2 = 0
      \<or> length b = 16 \<and> b ! 0 = 0xff \<and> b ! 1 AND 0x0f = 0x02)"

definition is_multicast :: "netip \<Rightarrow> bool" where
  "is_multicast a \<longleftrightarrow>
     (let b = ad_bytes (unmap a) in
      length b = 4 \<and> b ! 0 AND 0xf0 = 0xe0 \<or> length b = 16 \<and> b ! 0 = 0xff)"

definition is_interface_local_multicast :: "netip \<Rightarrow> bool" where
  "is_interface_local_multicast a \<longleftrightarrow>
     (let b = ad_bytes (unmap a) in
      length b = 16 \<and> b ! 0 = 0xff \<and> b ! 1 AND 0x0f = 0x01)"

text \<open>
  A \<^verbatim>\<open>netip.Prefix\<close>; \<^verbatim>\<open>Prefix.Contains\<close> compares the leading bits of two unscoped addresses of the same
  family, and an IPv4-mapped address is not in an IPv4 prefix.
\<close>

record prefix =
  pf_addr :: netip
  pf_bits :: nat

definition leading :: "nat \<Rightarrow> ip \<Rightarrow> nat" where
  "leading k b = be_dec b div 2 ^ (8 * length b - k)"

definition prefix_contains :: "prefix \<Rightarrow> netip \<Rightarrow> bool" where
  "prefix_contains p a \<longleftrightarrow>
     is_valid a \<and> ad_zone a = [] \<and> length (ad_bytes (pf_addr p)) = length (ad_bytes a)
     \<and> leading (pf_bits p) (ad_bytes a) = leading (pf_bits p) (ad_bytes (pf_addr p))"

text \<open>\<^verbatim>\<open>Prefix.Masked\<close>: the bits after the prefix are cleared.\<close>

definition masked :: "prefix \<Rightarrow> prefix" where
  "masked p =
     (let b = ad_bytes (pf_addr p) in
      p\<lparr>pf_addr := addr_of (be_enc (length b) (leading (pf_bits p) b * 2 ^ (8 * length b - pf_bits p)))\<rparr>)"

section \<open>Policy\<close>

definition metadata_addr :: netip where
  "metadata_addr = addr_of [169, 254, 169, 254]"

record policy =
  po_allowed :: "prefix list"
  po_loopback :: bool

fun parse_prefixes ::
  "(string \<Rightarrow> prefix option) \<Rightarrow> (string \<Rightarrow> netip option) \<Rightarrow> string list \<Rightarrow> string + prefix list" where
  "parse_prefixes pp pa [] = Inr []"
| "parse_prefixes pp pa (s # ss) =
     (case pp s of
        Some p \<Rightarrow> sum_bind (parse_prefixes pp pa ss) (\<lambda>ps. Inr (masked p # ps))
      | None \<Rightarrow>
          (case pa s of
             None \<Rightarrow> Inl s
           | Some a \<Rightarrow> sum_bind (parse_prefixes pp pa ss)
                         (\<lambda>ps. Inr (\<lparr>pf_addr = addr_of (ad_bytes a), pf_bits = 8 * length (ad_bytes a)\<rparr> # ps))))"

datatype ip_error = IP_invalid | IP_unspecified | IP_loopback | IP_link_local | IP_multicast | IP_outside

text \<open>\<^verbatim>\<open>Policy.CheckIP\<close>: \<open>None\<close> for an address that may be dialed.\<close>

definition check_ip :: "policy \<Rightarrow> netip \<Rightarrow> ip_error option" where
  "check_ip p a0 =
     (let a = unmap a0 in
      if \<not> is_valid a then Some IP_invalid
      else if is_unspecified a then Some IP_unspecified
      else if is_loopback a \<and> \<not> po_loopback p then Some IP_loopback
      else if a = metadata_addr \<or> is_link_local_unicast a \<or> is_link_local_multicast a then Some IP_link_local
      else if is_multicast a \<or> is_interface_local_multicast a then Some IP_multicast
      else if po_allowed p = [] then None
      else if \<exists>pre \<in> set (po_allowed p). prefix_contains pre a then None
      else Some IP_outside)"

section \<open>Resolving and dialing\<close>

text \<open>\<^verbatim>\<open>net.SplitHostPort\<close>: the host (without brackets) and the port, or nothing on a malformed address.\<close>

definition split_host_port :: "string \<Rightarrow> (string \<times> string) option" where
  "split_host_port s =
     (if CHR '':'' \<notin> set s then None
      else let port = rev (takeWhile (\<lambda>c. c \<noteq> CHR '':'') (rev s));
               front = take (length s - length port - 1) s
           in if hd s = CHR ''[''
              then (case cut (CHR '']'') s of
                      (_, _, False) \<Rightarrow> None
                    | (h, t, True) \<Rightarrow>
                        if front \<noteq> h @ '']'' \<or> CHR ''['' \<in> set (tl s) \<or> CHR '']'' \<in> set t then None
                        else Some (tl h, port))
              else if CHR '':'' \<in> set front \<or> CHR ''['' \<in> set s \<or> CHR '']'' \<in> set s then None
              else Some (front, port))"

record addr_port =
  ap_addr :: netip
  ap_port :: nat

datatype resolve_error =
    RE_address | RE_port | RE_lookup string | RE_empty | RE_denied netip ip_error

text \<open>The loop of \<^verbatim>\<open>Resolve\<close> over the answers.\<close>

fun check_all :: "policy \<Rightarrow> nat \<Rightarrow> netip list \<Rightarrow> resolve_error + addr_port list" where
  "check_all p port [] = Inr []"
| "check_all p port (a # as) =
     (case check_ip p a of
        Some e \<Rightarrow> Inl (RE_denied a e)
      | None \<Rightarrow> sum_bind (check_all p port as) (\<lambda>r. Inr (\<lparr>ap_addr = unmap a, ap_port = port\<rparr> # r)))"

definition resolve ::
  "(string \<Rightarrow> netip option) \<Rightarrow> (string \<Rightarrow> string + netip list) \<Rightarrow> policy \<Rightarrow> string
    \<Rightarrow> resolve_error + addr_port list" where
  "resolve parse_addr dns p address =
     (case split_host_port address of
        None \<Rightarrow> Inl RE_address
      | Some (host, port_str) \<Rightarrow>
          (case parse_uint 16 port_str of
             None \<Rightarrow> Inl RE_port
           | Some port \<Rightarrow>
               if port = 0 then Inl RE_port
               else (case (case parse_addr host of Some a \<Rightarrow> Inr [a] | None \<Rightarrow> dns host) of
                       Inl e \<Rightarrow> Inl (RE_lookup e)
                     | Inr ips \<Rightarrow> if ips = [] then Inl RE_empty else check_all p port ips)))"

text \<open>
  \<^verbatim>\<open>DialContext\<close>: the addresses are tried in order until one accepts. The first component lists the
  attempts made.
\<close>

fun dial_all :: "(addr_port \<Rightarrow> 'e + 'c) \<Rightarrow> 'e option \<Rightarrow> addr_port list \<Rightarrow> addr_port list \<times> ('e option + 'c)" where
  "dial_all dial e0 [] = ([], Inl e0)"
| "dial_all dial e0 (a # as) =
     (case dial a of
        Inr c \<Rightarrow> ([a], Inr c)
      | Inl e \<Rightarrow> (case dial_all dial (Some e) as of (tried, r) \<Rightarrow> (a # tried, r)))"

definition dial_context ::
  "(string \<Rightarrow> netip option) \<Rightarrow> (string \<Rightarrow> string + netip list) \<Rightarrow> (addr_port \<Rightarrow> 'e + 'c) \<Rightarrow> policy \<Rightarrow> string
    \<Rightarrow> addr_port list \<times> (resolve_error + ('e option + 'c))" where
  "dial_context parse_addr dns dial p address =
     (case resolve parse_addr dns p address of
        Inl e \<Rightarrow> ([], Inl e)
      | Inr as \<Rightarrow> (case dial_all dial None as of (tried, r) \<Rightarrow> (tried, Inr r)))"

section \<open>Accepted addresses as numeric ranges\<close>

text \<open>The IPv4 and IPv6 addresses that may be dialed under a policy, as numbers.\<close>

definition v4_block :: "nat \<Rightarrow> nat \<Rightarrow> nat \<Rightarrow> bool" where
  "v4_block a k n \<longleftrightarrow> a * 2 ^ (32 - k) \<le> n \<and> n < (a + 1) * 2 ^ (32 - k)"

definition v6_block :: "nat \<Rightarrow> nat \<Rightarrow> nat \<Rightarrow> bool" where
  "v6_block a k n \<longleftrightarrow> a * 2 ^ (128 - k) \<le> n \<and> n < (a + 1) * 2 ^ (128 - k)"

definition dialable4 :: "bool \<Rightarrow> nat \<Rightarrow> bool" where
  "dialable4 loopback n \<longleftrightarrow>
     (v4_block 127 8 n \<longrightarrow> loopback)
     \<and> \<not> v4_block (169 * 256 + 254) 16 n
     \<and> \<not> v4_block 14 4 n"

definition dialable6 :: "bool \<Rightarrow> nat \<Rightarrow> bool" where
  "dialable6 loopback n \<longleftrightarrow>
     (n = 1 \<longrightarrow> loopback)
     \<and> \<not> v6_block 0x3fa 10 n
     \<and> \<not> v6_block 0xff 8 n
     \<and> \<not> v6_block 0xffff 96 n"

text \<open>Inside a network: the number lies in the block of addresses of the prefix.\<close>

definition in_network :: "prefix \<Rightarrow> netip \<Rightarrow> bool" where
  "in_network p a \<longleftrightarrow>
     ad_zone a = [] \<and> length (ad_bytes (pf_addr p)) = length (ad_bytes a)
     \<and> (let w = 2 ^ (8 * length (ad_bytes a) - pf_bits p); lo = be_dec (ad_bytes (pf_addr p)) div w * w
        in lo \<le> be_dec (ad_bytes a) \<and> be_dec (ad_bytes a) < lo + w)"

definition admissible :: "policy \<Rightarrow> netip \<Rightarrow> bool" where
  "admissible p a \<longleftrightarrow>
     (be_dec (ad_bytes a) = 0 \<longrightarrow> ad_zone a \<noteq> [])
     \<and> (is4 a \<and> dialable4 (po_loopback p) (be_dec (ad_bytes a))
      \<or> is6 a \<and> dialable6 (po_loopback p) (be_dec (ad_bytes a)))
     \<and> (po_allowed p = [] \<or> (\<exists>pre \<in> set (po_allowed p). in_network pre a))"

lemma be_dec_append: "be_dec (xs @ ys) = be_dec xs * 256 ^ length ys + be_dec ys"
proof (induction ys rule: rev_induct)
  case (snoc y ys)
  have "be_dec (xs @ ys @ [y]) = be_dec (xs @ ys) * 256 + unat y"
    using be_dec_snoc [of "xs @ ys" y] by simp
  then show ?case using snoc by (simp add: algebra_simps)
qed simp

lemma be_dec_inject: "length xs = length ys \<Longrightarrow> be_dec xs = be_dec ys \<longleftrightarrow> xs = ys"
  by (metis be_enc_dec)

lemma be_dec_split:
  assumes "k \<le> length b"
  shows "be_dec b div 256 ^ (length b - k) = be_dec (take k b)"
proof -
  have "be_dec b = be_dec (take k b) * 256 ^ (length b - k) + be_dec (drop k b)"
    using be_dec_append [of "take k b" "drop k b"] by simp
  moreover have "be_dec (drop k b) < 256 ^ (length b - k)"
    using be_dec_less [of "drop k b"] by simp
  ultimately show ?thesis by simp
qed

text \<open>A number lies in the block of width \<open>w\<close> that starts at a multiple of \<open>w\<close>.\<close>

lemma block_iff:
  fixes n a w :: nat
  assumes "0 < w"
  shows "n div w = a \<longleftrightarrow> a * w \<le> n \<and> n < (a + 1) * w"
  using assms by (metis Suc_eq_plus1 dividend_less_div_times add.commute mult_Suc div_nat_eqI
      div_times_less_eq_dividend mult.commute)

lemma v4_block_iff: "v4_block a k n \<longleftrightarrow> n div 2 ^ (32 - k) = a"
  by (simp add: v4_block_def block_iff)

lemma v6_block_iff: "v6_block a k n \<longleftrightarrow> n div 2 ^ (128 - k) = a"
  by (simp add: v6_block_def block_iff)

lemma and_top:
  assumes "k \<le> 8"
  shows "unat (b AND push_bit k (mask (8 - k)) :: byte) = unat b div 2 ^ k * 2 ^ k"
proof -
  have "b AND push_bit k (mask (8 - k)) = push_bit k (drop_bit k b)"
    by (rule bit_word_eqI) (use assms in \<open>auto simp: bit_simps\<close>)
  moreover have b: "unat b < 256" using unsigned_less [of b, where 'a = nat] by simp
  moreover from b have "unat b div 2 ^ k * 2 ^ k < 256"
    using div_times_less_eq_dividend [of "unat b" "2 ^ k"] by (rule le_less_trans [rotated])
  ultimately show ?thesis
    by (simp add: unsigned_push_bit_eq unsigned_drop_bit_eq take_bit_eq_mod [where 'a = nat]
        drop_bit_eq_div [where 'a = nat] push_bit_eq_mult [where 'a = nat])
qed

lemma top4: "b AND 0xf0 = 0xe0 \<longleftrightarrow> unat b div 16 = 14" for b :: byte
proof -
  have "push_bit 4 (mask 4) = (0xf0 :: byte)" by (simp add: push_bit_eq_mult mask_eq_exp_minus_1)
  then have "unat (b AND 0xf0) = unat b div 16 * 16" using and_top [of 4 b] by simp
  then show ?thesis by (simp add: word_unat_eq_iff)
qed

lemma byte_eq: "x < 256 \<Longrightarrow> b = word_of_nat x \<longleftrightarrow> unat b = x" for b :: byte
  by (simp add: word_unat_eq_iff unsigned_of_nat take_bit_eq_mod)

lemma top2: "b AND 0xc0 = 0x80 \<longleftrightarrow> unat b div 64 = 2" for b :: byte
proof -
  have "push_bit 6 (mask 2) = (0xc0 :: byte)" by (simp add: push_bit_eq_mult mask_eq_exp_minus_1)
  then have "unat (b AND 0xc0) = unat b div 64 * 64" using and_top [of 6 b] by simp
  then show ?thesis by (simp add: word_unat_eq_iff)
qed

lemma first_byte:
  assumes "0 < length b"
  shows "be_dec b div 256 ^ (length b - 1) = unat (b ! 0)"
  using be_dec_split [of 1 b] assms by (cases b) (simp_all add: be_dec_def)

lemma two_bytes:
  assumes "1 < length b"
  shows "be_dec b div 256 ^ (length b - 2) = unat (b ! 0) * 256 + unat (b ! 1)"
proof -
  obtain x y r where "b = x # y # r" using assms by (cases b; cases "tl b") auto
  then show ?thesis using be_dec_split [of 2 b] by (simp add: be_dec_def)
qed

lemma two_bytes_eq:
  assumes "x < 256" "y < 256"
  shows "unat a * 256 + unat b = x * 256 + y \<longleftrightarrow> unat (a :: byte) = x \<and> unat (b :: byte) = y"
proof -
  have "unat b < 256" using unsigned_less [of b, where 'a = nat] by simp
  with assms show ?thesis
    by (auto dest: arg_cong [where f = "\<lambda>n. n mod 256"])
qed

lemma be_dec_zero: "be_dec b = 0 \<longleftrightarrow> b = replicate (length b) 0"
  by (induction b rule: rev_induct) (auto simp: replicate_append_same [symmetric] unat_eq_0)

text \<open>The tests of package netip, as ranges.\<close>

lemma tests4:
  assumes "is4 a"
  shows "unmap a = a" "is_valid a"
    "is_loopback a \<longleftrightarrow> v4_block 127 8 (be_dec (ad_bytes a))"
    "is_link_local_unicast a \<longleftrightarrow> v4_block (169 * 256 + 254) 16 (be_dec (ad_bytes a))"
    "is_multicast a \<longleftrightarrow> v4_block 14 4 (be_dec (ad_bytes a))"
    "\<not> is_interface_local_multicast a" "is_link_local_multicast a \<Longrightarrow> is_multicast a"
proof -
  let ?b = "ad_bytes a"
  have l: "length ?b = 4" using assms by (simp add: is4_def)
  show u: "unmap a = a" using l by (simp add: unmap_def is6_def)
  show "is_valid a" using assms by (simp add: is_valid_def)
  have 1: "be_dec ?b div 2 ^ 24 = unat (?b ! 0)" using first_byte [of ?b] l by simp
  have 2: "be_dec ?b div 2 ^ 16 = unat (?b ! 0) * 256 + unat (?b ! 1)" using two_bytes [of ?b] l by simp
  have 3: "be_dec ?b div 2 ^ 28 = unat (?b ! 0) div 16"
    using 1 div_mult2_eq [of "be_dec ?b" "2 ^ 24" 16] by simp
  show "is_loopback a \<longleftrightarrow> v4_block 127 8 (be_dec ?b)"
    unfolding v4_block_iff using 1 l by (simp add: is_loopback_def u Let_def word_unat_eq_iff)
  show "is_link_local_unicast a \<longleftrightarrow> v4_block (169 * 256 + 254) 16 (be_dec ?b)"
    unfolding v4_block_iff using 2 l two_bytes_eq [of 169 254 "?b ! 0" "?b ! 1"]
    by (simp add: is_link_local_unicast_def u Let_def word_unat_eq_iff)
  show "is_multicast a \<longleftrightarrow> v4_block 14 4 (be_dec ?b)"
    unfolding v4_block_iff using 3 l by (simp add: is_multicast_def u Let_def top4)
  show "\<not> is_interface_local_multicast a"
    using l by (simp add: is_interface_local_multicast_def u Let_def)
  show "is_link_local_multicast a \<Longrightarrow> is_multicast a"
    using l by (simp add: is_link_local_multicast_def is_multicast_def u Let_def)
qed

lemma tests6:
  assumes "is6 a" and "\<not> v6_block 0xffff 96 (be_dec (ad_bytes a))"
  shows "unmap a = a" "is_valid a"
    "is_loopback a \<longleftrightarrow> be_dec (ad_bytes a) = 1"
    "is_link_local_unicast a \<longleftrightarrow> v6_block 0x3fa 10 (be_dec (ad_bytes a))"
    "is_multicast a \<longleftrightarrow> v6_block 0xff 8 (be_dec (ad_bytes a))"
    "is_interface_local_multicast a \<Longrightarrow> is_multicast a" "is_link_local_multicast a \<Longrightarrow> is_multicast a"
proof -
  let ?b = "ad_bytes a"
  have l: "length ?b = 16" using assms by (simp add: is6_def)
  have "be_dec v4_in_v6 = 0xffff" by code_simp
  then have "be_dec (take 12 ?b) \<noteq> be_dec v4_in_v6"
    using assms(2) be_dec_split [of 12 ?b] l unfolding v6_block_iff by simp
  then show u: "unmap a = a" by (auto simp: unmap_def)
  show "is_valid a" using assms by (simp add: is_valid_def)
  have 1: "be_dec ?b div 2 ^ 120 = unat (?b ! 0)" using first_byte [of ?b] l by simp
  have 2: "be_dec ?b div 2 ^ 112 = unat (?b ! 0) * 256 + unat (?b ! 1)" using two_bytes [of ?b] l by simp
  have 3: "be_dec ?b div 2 ^ 118 = unat (?b ! 0) * 4 + unat (?b ! 1) div 64"
    using 2 div_mult2_eq [of "be_dec ?b" "2 ^ 112" 64] by simp
  have "be_dec ?b = be_dec (replicate 15 0 @ [1]) \<longleftrightarrow> ?b = replicate 15 0 @ [1]"
    by (rule be_dec_inject) (simp add: l)
  moreover have "be_dec (replicate 15 0 @ [1]) = 1" by code_simp
  ultimately show "is_loopback a \<longleftrightarrow> be_dec ?b = 1"
    using l by (simp add: is_loopback_def u Let_def)
  have "unat (?b ! 1) div 64 < 4" using unsigned_less [of "?b ! 1", where 'a = nat] by (simp add: div_less_iff_less_mult)
  then have "unat (?b ! 0) * 4 + unat (?b ! 1) div 64 = 0x3fa \<longleftrightarrow> unat (?b ! 0) = 0xfe \<and> unat (?b ! 1) div 64 = 2"
    by (auto dest: arg_cong [where f = "\<lambda>n. n mod 4"])
  then show "is_link_local_unicast a \<longleftrightarrow> v6_block 0x3fa 10 (be_dec ?b)"
    unfolding v6_block_iff using 3 l byte_eq [of 254 "?b ! 0"]
    by (simp add: is_link_local_unicast_def u Let_def top2)
  show "is_multicast a \<longleftrightarrow> v6_block 0xff 8 (be_dec ?b)"
    unfolding v6_block_iff using 1 l by (simp add: is_multicast_def u Let_def word_unat_eq_iff)
  show "is_interface_local_multicast a \<Longrightarrow> is_multicast a"
    using l by (simp add: is_interface_local_multicast_def is_multicast_def u Let_def)
  show "is_link_local_multicast a \<Longrightarrow> is_multicast a"
    using l by (simp add: is_link_local_multicast_def is_multicast_def u Let_def)
qed

lemma contains_iff: "is_valid a \<Longrightarrow> prefix_contains p a \<longleftrightarrow> in_network p a"
  unfolding prefix_contains_def in_network_def leading_def Let_def
  by (subst block_iff) (auto simp: algebra_simps)

lemma unmap_unmapped:
  assumes "is6 (unmap a)"
  shows "\<not> v6_block 0xffff 96 (be_dec (ad_bytes (unmap a)))"
proof -
  have l: "length (ad_bytes a) = 16" and u: "unmap a = a" "take 12 (ad_bytes a) \<noteq> v4_in_v6"
    using assms by (auto simp: unmap_def is6_def addr_of_def split: if_splits)
  have "be_dec v4_in_v6 = 0xffff" by code_simp
  moreover have "be_dec (take 12 (ad_bytes a)) \<noteq> be_dec v4_in_v6"
    using u(2) l by (simp add: be_dec_inject v4_in_v6_def)
  ultimately show ?thesis
    using be_dec_split [of 12 "ad_bytes a"] l unfolding v6_block_iff u(1) by simp
qed

lemma unspecified_iff: "is_valid a \<Longrightarrow> is_unspecified a \<longleftrightarrow> be_dec (ad_bytes a) = 0 \<and> ad_zone a = []"
  by (auto simp: is_unspecified_def addr_of_def be_dec_zero is_valid_def is4_def is6_def)

lemma metadata_link_local: "a = metadata_addr \<Longrightarrow> is_link_local_unicast a"
  by (simp add: metadata_addr_def is_link_local_unicast_def unmap_def is6_def addr_of_def)

lemma check_ip_None:
  "check_ip p a = None \<longleftrightarrow>
     is_valid (unmap a) \<and> \<not> is_unspecified (unmap a) \<and> (is_loopback (unmap a) \<longrightarrow> po_loopback p)
     \<and> unmap a \<noteq> metadata_addr \<and> \<not> is_link_local_unicast (unmap a) \<and> \<not> is_link_local_multicast (unmap a)
     \<and> \<not> is_multicast (unmap a) \<and> \<not> is_interface_local_multicast (unmap a)
     \<and> (po_allowed p = [] \<or> (\<exists>pre \<in> set (po_allowed p). prefix_contains pre (unmap a)))"
  by (simp add: check_ip_def Let_def)

lemma check_ip_admissible: "check_ip p a = None \<longleftrightarrow> admissible p (unmap a)"
proof -
  let ?u = "unmap a"
  consider "is4 ?u" | "is6 ?u" | "\<not> is_valid ?u" by (auto simp: is_valid_def)
  then show ?thesis
  proof cases
    case 1
    then have n: "\<not> is6 ?u" by (simp add: is4_def is6_def)
    note t = tests4 [OF 1]
    show ?thesis
      unfolding check_ip_None admissible_def dialable4_def unspecified_iff [OF t(2)] contains_iff [OF t(2)]
        t(3-5)
      using t(2,6,7) t(5) t(4) 1 n metadata_link_local [of ?u] by blast
  next
    case 2
    then have n: "\<not> is4 ?u" by (simp add: is4_def is6_def)
    note m = unmap_unmapped [OF 2]
    note t = tests6 [OF 2 m]
    show ?thesis
      unfolding check_ip_None admissible_def dialable6_def unspecified_iff [OF t(2)] contains_iff [OF t(2)]
        t(3-5)
      using t(2,6,7) t(5) t(4) 2 n m metadata_link_local [of ?u] by blast
  next
    case 3
    then show ?thesis by (simp add: check_ip_None admissible_def is_valid_def)
  qed
qed

lemma check_all_Inr:
  "check_all p port as = Inr out \<longleftrightarrow>
     list_all (\<lambda>a. check_ip p a = None) as \<and> out = map (\<lambda>a. \<lparr>ap_addr = unmap a, ap_port = port\<rparr>) as"
  by (induction as arbitrary: out) (auto simp: sum_bind_eq_Inr split: option.splits)

lemma dial_all_tried: "set (fst (dial_all dial e as)) \<subseteq> set as"
  by (induction as arbitrary: e) (auto simp: case_prod_beta dest!: subsetD split: sum.splits)

lemma resolve_Inr:
  assumes "resolve parse_addr dns p address = Inr out"
  shows "out \<noteq> [] \<and> (\<forall>t \<in> set out. admissible p (ap_addr t) \<and> 0 < ap_port t \<and> ap_port t < 65536)"
  using assms
  by (auto simp: resolve_def check_all_Inr list_all_iff check_ip_admissible parse_uint_def
      split: option.splits if_splits sum.splits prod.splits)

lemma dial_context_tried:
  assumes "dial_context parse_addr dns dial p address = (tried, r)"
  shows "\<forall>t \<in> set tried. admissible p (ap_addr t) \<and> 0 < ap_port t \<and> ap_port t < 65536"
proof (cases "resolve parse_addr dns p address")
  case (Inl e)
  then show ?thesis using assms by (simp add: dial_context_def)
next
  case (Inr out)
  then have "set tried \<subseteq> set out"
    using assms dial_all_tried [of dial None out] by (auto simp: dial_context_def split: prod.splits)
  then show ?thesis using resolve_Inr [OF Inr] by blast
qed

section \<open>Properties\<close>

text \<open>C34: The policy accepts exactly the addresses of its ranges, once an IPv4-mapped address is read as
  the IPv4 address: outside 127.0.0.0/8 and ::1 unless loopback is allowed, outside 169.254.0.0/16,
  224.0.0.0/4, fe80::/10 and ff00::/8, not unspecified unless it has a zone, and in one of the allowed
  networks when there are any.\<close>

theorem check_ip_ranges:
  "check_ip p a = None \<longleftrightarrow>
     (let u = unmap a; n = be_dec (ad_bytes u) in
      (n = 0 \<longrightarrow> ad_zone u \<noteq> [])
      \<and> (is4 u \<and> (v4_block 127 8 n \<longrightarrow> po_loopback p) \<and> \<not> v4_block (169 * 256 + 254) 16 n \<and> \<not> v4_block 14 4 n
         \<or> is6 u \<and> (n = 1 \<longrightarrow> po_loopback p) \<and> \<not> v6_block 0x3fa 10 n \<and> \<not> v6_block 0xff 8 n
           \<and> \<not> v6_block 0xffff 96 n)
      \<and> (po_allowed p = [] \<or> (\<exists>pre \<in> set (po_allowed p). in_network pre u)))"
  unfolding check_ip_admissible admissible_def dialable4_def dialable6_def Let_def by (rule refl)

theorem check_ip_ranges_witness:
  "check_ip \<lparr>po_allowed = [masked \<lparr>pf_addr = addr_of [10, 1, 2, 3], pf_bits = 8\<rparr>], po_loopback = False\<rparr> (addr_of [10, 200, 0, 7]) = None"
  unfolding check_ip_ranges by code_simp

text \<open>Whatever the DNS answers and whichever attempts fail, the gateway tries to connect only to
  addresses that the owner's policy accepts, on a port between 1 and 65535, and it tries nothing at all
  when one of the answers is not accepted.\<close>

theorem dialed_admissible:
  assumes "dial_context parse_addr dns dial p address = (tried, r)"
  shows "(\<forall>t \<in> set tried. admissible p (ap_addr t) \<and> 0 < ap_port t \<and> ap_port t < 65536)
    \<and> (\<forall>host port as a. split_host_port address = Some (host, port) \<and> parse_addr host = None
         \<and> dns host = Inr as \<and> a \<in> set as \<and> \<not> admissible p (unmap a) \<longrightarrow> tried = [])"
proof (intro conjI allI impI)
  show "\<forall>t \<in> set tried. admissible p (ap_addr t) \<and> 0 < ap_port t \<and> ap_port t < 65536"
    by (rule dial_context_tried [OF assms])
next
  fix host port as a
  assume a: "split_host_port address = Some (host, port) \<and> parse_addr host = None
    \<and> dns host = Inr as \<and> a \<in> set as \<and> \<not> admissible p (unmap a)"
  then have "\<nexists>out. resolve parse_addr dns p address = Inr out"
    by (auto simp: resolve_def check_all_Inr list_all_iff check_ip_admissible
        split: option.splits if_splits sum.splits)
  then show "tried = []"
    using assms by (auto simp: dial_context_def split: sum.splits prod.splits)
qed

text \<open>A DNS name with one public and one loopback answer.\<close>

definition demo_dns :: "string \<Rightarrow> string + netip list" where
  "demo_dns host = (if host = ''evil.example'' then Inr [addr_of [8, 8, 8, 8], addr_of (v4_in_v6 @ [127, 0, 0, 1])]
                    else if host = ''play.example'' then Inr [addr_of [8, 8, 8, 8]] else Inl ''no such host'')"

theorem dialed_admissible_witness:
  "dial_context (\<lambda>_. None) demo_dns (\<lambda>_. Inr ()) \<lparr>po_allowed = [], po_loopback = False\<rparr> ''play.example:25565''
     = ([\<lparr>ap_addr = addr_of [8, 8, 8, 8], ap_port = 25565\<rparr>], Inr (Inr () :: unit option + unit))
   \<and> admissible \<lparr>po_allowed = [], po_loopback = False\<rparr> (addr_of [8, 8, 8, 8])
   \<and> fst (dial_context (\<lambda>_. None) demo_dns (\<lambda>_. Inr () :: unit + unit) \<lparr>po_allowed = [], po_loopback = False\<rparr>
        ''evil.example:25565'') = []"
proof (intro conjI)
  show d: "dial_context (\<lambda>_. None) demo_dns (\<lambda>_. Inr ()) \<lparr>po_allowed = [], po_loopback = False\<rparr> ''play.example:25565''
     = ([\<lparr>ap_addr = addr_of [8, 8, 8, 8], ap_port = 25565\<rparr>], Inr (Inr () :: unit option + unit))"
    by code_simp
  show "admissible \<lparr>po_allowed = [], po_loopback = False\<rparr> (addr_of [8, 8, 8, 8])"
    using dialed_admissible [OF d] by simp
  have "demo_dns ''evil.example'' = Inr [addr_of [8, 8, 8, 8], addr_of (v4_in_v6 @ [127, 0, 0, 1])]"
    "split_host_port ''evil.example:25565'' = Some (''evil.example'', ''25565'')"
    "\<not> admissible \<lparr>po_allowed = [], po_loopback = False\<rparr> (unmap (addr_of (v4_in_v6 @ [127, 0, 0, 1])))"
    by code_simp+
  then show "fst (dial_context (\<lambda>_. None) demo_dns (\<lambda>_. Inr () :: unit + unit) \<lparr>po_allowed = [], po_loopback = False\<rparr>
      ''evil.example:25565'') = []"
    using dialed_admissible [OF prod.collapse [symmetric]] by (metis list.set_intros)
qed

text \<open>The default policy, which denies unspecified addresses, accepts a scoped \<open>::\<close>: package netip
  compares the zone too.\<close>

lemma scoped_unspecified_accepted:
  assumes "zone \<noteq> []"
  shows "check_ip \<lparr>po_allowed = [], po_loopback = False\<rparr> \<lparr>ad_bytes = replicate 16 0, ad_zone = zone\<rparr> = None"
proof -
  have z: "be_dec (replicate 16 0) = 0" by (simp add: be_dec_zero)
  have "take 12 (replicate 16 0) \<noteq> v4_in_v6" by code_simp
  then have u: "unmap \<lparr>ad_bytes = replicate 16 0, ad_zone = zone\<rparr> = \<lparr>ad_bytes = replicate 16 0, ad_zone = zone\<rparr>"
    by (simp only: unmap_def netip.simps simp_thms if_False)
  show ?thesis
    unfolding check_ip_admissible u using assms
    by (simp add: admissible_def is6_def is4_def dialable6_def v6_block_def z)
qed

end
