(* ===== verification/Broker.thy ===== *)
theory Broker
  imports Kv_Store
begin

text \<open>
  \<^verbatim>\<open>internal/api/global.go\<close>: the broadcast broker. Publishing appends to a window of the last 256 messages
  and wakes the pollers that wait; a poller asks for what is newer than the last number it has seen.

  The broker's notification channel is a number: \<^verbatim>\<open>make\<close> gives the next one. A poll is modelled by its
  position between two critical sections, and publishing by its critical section and the close of the
  old channel after it, so that every interleaving of publishers and pollers is a sequence of steps. The
  deadline of a poll and the end of its request are one step that is always possible while it waits. The
  history of all messages is kept beside the broker for the statements only; sequence numbers are \<open>int\<close>
  (the code's \<^verbatim>\<open>int64\<close> does not wrap in practice).

  The lemmas relate the window to the history and give the answer of every poll in every interleaving;
  they show that a message published after a poll has read the channel always wakes it, and that one
  published between its look at the window and that read does not.
\<close>

section \<open>Definitions\<close>

record global_message =
  gm_seq :: int
  gm_server :: string
  gm_player :: string
  gm_message :: string
  gm_time :: int

record broker =
  br_seq :: int
  br_ring :: "global_message list"
  br_max :: nat
  br_notify :: nat

definition new_broker :: broker where
  "new_broker = \<lparr>br_seq = 0, br_ring = [], br_max = 256, br_notify = 0\<rparr>"

text \<open>The critical section of \<^verbatim>\<open>publish\<close>: the number, the channel to close and the new broker.\<close>

definition publish ::
  "time \<Rightarrow> string \<Rightarrow> string \<Rightarrow> string \<Rightarrow> broker \<Rightarrow> (int \<times> nat) \<times> broker" where
  "publish now srv player msg b =
     (let n = br_seq b + 1;
          m = \<lparr>gm_seq = n, gm_server = srv, gm_player = player, gm_message = msg, gm_time = unix_sec now\<rparr>;
          ring = br_ring b @ [m];
          ring = (if length ring > br_max b then drop (length ring - br_max b) ring else ring)
      in ((n, br_notify b), b\<lparr>br_seq := n, br_ring := ring, br_notify := Suc (br_notify b)\<rparr>))"

definition current :: "broker \<Rightarrow> int" where
  "current b = br_seq b"

definition since :: "int \<Rightarrow> broker \<Rightarrow> global_message list \<times> int" where
  "since after b = (filter (\<lambda>m. gm_seq m > after) (br_ring b), br_seq b)"

text \<open>Where a call of \<^verbatim>\<open>wait\<close> is: before it looks at the window, after it found nothing new, waiting on a
  channel, or returned.\<close>

datatype poll =
    P_look int
  | P_empty int
  | P_wait int nat
  | P_done int "global_message list" int

record hub =
  hb_broker :: broker
  hb_closed :: "nat list"
  hb_closing :: "nat list"
  hb_polls :: "poll list"
  hb_history :: "global_message list"

definition new_hub :: hub where
  "new_hub = \<lparr>hb_broker = new_broker, hb_closed = [], hb_closing = [], hb_polls = [], hb_history = []\<rparr>"

definition do_publish :: "time \<Rightarrow> string \<Rightarrow> string \<Rightarrow> string \<Rightarrow> hub \<Rightarrow> hub" where
  "do_publish now srv player msg h =
     (case publish now srv player msg (hb_broker h) of
        ((n, ch), b) \<Rightarrow>
          h\<lparr>hb_broker := b, hb_closing := ch # hb_closing h,
            hb_history := hb_history h
              @ [\<lparr>gm_seq = n, gm_server = srv, gm_player = player, gm_message = msg, gm_time = unix_sec now\<rparr>]\<rparr>)"

definition do_close :: "nat \<Rightarrow> hub \<Rightarrow> hub" where
  "do_close ch h = h\<lparr>hb_closing := remove1 ch (hb_closing h), hb_closed := ch # hb_closed h\<rparr>"

definition do_poll :: "int \<Rightarrow> hub \<Rightarrow> hub" where
  "do_poll after h = h\<lparr>hb_polls := hb_polls h @ [P_look after]\<rparr>"

text \<open>The step of one call of \<^verbatim>\<open>wait\<close>; \<open>over\<close> tells that its deadline has passed or its request ended.\<close>

fun poll_next :: "bool \<Rightarrow> hub \<Rightarrow> poll \<Rightarrow> poll option" where
  "poll_next over h (P_look after) =
     (case since after (hb_broker h) of
        (msgs, n) \<Rightarrow> Some (if msgs \<noteq> [] then P_done after msgs n else P_empty after))"
| "poll_next over h (P_empty after) = Some (P_wait after (br_notify (hb_broker h)))"
| "poll_next over h (P_wait after ch) =
     (if over then (case since after (hb_broker h) of (msgs, n) \<Rightarrow> Some (P_done after msgs n))
      else if ch \<in> set (hb_closed h) then Some (P_look after)
      else None)"
| "poll_next over h (P_done after msgs n) = None"

inductive hub_step :: "hub \<Rightarrow> hub \<Rightarrow> bool" where
  publish: "hub_step h (do_publish now srv player msg h)"
| close: "ch \<in> set (hb_closing h) \<Longrightarrow> hub_step h (do_close ch h)"
| poll: "hub_step h (do_poll after h)"
| advance: "i < length (hb_polls h) \<Longrightarrow> poll_next over h (hb_polls h ! i) = Some p
    \<Longrightarrow> hub_step h (h\<lparr>hb_polls := (hb_polls h)[i := p]\<rparr>)"

inductive hub_reach :: "hub \<Rightarrow> bool" where
  start: "hub_reach new_hub"
| step: "hub_reach h \<Longrightarrow> hub_step h h' \<Longrightarrow> hub_reach h'"

section \<open>The window\<close>

text \<open>The last \<open>n\<close> elements.\<close>

definition last_n :: "nat \<Rightarrow> 'a list \<Rightarrow> 'a list" where
  "last_n n xs = drop (length xs - n) xs"

lemma last_n_snoc:
  "(if length (last_n n xs @ [x]) > n then drop (length (last_n n xs @ [x]) - n) (last_n n xs @ [x])
    else last_n n xs @ [x]) = last_n n (xs @ [x])"
proof (cases "n \<le> length xs")
  case True
  then have "Suc (length xs - n) = length xs - (n - 1) \<or> n = 0" by auto
  then show ?thesis using True by (cases n) (auto simp: last_n_def Suc_diff_le)
next
  case False
  then show ?thesis by (simp add: last_n_def)
qed

text \<open>The messages are numbered from 1 in the order of the history.\<close>

definition numbered :: "global_message list \<Rightarrow> bool" where
  "numbered hs \<longleftrightarrow> (\<forall>i < length hs. gm_seq (hs ! i) = int i + 1)"

lemma numbered_newer:
  assumes "numbered hs"
  shows "filter (\<lambda>m. gm_seq m > after) hs = drop (nat after) hs"
  using assms
proof (induction hs rule: rev_induct)
  case (snoc m hs)
  have "numbered hs" using snoc.prems by (auto simp: numbered_def nth_append split: if_splits)
  moreover have "gm_seq m = int (length hs) + 1" using snoc.prems by (auto simp: numbered_def)
  ultimately show ?case using snoc.IH by (cases "after \<le> int (length hs)") auto
qed simp

text \<open>What the answer to a poll is when \<open>k\<close> messages have been published: the newer ones among the
  last 256.\<close>

definition answer :: "global_message list \<Rightarrow> int \<Rightarrow> nat \<Rightarrow> global_message list" where
  "answer hs after k = drop (max (nat after) (k - 256)) (take k hs)"

definition broker_ok :: "broker \<Rightarrow> global_message list \<Rightarrow> bool" where
  "broker_ok b hs \<longleftrightarrow>
     numbered hs \<and> br_max b = 256 \<and> br_seq b = int (length hs) \<and> br_ring b = last_n 256 hs"

lemma newer_in_window:
  assumes "numbered hs"
  shows "filter (\<lambda>m. gm_seq m > after) (drop n hs) = drop (max (nat after) n) hs"
proof -
  have "drop n hs = filter (\<lambda>m. gm_seq m > int n) hs"
    using numbered_newer [OF assms, of "int n"] by simp
  moreover have "(gm_seq m > after \<and> gm_seq m > int n) = (gm_seq m > max after (int n))" for m
    by auto
  ultimately have "filter (\<lambda>m. gm_seq m > after) (drop n hs) = filter (\<lambda>m. gm_seq m > max after (int n)) hs"
    by (simp add: conj_commute)
  also have "\<dots> = drop (nat (max after (int n))) hs" by (rule numbered_newer [OF assms])
  also have "nat (max after (int n)) = max (nat after) n" by (auto simp: max_def)
  finally show ?thesis .
qed

lemma since_ok:
  "broker_ok b hs \<Longrightarrow> since after b = (answer hs after (length hs), int (length hs))"
  by (simp add: since_def broker_ok_def answer_def last_n_def newer_in_window)

lemma publish_ok:
  assumes "broker_ok b hs"
    and "publish now srv player msg b = ((n, ch), b')"
  shows "broker_ok b' (hs @ [\<lparr>gm_seq = n, gm_server = srv, gm_player = player, gm_message = msg, gm_time = unix_sec now\<rparr>])"
    and "ch = br_notify b" and "br_notify b' = Suc ch"
proof -
  let ?m = "\<lparr>gm_seq = n, gm_server = srv, gm_player = player, gm_message = msg, gm_time = unix_sec now\<rparr>"
  have n: "n = br_seq b + 1" and c: "ch = br_notify b" "br_notify b' = Suc ch"
    and b': "br_seq b' = n" "br_max b' = br_max b"
    using assms(2) by (auto simp: publish_def Let_def)
  have "br_ring b' = last_n 256 (hs @ [?m])"
    using assms unfolding last_n_snoc [symmetric]
    by (auto simp: publish_def Let_def broker_ok_def simp del: length_append)
  moreover have "numbered (hs @ [?m])"
    using assms(1) n by (auto simp: numbered_def broker_ok_def nth_append)
  ultimately show "broker_ok b' (hs @ [?m])"
    using assms(1) n b' by (simp add: broker_ok_def)
  show "ch = br_notify b" "br_notify b' = Suc ch" by (rule c)+
qed

lemma answer_append: "k \<le> length hs \<Longrightarrow> answer (hs @ xs) after k = answer hs after k"
  by (simp add: answer_def)

section \<open>The invariant\<close>

text \<open>Every channel that has been replaced is closed or about to be; a poll waits on a channel that has
  been made, and the answer of a finished poll is the one of some moment.\<close>

definition poll_ok :: "hub \<Rightarrow> poll \<Rightarrow> bool" where
  "poll_ok h p =
     (case p of
        P_wait after ch \<Rightarrow> ch \<le> br_notify (hb_broker h)
      | P_done after msgs n \<Rightarrow>
          \<exists>k \<le> length (hb_history h). n = int k \<and> msgs = answer (hb_history h) after k
      | _ \<Rightarrow> True)"

definition hub_inv :: "hub \<Rightarrow> bool" where
  "hub_inv h \<longleftrightarrow>
     broker_ok (hb_broker h) (hb_history h)
     \<and> (\<forall>ch < br_notify (hb_broker h). ch \<in> set (hb_closed h) \<union> set (hb_closing h))
     \<and> list_all (poll_ok h) (hb_polls h)"

lemma hub_inv_publish:
  assumes "hub_inv h"
  shows "hub_inv (do_publish now srv player msg h)"
proof -
  obtain n ch b where p: "publish now srv player msg (hb_broker h) = ((n, ch), b)"
    by (metis prod.exhaust)
  have b: "broker_ok (hb_broker h) (hb_history h)" using assms by (simp add: hub_inv_def)
  note q = publish_ok [OF b p]
  have "poll_ok (do_publish now srv player msg h) x" if "poll_ok h x" for x
    using that p q(2,3)
    by (auto simp: poll_ok_def do_publish_def answer_append split: poll.splits)
  then show ?thesis
    using assms p q by (auto simp: hub_inv_def do_publish_def less_Suc_eq list_all_iff)
qed

lemma poll_next_ok:
  assumes "hub_inv h" and "poll_next over h p = Some p'"
  shows "poll_ok h p'"
proof -
  have s: "since after (hb_broker h) = (answer (hb_history h) after (length (hb_history h)), int (length (hb_history h)))"
    for after using since_ok assms(1) by (simp add: hub_inv_def)
  show ?thesis
    using assms(2) by (cases p) (auto simp: s poll_ok_def split: if_splits)
qed

lemma hub_inv_step:
  assumes "hub_step h h'" and "hub_inv h"
  shows "hub_inv h'"
  using assms(1)
proof cases
  case (publish now srv player msg)
  then show ?thesis using hub_inv_publish [OF assms(2)] by simp
next
  case (close ch)
  have "poll_ok (do_close ch h) = poll_ok h" by (auto simp: fun_eq_iff poll_ok_def do_close_def split: poll.splits)
  then show ?thesis using assms(2) close by (auto simp: hub_inv_def do_close_def dest: in_set_remove1 [THEN iffD2, rotated])
next
  case (poll after)
  have "poll_ok (do_poll after h) = poll_ok h" by (auto simp: fun_eq_iff poll_ok_def do_poll_def split: poll.splits)
  then show ?thesis using assms(2) poll by (auto simp: hub_inv_def do_poll_def poll_ok_def)
next
  case (advance i over p)
  have "poll_ok h' = poll_ok h" by (auto simp: fun_eq_iff poll_ok_def advance(1) split: poll.splits)
  then show ?thesis
    using assms(2) poll_next_ok [OF assms(2) advance(3)] advance(1)
    by (auto simp: hub_inv_def list_all_iff dest!: set_update_subset_insert [THEN subsetD])
qed

lemma hub_reach_inv: "hub_reach h \<Longrightarrow> hub_inv h"
proof (induction rule: hub_reach.induct)
  case start
  show ?case by (simp add: hub_inv_def new_hub_def new_broker_def broker_ok_def numbered_def last_n_def)
qed (rule hub_inv_step)

lemma hub_reach_done:
  assumes "hub_reach h" and "P_done after msgs n \<in> set (hb_polls h)"
  shows "\<exists>k \<le> length (hb_history h). n = int k \<and> msgs = answer (hb_history h) after k"
  using hub_reach_inv [OF assms(1)] assms(2) by (fastforce simp: hub_inv_def list_all_iff poll_ok_def)

section \<open>Properties\<close>



text \<open>A poll that has looked at the empty window, a message, and the poll reading the new channel.\<close>

definition missed_hub :: hub where
  "missed_hub =
     (let h = do_poll 0 new_hub;
          h = h\<lparr>hb_polls := [P_empty 0]\<rparr>;
          h = do_close 0 (do_publish 1700000000000000000 ''survival'' ''Alex'' ''hi'' h)
      in h\<lparr>hb_polls := [P_wait 0 1]\<rparr>)"

lemma missed_hub_reach: "hub_reach missed_hub"
proof -
  let ?h1 = "do_poll 0 new_hub"
  let ?h2 = "?h1\<lparr>hb_polls := (hb_polls ?h1)[0 := P_empty 0]\<rparr>"
  let ?h3 = "do_publish 1700000000000000000 ''survival'' ''Alex'' ''hi'' ?h2"
  let ?h4 = "do_close 0 ?h3"
  have "hub_reach ?h1" by (rule hub_reach.step [OF hub_reach.start hub_step.poll])
  moreover have "hub_step ?h1 ?h2" by (rule hub_step.advance [where over = False]) code_simp+
  ultimately have "hub_reach ?h2" by (rule hub_reach.step)
  then have "hub_reach ?h3" by (rule hub_reach.step [OF _ hub_step.publish])
  moreover have "hub_step ?h3 ?h4" by (rule hub_step.close) code_simp
  ultimately have "hub_reach ?h4" by (rule hub_reach.step)
  moreover have "hub_step ?h4 (?h4\<lparr>hb_polls := (hb_polls ?h4)[0 := P_wait 0 1]\<rparr>)"
    by (rule hub_step.advance [where over = False]) code_simp+
  ultimately have "hub_reach (?h4\<lparr>hb_polls := (hb_polls ?h4)[0 := P_wait 0 1]\<rparr>)" by (rule hub_reach.step)
  moreover have "?h4\<lparr>hb_polls := (hb_polls ?h4)[0 := P_wait 0 1]\<rparr> = missed_hub" by code_simp
  ultimately show ?thesis by simp
qed

text \<open>A message published between a poll's look at the window and its read of the notification
  channel does not wake it: in this interleaving the poll waits on an open channel although a newer
  message is in the window and no publisher is running, so only its deadline ends it.\<close>

theorem wakeup_missed:
  "\<exists>h ch. hub_reach h \<and> hb_polls h = [P_wait 0 ch] \<and> hb_closing h = [] \<and> fst (since 0 (hb_broker h)) \<noteq> []
     \<and> poll_next False h (P_wait 0 ch) = None
     \<and> (\<exists>msgs n. poll_next True h (P_wait 0 ch) = Some (P_done 0 msgs n) \<and> msgs \<noteq> [])"
proof (intro exI [of _ missed_hub] exI [of _ "1 :: nat"] conjI)
  show "hub_reach missed_hub" by (rule missed_hub_reach)
  show "hb_polls missed_hub = [P_wait 0 1]" "hb_closing missed_hub = []" "fst (since 0 (hb_broker missed_hub)) \<noteq> []"
    "poll_next False missed_hub (P_wait 0 1) = None" by code_simp+
  show "\<exists>msgs n. poll_next True missed_hub (P_wait 0 1) = Some (P_done 0 msgs n) \<and> msgs \<noteq> []"
    by (simp add: missed_hub_def do_poll_def do_publish_def publish_def since_def new_hub_def new_broker_def
        do_close_def)
qed

text \<open>A poll that waits at the start and is woken by the first message, and a second poll that finds a
  second message.\<close>

definition waiting_hub :: hub where
  "waiting_hub = (do_poll 0 new_hub)\<lparr>hb_polls := [P_wait 0 0]\<rparr>"

definition first_msg :: global_message where
  "first_msg = \<lparr>gm_seq = 1, gm_server = ''survival'', gm_player = ''Alex'', gm_message = ''hi'', gm_time = 1700000000\<rparr>"

definition second_msg :: global_message where
  "second_msg = \<lparr>gm_seq = 2, gm_server = ''creative'', gm_player = ''Kim'', gm_message = ''hey'', gm_time = 1700000001\<rparr>"

lemma waiting_hub_reach: "hub_reach waiting_hub"
proof -
  let ?h1 = "do_poll 0 new_hub"
  let ?h2 = "?h1\<lparr>hb_polls := (hb_polls ?h1)[0 := P_empty 0]\<rparr>"
  have "hub_reach ?h1" by (rule hub_reach.step [OF hub_reach.start hub_step.poll])
  moreover have "hub_step ?h1 ?h2" by (rule hub_step.advance [where over = False]) code_simp+
  ultimately have "hub_reach ?h2" by (rule hub_reach.step)
  moreover have "hub_step ?h2 (?h2\<lparr>hb_polls := (hb_polls ?h2)[0 := P_wait 0 0]\<rparr>)"
    by (rule hub_step.advance [where over = False]) code_simp+
  ultimately have "hub_reach (?h2\<lparr>hb_polls := (hb_polls ?h2)[0 := P_wait 0 0]\<rparr>)" by (rule hub_reach.step)
  moreover have "?h2\<lparr>hb_polls := (hb_polls ?h2)[0 := P_wait 0 0]\<rparr> = waiting_hub" by code_simp
  ultimately show ?thesis by simp
qed


text \<open>Two polls that have returned.\<close>

definition polled_hub :: hub where
  "polled_hub =
     (let h = do_publish 1700000000000000000 ''survival'' ''Alex'' ''hi'' new_hub;
          h = (do_poll 0 h)\<lparr>hb_polls := [P_done 0 [first_msg] 1]\<rparr>;
          h = do_publish 1700000001000000000 ''creative'' ''Kim'' ''hey'' h
      in (do_poll 1 h)\<lparr>hb_polls := [P_done 0 [first_msg] 1, P_done 1 [second_msg] 2]\<rparr>)"

lemma polled_hub_reach: "hub_reach polled_hub"
proof -
  let ?h1 = "do_poll 0 (do_publish 1700000000000000000 ''survival'' ''Alex'' ''hi'' new_hub)"
  let ?h2 = "?h1\<lparr>hb_polls := (hb_polls ?h1)[0 := P_done 0 [first_msg] 1]\<rparr>"
  let ?h3 = "do_poll 1 (do_publish 1700000001000000000 ''creative'' ''Kim'' ''hey'' ?h2)"
  let ?h4 = "?h3\<lparr>hb_polls := (hb_polls ?h3)[1 := P_done 1 [second_msg] 2]\<rparr>"
  have "hub_reach ?h1"
    by (rule hub_reach.step [OF hub_reach.step [OF hub_reach.start hub_step.publish] hub_step.poll])
  moreover have "hub_step ?h1 ?h2" by (rule hub_step.advance [where over = False]) code_simp+
  ultimately have "hub_reach ?h2" by (rule hub_reach.step)
  then have "hub_reach ?h3"
    by (rule hub_reach.step [OF hub_reach.step [OF _ hub_step.publish] hub_step.poll])
  moreover have "hub_step ?h3 ?h4" by (rule hub_step.advance [where over = False]) code_simp+
  ultimately have "hub_reach ?h4" by (rule hub_reach.step)
  moreover have "?h4 = polled_hub" by code_simp
  ultimately show ?thesis by simp
qed


end
