(* ===== verification/Api.thy ===== *)
theory Api
  imports Tickets Sideport Netguard Broker
begin

text \<open>
  \<^verbatim>\<open>internal/api/api.go\<close>: the HTTP API. A handler is a function from the request and the gateway's state
  (registry, side port manager, key-value store, broker) to the reply and the new state; an error reply
  is its status code with the reason. Each handler reads the clock once and is one step.

  Decoding the JSON body is outside the model: a request carries the decoded value or the decoder's
  error. The DNS, the address parser, the listeners and HMAC are parameters, as in the theories of the
  components. A call of the manager that would panic makes the whole step \<open>None\<close>; the lemmas show that
  none does. The HTML page and the start of the health check of a new server are not modelled (the
  step returns the servers to check). A poll is answered from the broker of the moment it returns.

  The lemmas show that every step keeps the invariants of the components, that only the owner's token
  changes a live server, its side ports or speaks in its name, that refused requests change nothing,
  what the public list reveals, and what a broadcast can contain.
\<close>

section \<open>Definitions\<close>

record owner_account =
  ow_token :: string
  ow_policy :: policy

text \<open>\<^verbatim>\<open>Options\<close>; the owners are in the map's iteration order, \<open>ao_tickets\<close> is the router if transfers are
  enabled.\<close>

record api_options =
  ao_owners :: "(string \<times> owner_account) list"
  ao_ttl :: duration
  ao_domain :: string
  ao_tickets :: "router_config option"
  ao_metrics_token :: string

record api_state =
  as_reg :: registry
  as_manager :: "manager option"
  as_store :: kv_store
  as_broker :: broker

definition bearer :: "string \<Rightarrow> string" where
  "bearer auth = fst (cut_prefix auth ''Bearer '')"

fun find_owner :: "string \<Rightarrow> (string \<times> owner_account) list \<Rightarrow> (string \<times> owner_account) option" where
  "find_owner token [] = None"
| "find_owner token ((name, ow) # os) = (if ow_token ow = token then Some (name, ow) else find_owner token os)"

definition api_owner :: "api_options \<Rightarrow> string \<Rightarrow> (string \<times> owner_account) option" where
  "api_owner opts auth =
     (let token = bearer auth in if token = [] then None else find_owner token (ao_owners opts))"

record public_server =
  ps_id :: string
  ps_name :: string
  ps_description :: string
  ps_join :: string
  ps_loader :: string
  ps_software :: string
  ps_version_name :: string
  ps_min_protocol :: int
  ps_max_protocol :: int
  ps_mods :: "string list"
  ps_online :: bool
  ps_players :: int
  ps_max_players :: int

definition public_of :: "string \<Rightarrow> server \<Rightarrow> public_server" where
  "public_of domain s =
     \<lparr>ps_id = sv_id s, ps_name = sv_name s, ps_description = sv_description s,
      ps_join = (if domain \<noteq> [] then sv_id s @ ''.'' @ domain else []),
      ps_loader = sv_loader s, ps_software = sv_software s, ps_version_name = sv_version_name s,
      ps_min_protocol = sv_min_protocol s, ps_max_protocol = sv_max_protocol s, ps_mods = sv_mods s,
      ps_online = sv_online s, ps_players = sv_players s, ps_max_players = sv_max_players s\<rparr>"

definition api_public :: "api_options \<Rightarrow> time \<Rightarrow> registry \<Rightarrow> public_server list" where
  "api_public opts now reg = map (public_of (ao_domain opts)) (filter (\<lambda>s. \<not> sv_hidden s) (reg_list now reg))"

record ticket_request =
  tr_player :: string
  tr_protocol :: int
  tr_target :: string

record global_request =
  gr_player :: string
  gr_message :: string

datatype api_error =
    AE_token | AE_json string | AE_address resolve_error | AE_registry reg_err | AE_unknown string
  | AE_not_owner string | AE_no_transfers | AE_player | AE_protocol | AE_target | AE_ticket ticket_err
  | AE_message

datatype api_reply =
    A_error nat api_error
  | A_no_content
  | A_saved server "server list"
  | A_servers "public_server list"
  | A_ticket ticket
  | A_seq int
  | A_messages "global_message list" int
  | A_ok

text \<open>\<^verbatim>\<open>playerName\<close>: letters, digits and underscores, 1 to 16 of them.\<close>

definition name_char :: "char \<Rightarrow> bool" where
  "name_char c \<longleftrightarrow> alnum_lower (ascii_lower c) \<or> c = CHR ''_''"

definition player_name :: "string \<Rightarrow> bool" where
  "player_name s \<longleftrightarrow> 1 \<le> length s \<and> length s \<le> 16 \<and> list_all name_char s"

text \<open>\<^verbatim>\<open>controlChars.ReplaceAllString(s, "")\<close>: the C0 control characters, DEL and the section sign, whose
  UTF-8 encoding is C2 A7, are removed; neither byte of it occurs inside another character.\<close>

definition ascii_control :: "char \<Rightarrow> bool" where
  "ascii_control c \<longleftrightarrow> (of_char c :: nat) < 0x20 \<or> (of_char c :: nat) = 0x7f"

fun strip_controls :: "string \<Rightarrow> string" where
  "strip_controls (c # d # s) =
     (if ascii_control c then strip_controls (d # s)
      else if (of_char c :: nat) = 0xc2 \<and> (of_char d :: nat) = 0xa7 then strip_controls s
      else c # strip_controls (d # s))"
| "strip_controls [c] = (if ascii_control c then [] else [c])"
| "strip_controls [] = []"

text \<open>\<^verbatim>\<open>strconv.ParseInt(s, 10, 64)\<close> with its error ignored: 0 on a syntax error, the nearest bound when
  out of range.\<close>

definition parse_int_value :: "string \<Rightarrow> int" where
  "parse_int_value s =
     (case parse_int s of
        Some n \<Rightarrow> n
      | None \<Rightarrow>
          (let neg = has_prefix s ''-''; body = (if neg \<or> has_prefix s ''+'' then tl s else s)
           in if body = [] \<or> parse_digits 0 body = None then 0 else if neg then - (2 ^ 63) else 2 ^ 63 - 1))"

section \<open>Handlers\<close>

definition api_register ::
  "(string \<Rightarrow> netip option) \<Rightarrow> (string \<Rightarrow> string + netip list) \<Rightarrow> (string \<Rightarrow> int \<Rightarrow> bool) \<Rightarrow> api_options \<Rightarrow> time
    \<Rightarrow> string \<Rightarrow> string \<Rightarrow> (string + server) \<Rightarrow> api_state \<Rightarrow> (api_reply \<times> api_state) option" where
  "api_register parse_addr dns os opts now auth i body st =
     (case api_owner opts auth of
        None \<Rightarrow> Some (A_error 401 AE_token, st)
      | Some (name, ow) \<Rightarrow>
      (case body of
        Inl e \<Rightarrow> Some (A_error 400 (AE_json e), st)
      | Inr s \<Rightarrow>
      let s = s\<lparr>sv_id := i\<rparr> in
      (case resolve parse_addr dns (ow_policy ow) (sv_address s) of
        Inl e \<Rightarrow> Some (A_error 403 (AE_address e), st)
      | Inr _ \<Rightarrow>
      let prev = reg_get now (as_reg st) (to_lower (sv_id s)) in
      (case upsert name s (ao_ttl opts) now (as_reg st) of
        Inl R_conflict \<Rightarrow> Some (A_error 409 (AE_registry R_conflict), st)
      | Inl e \<Rightarrow> Some (A_error 400 (AE_registry e), st)
      | Inr (srv, reg) \<Rightarrow>
          let checks = (if (case prev of None \<Rightarrow> True | Some p \<Rightarrow> sv_address p \<noteq> sv_address srv)
                        then [srv] else [])
          in (case as_manager st of
                None \<Rightarrow> Some (A_saved srv checks, st\<lparr>as_reg := reg\<rparr>)
              | Some m \<Rightarrow>
                  (case mg_sync os now srv m of
                     None \<Rightarrow> None
                   | Some (out, m) \<Rightarrow>
                       Some (A_saved (srv\<lparr>sv_side_ports := out\<rparr>) checks,
                             st\<lparr>as_reg := set_side_ports (sv_id srv) out reg, as_manager := Some m\<rparr>)))))))"

definition api_unregister ::
  "api_options \<Rightarrow> time \<Rightarrow> string \<Rightarrow> string \<Rightarrow> api_state \<Rightarrow> api_reply \<times> api_state" where
  "api_unregister opts now auth path st =
     (case api_owner opts auth of
        None \<Rightarrow> (A_error 401 AE_token, st)
      | Some (name, _) \<Rightarrow>
          (let i = to_lower path in
           case remove name i (as_reg st) of
             Inl R_not_found \<Rightarrow> (A_error 404 (AE_registry R_not_found), st)
           | Inl e \<Rightarrow> (A_error 403 (AE_registry e), st)
           | Inr reg \<Rightarrow>
               (A_no_content,
                st\<lparr>as_reg := reg, as_manager := map_option (mg_release_server now i) (as_manager st)\<rparr>)))"

text \<open>The checks that a ticket and a broadcast request have in common: a valid token, and that it owns the
  server it names.\<close>

definition owned_server ::
  "api_options \<Rightarrow> time \<Rightarrow> string \<Rightarrow> string \<Rightarrow> api_state \<Rightarrow> api_reply + server" where
  "owned_server opts now auth path st =
     (case api_owner opts auth of
        None \<Rightarrow> Inl (A_error 401 AE_token)
      | Some (name, _) \<Rightarrow>
          (let i = to_lower path in
           case reg_get now (as_reg st) i of
             None \<Rightarrow> Inl (A_error 404 (AE_unknown i))
           | Some src \<Rightarrow> if sv_owner src \<noteq> name then Inl (A_error 403 (AE_not_owner i)) else Inr src))"

definition api_ticket ::
  "hmac \<Rightarrow> api_options \<Rightarrow> time \<Rightarrow> string \<Rightarrow> string \<Rightarrow> (string + ticket_request) \<Rightarrow> api_state \<Rightarrow> api_reply \<times> api_state" where
  "api_ticket hmac opts now auth path body st =
     (case owned_server opts now auth path st of
        Inl r \<Rightarrow> (r, st)
      | Inr _ \<Rightarrow>
      (case ao_tickets opts of
        None \<Rightarrow> (A_error 501 AE_no_transfers, st)
      | Some cfg \<Rightarrow>
      (case body of
        Inl e \<Rightarrow> (A_error 400 (AE_json e), st)
      | Inr req \<Rightarrow>
          if \<not> player_name (tr_player req) then (A_error 400 AE_player, st)
          else if tr_protocol req \<le> 0 then (A_error 400 AE_protocol, st)
          else if trim_space (tr_target req) = [] then (A_error 400 AE_target, st)
          else (case issue_ticket hmac cfg now (as_reg st) (tr_player req) (tr_protocol req) (tr_target req) (as_store st) of
                  (Inl ErrUnknownTarget, s) \<Rightarrow> (A_error 404 (AE_ticket ErrUnknownTarget), st\<lparr>as_store := s\<rparr>)
                | (Inl ErrIncompatible, s) \<Rightarrow> (A_error 409 (AE_ticket ErrIncompatible), st\<lparr>as_store := s\<rparr>)
                | (Inl ErrNoPublicAddress, s) \<Rightarrow> (A_error 503 (AE_ticket ErrNoPublicAddress), st\<lparr>as_store := s\<rparr>)
                | (Inr t, s) \<Rightarrow> (A_ticket t, st\<lparr>as_store := s\<rparr>)))))"

definition api_post_global ::
  "api_options \<Rightarrow> time \<Rightarrow> string \<Rightarrow> string \<Rightarrow> (string + global_request) \<Rightarrow> api_state \<Rightarrow> api_reply \<times> api_state" where
  "api_post_global opts now auth path body st =
     (case owned_server opts now auth path st of
        Inl r \<Rightarrow> (r, st)
      | Inr src \<Rightarrow>
      (case body of
        Inl e \<Rightarrow> (A_error 400 (AE_json e), st)
      | Inr req \<Rightarrow>
          (let msg = strip_controls (trim_space (gr_message req)) in
           if \<not> player_name (gr_player req) then (A_error 400 AE_player, st)
           else if msg = [] then (A_error 400 AE_message, st)
           else let msg = (if length msg > 256 then take 256 msg else msg) in
             case publish now (sv_id src) (gr_player req) msg (as_broker st) of
               ((n, _), b) \<Rightarrow> (A_seq n, st\<lparr>as_broker := b\<rparr>))))"

definition api_poll_global :: "api_options \<Rightarrow> string \<Rightarrow> string option \<Rightarrow> api_state \<Rightarrow> api_reply" where
  "api_poll_global opts auth after st =
     (case api_owner opts auth of
        None \<Rightarrow> A_error 401 AE_token
      | Some _ \<Rightarrow>
          (case after of
             None \<Rightarrow> A_messages [] (current (as_broker st))
           | Some a \<Rightarrow> (case since (parse_int_value a) (as_broker st) of (msgs, n) \<Rightarrow> A_messages msgs n)))"

datatype api_request =
    Q_healthz
  | Q_list
  | Q_register string "string + server"
  | Q_unregister string
  | Q_ticket string "string + ticket_request"
  | Q_post string "string + global_request"
  | Q_poll "string option"

text \<open>The routes of \<^verbatim>\<open>New\<close>.\<close>

fun api_step ::
  "hmac \<Rightarrow> (string \<Rightarrow> netip option) \<Rightarrow> (string \<Rightarrow> string + netip list) \<Rightarrow> (string \<Rightarrow> int \<Rightarrow> bool) \<Rightarrow> api_options \<Rightarrow> time
    \<Rightarrow> string \<Rightarrow> api_request \<Rightarrow> api_state \<Rightarrow> (api_reply \<times> api_state) option" where
  "api_step hmac pa dns os opts now auth Q_healthz st = Some (A_ok, st)"
| "api_step hmac pa dns os opts now auth Q_list st = Some (A_servers (api_public opts now (as_reg st)), st)"
| "api_step hmac pa dns os opts now auth (Q_register i body) st = api_register pa dns os opts now auth i body st"
| "api_step hmac pa dns os opts now auth (Q_unregister i) st = Some (api_unregister opts now auth i st)"
| "api_step hmac pa dns os opts now auth (Q_ticket i body) st = Some (api_ticket hmac opts now auth i body st)"
| "api_step hmac pa dns os opts now auth (Q_post i body) st = Some (api_post_global opts now auth i body st)"
| "api_step hmac pa dns os opts now auth (Q_poll after) st = Some (api_poll_global opts auth after st, st)"

section \<open>Clean broadcasts\<close>

text \<open>In valid UTF-8 every byte C2 is followed by a continuation byte.\<close>

fun lead_ok :: "nat list \<Rightarrow> bool" where
  "lead_ok (x # y # s) \<longleftrightarrow> (x = 0xc2 \<longrightarrow> cont_byte y) \<and> lead_ok (y # s)"
| "lead_ok [x] \<longleftrightarrow> x \<noteq> 0xc2"
| "lead_ok [] \<longleftrightarrow> True"

lemma lead_ok_Cons: "x \<noteq> 0xc2 \<Longrightarrow> lead_ok (x # s) = lead_ok s"
  by (cases s) auto

lemma lead_ok_decoded:
  assumes "decode_nats xs = (r, n)" and "(r, n) \<noteq> bad_rune" and "lead_ok (drop n xs)"
  shows "lead_ok xs"
proof (cases xs)
  case (Cons x ys)
  have c: "cont_byte y \<Longrightarrow> y \<noteq> 0xc2" for y by (simp add: cont_byte_def)
  show ?thesis
    using assms Cons
    by (cases "(x, ys)" rule: decode2.cases; cases "(x, ys)" rule: decode3.cases; cases "(x, ys)" rule: decode4.cases)
      (auto simp: bad_rune_def lead_ok_Cons c cont_byte_def split: if_splits)
qed simp

lemma utf8_lead_ok: "utf8_valid bs \<Longrightarrow> lead_ok (map unat bs)"
proof (induction bs rule: utf8_valid.induct)
  case (2 b bs)
  obtain r n where d: "decode_rune (b # bs) = (r, n)" by (metis prod.exhaust)
  then have v: "(r, n) \<noteq> bad_rune" "utf8_valid (drop n (b # bs))"
    using "2.prems" by (auto simp: utf8_valid.simps)
  have "lead_ok (drop n (map unat (b # bs)))"
    unfolding drop_map using "2.IH" [OF d [symmetric]] v by blast
  then show ?case
    by (rule lead_ok_decoded [OF d [unfolded decode_rune_def] v(1)])
qed simp

definition codes :: "string \<Rightarrow> nat list" where
  "codes s = map of_char s"

lemma codes_bytes: "map unat (bytes s) = codes s"
  by (simp add: codes_def bytes_def byte_of_char_def unat_of_nat)

lemma lead_ok_drop: "lead_ok xs \<Longrightarrow> lead_ok (drop n xs)"
proof (induction xs arbitrary: n rule: lead_ok.induct)
  case (1 x y s)
  then show ?case by (cases n) auto
next
  case (2 x)
  then show ?case by (cases n) auto
qed simp

lemma lead_ok_butlast: "lead_ok (xs @ [x]) \<Longrightarrow> \<not> cont_byte x \<Longrightarrow> lead_ok xs"
  by (induction xs rule: lead_ok.induct) auto

lemma lead_ok_trim:
  assumes "lead_ok (codes s)"
  shows "lead_ok (codes (trim_space s))"
proof -
  have r: "lead_ok (codes (rev (dropWhile is_space (rev t))))" if "lead_ok (codes t)" for t
    using that
  proof (induction t rule: rev_induct)
    case (snoc c t)
    have "\<not> cont_byte (of_char c)" if "is_space c" using that by (auto simp: is_space_def cont_byte_def Let_def)
    then show ?case using snoc lead_ok_butlast [of "codes t" "of_char c"] by (auto simp: codes_def)
  qed simp
  have "dropWhile is_space s = drop (length (takeWhile is_space s)) s" by (simp add: dropWhile_eq_drop)
  then have "lead_ok (codes (dropWhile is_space s))"
    using lead_ok_drop [OF assms] by (simp add: codes_def drop_map)
  from r [OF this] show ?thesis by (simp add: trim_space_def)
qed

text \<open>No section sign and no control character.\<close>

fun no_section :: "nat list \<Rightarrow> bool" where
  "no_section (x # y # s) \<longleftrightarrow> \<not> (x = 0xc2 \<and> y = 0xa7) \<and> no_section (y # s)"
| "no_section _ \<longleftrightarrow> True"

lemma no_section_Cons: "x \<noteq> 0xc2 \<Longrightarrow> no_section (x # s) = no_section s"
  by (cases s) auto

lemma no_section_take: "no_section xs \<Longrightarrow> no_section (take n xs)"
proof (induction xs arbitrary: n rule: no_section.induct)
  case (1 x y s)
  show ?case
  proof (cases n)
    case (Suc m)
    then show ?thesis using "1.prems" "1.IH" [of m] by (cases m) auto
  qed simp
qed (auto simp: take_Cons split: nat.splits)

lemma strip_head:
  assumes "\<not> ascii_control c" "(of_char c :: nat) \<noteq> 0xc2"
  shows "strip_controls (c # s) = c # strip_controls s"
  using assms by (cases s) auto

lemma strip_clean:
  assumes "lead_ok (codes s)"
  shows "no_section (codes (strip_controls s)) \<and> list_all (\<lambda>c. \<not> ascii_control c) (strip_controls s)"
  using assms
proof (induction s rule: strip_controls.induct)
  case (1 c d s)
  consider "ascii_control c" | "\<not> ascii_control c" "(of_char c :: nat) = 0xc2" "(of_char d :: nat) = 0xa7"
    | "\<not> ascii_control c" "(of_char c :: nat) = 0xc2" "(of_char d :: nat) \<noteq> 0xa7"
    | "\<not> ascii_control c" "(of_char c :: nat) \<noteq> 0xc2" by blast
  then show ?case
  proof cases
    case 3
    then have d: "cont_byte (of_char d)" using "1.prems" by (simp add: codes_def)
    then have d': "\<not> ascii_control d" "(of_char d :: nat) \<noteq> 0xc2"
      by (auto simp: cont_byte_def ascii_control_def)
    then show ?thesis
      using 3 1 by (auto simp: codes_def strip_head)
  qed (use 1 in \<open>auto simp: codes_def lead_ok_Cons no_section_Cons ascii_control_def cont_byte_def\<close>)
next
  case (2 c)
  then show ?case by (simp add: codes_def)
qed (simp add: codes_def)

definition clean_message :: "global_message \<Rightarrow> bool" where
  "clean_message m \<longleftrightarrow>
     player_name (gm_player m) \<and> gm_message m \<noteq> [] \<and> length (gm_message m) \<le> 256
     \<and> list_all (\<lambda>c. \<not> ascii_control c) (gm_message m) \<and> no_section (codes (gm_message m))"

section \<open>The invariant\<close>

definition api_inv :: "api_state \<Rightarrow> bool" where
  "api_inv st \<longleftrightarrow>
     reg_inv (as_reg st) \<and> (\<forall>m. as_manager st = Some m \<longrightarrow> mg_inv m) \<and> kv_inv (as_store st)
     \<and> (\<exists>hs. broker_ok (as_broker st) hs) \<and> list_all clean_message (br_ring (as_broker st))"

text \<open>The JSON decoder yields valid UTF-8 only.\<close>

fun decoded :: "api_request \<Rightarrow> bool" where
  "decoded (Q_post i (Inr req)) \<longleftrightarrow> utf8_valid (bytes (gr_message req))"
| "decoded _ \<longleftrightarrow> True"

lemma publish_ring:
  assumes "publish now i player msg b = ((n, ch), b')"
  shows "set (br_ring b') \<subseteq> insert \<lparr>gm_seq = n, gm_server = i, gm_player = player, gm_message = msg,
    gm_time = unix_sec now\<rparr> (set (br_ring b))"
  using assms by (auto simp: publish_def Let_def dest!: in_set_dropD split: if_splits)

lemma published_clean:
  assumes "list_all clean_message (br_ring b)" and "publish now i player msg b = ((n, ch), b')"
    and "player_name player" "msg \<noteq> []" "length msg \<le> 256" "no_section (codes msg)"
    and "list_all (\<lambda>c. \<not> ascii_control c) msg"
  shows "list_all clean_message (br_ring b')"
proof -
  have "clean_message \<lparr>gm_seq = n, gm_server = i, gm_player = player, gm_message = msg, gm_time = unix_sec now\<rparr>"
    using assms(3-7) by (simp add: clean_message_def)
  then show ?thesis using publish_ring [OF assms(2)] assms(1) unfolding list_all_iff by blast
qed

lemma mg_sync_inv: "mg_inv m \<Longrightarrow> valid_server srv \<Longrightarrow> mg_sync os now srv m = Some (out, m') \<Longrightarrow> mg_inv m'"
  using mg_step_some [of "M_sync os srv" m now] by auto

lemma mg_release_server_inv: "mg_inv m \<Longrightarrow> mg_inv (mg_release_server now i m)"
  using mg_step_some [of "M_release i" m now] by auto

lemma stored_valid: "valid_server v \<Longrightarrow> valid_server (stored owner ttl now old v)"
  by (simp add: stored_def valid_server_def copy_live_def Let_def split: option.splits)

lemma upsert_valid: "upsert owner s ttl now r = Inr (s', r') \<Longrightarrow> valid_server s'"
  by (auto simp: upsert_eq_Inr intro: stored_valid validate_valid)

lemma issue_ticket_inv: "kv_inv st \<Longrightarrow> kv_inv (snd (issue_ticket hmac cfg now reg player protocol target st))"
  by (simp add: issue_ticket_def Let_def pending_set_def pending_clear_def store_set_inv store_delete_inv split: sum.splits)

text \<open>An accepted registration, in one equation.\<close>

lemma api_register_cases:
  assumes "api_register pa dns os opts now auth i body st = Some (r, st')"
  obtains code e where "st' = st" "r = A_error code e" "400 \<le> code"
  | name ow s srv reg checks where "api_owner opts auth = Some (name, ow)" "body = Inr s"
      "\<exists>ips. resolve pa dns (ow_policy ow) (sv_address s) = Inr ips"
      "upsert name (s\<lparr>sv_id := i\<rparr>) (ao_ttl opts) now (as_reg st) = Inr (srv, reg)"
      "as_manager st = None" "r = A_saved srv checks" "st' = st\<lparr>as_reg := reg\<rparr>"
  | name ow s srv reg checks m out m' where "api_owner opts auth = Some (name, ow)" "body = Inr s"
      "\<exists>ips. resolve pa dns (ow_policy ow) (sv_address s) = Inr ips"
      "upsert name (s\<lparr>sv_id := i\<rparr>) (ao_ttl opts) now (as_reg st) = Inr (srv, reg)"
      "as_manager st = Some m" "mg_sync os now srv m = Some (out, m')"
      "r = A_saved (srv\<lparr>sv_side_ports := out\<rparr>) checks"
      "st' = st\<lparr>as_reg := set_side_ports (sv_id srv) out reg, as_manager := Some m'\<rparr>"
proof -
  note refused = that(1) and plain = that(2) and synced = that(3)
  show thesis
  proof (cases "api_owner opts auth")
    case None
    then show thesis using assms by (auto simp: api_register_def intro: refused)
  next
    case (Some own)
    obtain name ow where own: "api_owner opts auth = Some (name, ow)" using Some by (cases own) simp
    show thesis
    proof (cases body)
      case (Inl e)
      then show thesis using assms own by (auto simp: api_register_def intro: refused)
    next
      case s: (Inr s)
      show thesis
      proof (cases "resolve pa dns (ow_policy ow) (sv_address s)")
        case (Inl e)
        then show thesis using assms own s by (auto simp: api_register_def Let_def intro: refused)
      next
        case ips: (Inr ips)
        show thesis
        proof (cases "upsert name (s\<lparr>sv_id := i\<rparr>) (ao_ttl opts) now (as_reg st)")
          case (Inl e)
          then show thesis using assms own s ips by (cases e) (auto simp: api_register_def Let_def intro: refused)
        next
          case (Inr sr)
          then obtain srv reg where u: "upsert name (s\<lparr>sv_id := i\<rparr>) (ao_ttl opts) now (as_reg st) = Inr (srv, reg)"
            by (cases sr) simp
          have ok: "\<exists>ips. resolve pa dns (ow_policy ow) (sv_address s) = Inr ips" using ips by blast
          show thesis
          proof (cases "as_manager st")
            case None
            then have "\<exists>checks. r = A_saved srv checks \<and> st' = st\<lparr>as_reg := reg\<rparr>"
              using assms by (auto simp: api_register_def own s ips u Let_def)
            then show thesis using plain [OF own s ok u None] by blast
          next
            case m: (Some m)
            obtain out m' where y: "mg_sync os now srv m = Some (out, m')"
              using assms by (auto simp: api_register_def own s ips u m Let_def split: option.splits)
            then have "\<exists>checks. r = A_saved (srv\<lparr>sv_side_ports := out\<rparr>) checks
                \<and> st' = st\<lparr>as_reg := set_side_ports (sv_id srv) out reg, as_manager := Some m'\<rparr>"
              using assms by (auto simp: api_register_def own s ips u m Let_def)
            then show thesis using synced [OF own s ok u m y] by blast
          qed
        qed
      qed
    qed
  qed
qed

lemma api_register_some:
  assumes "api_inv st"
  shows "\<exists>r st'. api_register pa dns os opts now auth i body st = Some (r, st')"
proof (rule ccontr)
  assume "\<not> ?thesis"
  then have n: "api_register pa dns os opts now auth i body st = None"
    by (metis not_None_eq surj_pair)
  then obtain name s srv reg m where "upsert name s (ao_ttl opts) now (as_reg st) = Inr (srv, reg)"
    "mg_sync os now srv m = None"
    by (auto simp: api_register_def Let_def split: option.splits sum.splits prod.splits reg_err.splits)
  then show False using mg_sync_some upsert_valid by (metis option.distinct(1))
qed

text \<open>The other handlers.\<close>

lemma api_unregister_cases:
  assumes "api_unregister opts now auth path st = (r, st')"
  obtains code e where "st' = st" "r = A_error code e" "400 \<le> code"
  | name ow reg where "api_owner opts auth = Some (name, ow)" "remove name (to_lower path) (as_reg st) = Inr reg"
      "r = A_no_content"
      "st' = st\<lparr>as_reg := reg, as_manager := map_option (mg_release_server now (to_lower path)) (as_manager st)\<rparr>"
proof -
  note refused = that(1) and removed = that(2)
  show thesis
  proof (cases "api_owner opts auth")
    case None
    then show thesis using assms by (auto simp: api_unregister_def intro: refused)
  next
    case (Some own)
    obtain name ow where own: "api_owner opts auth = Some (name, ow)" using Some by (cases own) simp
    show thesis
    proof (cases "remove name (to_lower path) (as_reg st)")
      case (Inl e)
      then show thesis using assms own
        by (cases e) (auto simp: api_unregister_def Let_def intro: refused)
    next
      case (Inr reg)
      then show thesis using assms own removed [OF own Inr] by (simp add: api_unregister_def Let_def)
    qed
  qed
qed

lemma owned_server_Inl:
  "owned_server opts now auth path st = Inl r \<Longrightarrow> \<exists>code e. r = A_error code e \<and> 400 \<le> code"
  by (auto simp: owned_server_def Let_def split: option.splits prod.splits if_splits)

lemma owned_server_Inr:
  "owned_server opts now auth path st = Inr src \<Longrightarrow>
   \<exists>name ow. api_owner opts auth = Some (name, ow) \<and> reg_get now (as_reg st) (to_lower path) = Some src
     \<and> sv_owner src = name"
  by (auto simp: owned_server_def Let_def split: option.splits prod.splits if_splits)

lemma issue_ticket_refused:
  "issue_ticket hmac cfg now reg player protocol target st = (Inl e, st') \<Longrightarrow> st' = st"
  by (auto simp: issue_ticket_def Let_def split: sum.splits if_splits)

lemma api_ticket_cases:
  assumes "api_ticket hmac opts now auth path body st = (r, st')"
  obtains code e where "st' = st" "r = A_error code e" "400 \<le> code"
  | src cfg req t s where "owned_server opts now auth path st = Inr src" "ao_tickets opts = Some cfg" "body = Inr req"
      "player_name (tr_player req)" "0 < tr_protocol req"
      "issue_ticket hmac cfg now (as_reg st) (tr_player req) (tr_protocol req) (tr_target req) (as_store st) = (Inr t, s)"
      "r = A_ticket t" "st' = st\<lparr>as_store := s\<rparr>"
proof -
  note refused = that(1) and issued = that(2)
  show thesis
  proof (cases "owned_server opts now auth path st")
    case (Inl x)
    then show thesis using assms owned_server_Inl [OF Inl] refused by (auto simp: api_ticket_def)
  next
    case o: (Inr src)
    show thesis
    proof (cases "ao_tickets opts")
      case None
      then show thesis using assms o by (auto simp: api_ticket_def intro: refused)
    next
      case c: (Some cfg)
      show thesis
      proof (cases body)
        case (Inl e)
        then show thesis using assms o c by (auto simp: api_ticket_def intro: refused)
      next
        case b: (Inr req)
        show thesis
        proof (cases "issue_ticket hmac cfg now (as_reg st) (tr_player req) (tr_protocol req) (tr_target req) (as_store st)")
          case (Pair x s)
          show thesis
          proof (cases x)
            case (Inl e)
            with Pair have s: "s = as_store st" using issue_ticket_refused by blast
            show thesis using assms o c b Pair Inl s
              by (cases e) (auto simp: api_ticket_def split: if_splits intro: refused)
          next
            case (Inr t)
            show thesis using assms o c b Pair Inr issued [OF o c b _ _ Pair [unfolded Inr]]
              by (auto simp: api_ticket_def split: if_splits intro: refused)
          qed
        qed
      qed
    qed
  qed
qed

lemma api_post_cases:
  assumes "api_post_global opts now auth path body st = (r, st')"
  obtains code e where "st' = st" "r = A_error code e" "400 \<le> code"
  | src req n ch b where "owned_server opts now auth path st = Inr src" "body = Inr req" "player_name (gr_player req)"
      "strip_controls (trim_space (gr_message req)) \<noteq> []"
      "publish now (sv_id src) (gr_player req) (take 256 (strip_controls (trim_space (gr_message req)))) (as_broker st)
         = ((n, ch), b)"
      "r = A_seq n" "st' = st\<lparr>as_broker := b\<rparr>"
proof -
  note refused = that(1) and posted = that(2)
  show thesis
  proof (cases "owned_server opts now auth path st")
    case (Inl x)
    then show thesis using assms owned_server_Inl [OF Inl] refused by (auto simp: api_post_global_def)
  next
    case o: (Inr src)
    show thesis
    proof (cases body)
      case (Inl e)
      then show thesis using assms o by (auto simp: api_post_global_def intro: refused)
    next
      case b: (Inr req)
      let ?msg = "strip_controls (trim_space (gr_message req))"
      have t: "(if length ?msg > 256 then take 256 ?msg else ?msg) = take 256 ?msg" by simp
      obtain n ch br where p: "publish now (sv_id src) (gr_player req) (take 256 ?msg) (as_broker st) = ((n, ch), br)"
        by (metis prod.exhaust)
      show thesis
        using assms posted [OF o b _ _ p]
        by (auto simp: api_post_global_def o b Let_def t p simp del: length_greater_0_conv
            split: if_splits intro: refused)
    qed
  qed
qed

text \<open>Synchronising a server leaves the bindings of the other servers alone, enabled or not.\<close>

lemma mg_sync_others:
  assumes "mg_inv m" and "valid_server srv" and "mg_sync os now srv m = Some (out, m')"
  shows "others_kept {k. sk_server k = sv_id srv} m m'"
proof (cases "mg_enabled m")
  case True
  have "distinct (map sp_name (sv_side_ports srv))" using assms(2) by (simp add: valid_server_def)
  then show ?thesis by (rule mg_sync_spec(2) [OF assms(1) True assms(3)])
next
  case False
  let ?P = "\<lambda>k. sk_server k = sv_id srv \<and> k \<notin> set (map (side_key_of srv) (sv_side_ports srv))"
  have "m' = release_where now ?P m"
    using assms(3) False by (auto simp: mg_sync_def sync_ports_disabled)
  then have "others_kept {k. ?P k} m m'" using release_where_spec [OF assms(1)] by blast
  then show ?thesis by (rule others_kept_mono) blast
qed

lemma mg_release_others: "mg_inv m \<Longrightarrow> others_kept {k. sk_server k = i} m (mg_release_server now i m)"
  unfolding mg_release_server_def using release_where_spec by blast

lemma reg_get_update: "j \<noteq> i \<Longrightarrow> reg_get now (AList.update j s r) i = reg_get now r i"
  by (simp add: reg_get_def)

lemma reg_get_side_ports: "j \<noteq> i \<Longrightarrow> reg_get now (set_side_ports j ports r) i = reg_get now r i"
  by (cases "map_of r j") (auto simp: reg_get_def set_side_ports_def)

text \<open>A registration or removal by another owner does not concern a live server.\<close>

lemma upsert_foreign:
  assumes "reg_get now r i = Some s" and "sv_owner s \<noteq> name" and "upsert name v ttl now r = Inr (srv, r')"
  shows "sv_id srv \<noteq> i" "reg_get now r' i = Some s"
proof -
  obtain w where w: "\<forall>o'. map_of r (sv_id w) = Some o' \<longrightarrow> sv_owner o' = name \<or> expired now o'"
    "srv = stored name ttl now (map_of r (sv_id w)) w" "r' = AList.update (sv_id w) srv r"
    using assms(3) unfolding upsert_eq_Inr by blast
  then show "sv_id srv \<noteq> i" using assms(1,2) by (auto simp: reg_get_eq)
  with w show "reg_get now r' i = Some s" using assms(1) by (simp add: reg_get_update)
qed

lemma remove_foreign:
  assumes "reg_get now r i = Some s" and "sv_owner s \<noteq> name" and "remove name j r = Inr r'"
  shows "j \<noteq> i" "reg_get now r' i = Some s"
proof -
  have j: "r' = AList.delete j r" "\<exists>o'. map_of r j = Some o' \<and> sv_owner o' = name"
    using assms(3) by (auto simp: remove_def split: option.splits if_splits)
  then show "j \<noteq> i" using assms(1,2) by (auto simp: reg_get_eq)
  with j show "reg_get now r' i = Some s" using assms(1) by (simp add: reg_get_def)
qed

section \<open>Properties\<close>

lemma api_step_inv:
  assumes "api_inv st" and "decoded rq"
  shows "\<exists>r st'. api_step hmac pa dns os opts now auth rq st = Some (r, st') \<and> api_inv st'"
proof (cases rq)
  case (Q_register i body)
  obtain r st' where s: "api_register pa dns os opts now auth i body st = Some (r, st')"
    using api_register_some [OF assms(1)] by blast
  then have "api_inv st'"
  proof (cases rule: api_register_cases)
    case 1
    then show ?thesis using assms(1) by simp
  next
    case 2
    then show ?thesis using assms(1) upsert_inv by (auto simp: api_inv_def)
  next
    case (3 name ow s srv reg checks m out m')
    have "mg_inv m" using assms(1) 3(5) by (simp add: api_inv_def)
    then have "mg_inv m'" by (rule mg_sync_inv [OF _ upsert_valid [OF 3(4)] 3(6)])
    moreover have "reg_inv (set_side_ports (sv_id srv) out reg)"
      using assms(1) upsert_inv [OF _ 3(4)] by (simp add: api_inv_def set_side_ports_inv)
    ultimately have "reg_inv (set_side_ports (sv_id srv) out reg)" "mg_inv m'" by simp_all
    then show ?thesis using assms(1) 3 by (simp add: api_inv_def)
  qed
  then show ?thesis using s Q_register by simp
next
  case (Q_unregister i)
  obtain r st' where s: "api_unregister opts now auth i st = (r, st')" by fastforce
  then have "api_inv st'"
  proof (cases rule: api_unregister_cases)
    case 1
    then show ?thesis using assms(1) by simp
  next
    case 2
    then show ?thesis using assms(1) remove_inv mg_release_server_inv by (auto simp: api_inv_def)
  qed
  then show ?thesis using s Q_unregister by simp
next
  case (Q_ticket i body)
  obtain r st' where s: "api_ticket hmac opts now auth i body st = (r, st')" by fastforce
  then have "api_inv st'"
  proof (cases rule: api_ticket_cases)
    case 1
    then show ?thesis using assms(1) by simp
  next
    case (2 src cfg req t s)
    then have "kv_inv s"
      using assms(1) issue_ticket_inv by (metis api_inv_def snd_conv)
    then show ?thesis using assms(1) 2 by (simp add: api_inv_def)
  qed
  then show ?thesis using s Q_ticket by simp
next
  case (Q_post i body)
  obtain r st' where s: "api_post_global opts now auth i body st = (r, st')" by fastforce
  then have "api_inv st'"
  proof (cases rule: api_post_cases)
    case 1
    then show ?thesis using assms(1) by simp
  next
    case (2 src req n ch b)
    let ?msg = "strip_controls (trim_space (gr_message req))"
    have "lead_ok (codes (trim_space (gr_message req)))"
      using assms(2) Q_post 2(2) utf8_lead_ok lead_ok_trim by (auto simp: codes_bytes [symmetric])
    then have c: "no_section (codes ?msg)" "list_all (\<lambda>c. \<not> ascii_control c) ?msg" using strip_clean by blast+
    then have "no_section (codes (take 256 ?msg))" "list_all (\<lambda>c. \<not> ascii_control c) (take 256 ?msg)"
      using no_section_take [of "codes ?msg" 256] by (auto simp: codes_def take_map list_all_iff dest: in_set_takeD)
    moreover have "list_all clean_message (br_ring (as_broker st))" using assms(1) by (simp add: api_inv_def)
    ultimately have "list_all clean_message (br_ring b)"
      using published_clean [OF _ 2(5) 2(3)] 2(4) by simp
    moreover obtain hs where "broker_ok (as_broker st) hs" using assms(1) by (auto simp: api_inv_def)
    note publish_ok(1) [OF this 2(5)]
    ultimately show ?thesis using assms(1) 2(7) by (auto simp: api_inv_def)
  qed
  then show ?thesis using s Q_post by simp
qed (use assms in auto)

lemma api_invariant_step:
  "api_inv st \<Longrightarrow> decoded rq \<Longrightarrow> api_step hmac pa dns os opts now auth rq st = Some (r, st') \<Longrightarrow> api_inv st'"
  using api_step_inv [of st rq hmac pa dns os opts now auth] by auto

text \<open>No request breaks the gateway's state: every handler returns, and the registry, the side port
  bindings, the key-value store and the broadcast window keep their invariants, every broadcast in the
  window being 1 to 256 bytes from a valid player name without control characters or section signs.\<close>

theorem api_invariant:
  assumes "api_inv st" and "decoded rq"
  shows "\<exists>r st'. api_step hmac pa dns os opts now auth rq st = Some (r, st') \<and> api_inv st'"
  by (rule api_step_inv [OF assms])


definition needs_token :: "api_request \<Rightarrow> bool" where
  "needs_token rq \<longleftrightarrow> rq \<noteq> Q_healthz \<and> rq \<noteq> Q_list"

text \<open>C39: A request that is refused changes nothing, and the requests that need a token are refused with
  status 401 exactly when they carry no valid one.\<close>

theorem api_refusal:
  assumes "api_step hmac pa dns os opts now auth rq st = Some (r, st')"
  shows "(r = A_error code e \<longrightarrow> st' = st \<and> 400 \<le> code \<and> needs_token rq)
    \<and> (needs_token rq \<longrightarrow> (r = A_error 401 AE_token \<longleftrightarrow> api_owner opts auth = None))"
proof (cases rq)
  case (Q_register i body)
  then have a: "api_register pa dns os opts now auth i body st = Some (r, st')" using assms by simp
  then have "r = A_error 401 AE_token \<longleftrightarrow> api_owner opts auth = None"
    by (auto simp: api_register_def Let_def split: option.splits sum.splits prod.splits reg_err.splits)
  with a Q_register show ?thesis by (cases rule: api_register_cases) (auto simp: needs_token_def)
next
  case (Q_unregister i)
  then have a: "api_unregister opts now auth i st = (r, st')" using assms by simp
  then have "r = A_error 401 AE_token \<longleftrightarrow> api_owner opts auth = None"
    by (auto simp: api_unregister_def Let_def split: option.splits sum.splits prod.splits reg_err.splits)
  with a Q_unregister show ?thesis by (cases rule: api_unregister_cases) (auto simp: needs_token_def)
next
  case (Q_ticket i body)
  then have a: "api_ticket hmac opts now auth i body st = (r, st')" using assms by simp
  then have "r = A_error 401 AE_token \<longleftrightarrow> api_owner opts auth = None"
    by (auto simp: api_ticket_def owned_server_def Let_def
        split: option.splits sum.splits prod.splits if_splits ticket_err.splits)
  with a Q_ticket show ?thesis by (cases rule: api_ticket_cases) (auto simp: needs_token_def)
next
  case (Q_post i body)
  then have a: "api_post_global opts now auth i body st = (r, st')" using assms by simp
  then have "r = A_error 401 AE_token \<longleftrightarrow> api_owner opts auth = None"
    by (auto simp: api_post_global_def owned_server_def Let_def
        split: option.splits sum.splits prod.splits if_splits)
  with a Q_post show ?thesis by (cases rule: api_post_cases) (auto simp: needs_token_def)
qed (use assms in \<open>auto simp: needs_token_def api_poll_global_def split: option.splits prod.splits\<close>)

text \<open>What the public list may depend on: everything but the fields set here.\<close>

definition redacted :: "server \<Rightarrow> server" where
  "redacted s = s\<lparr>sv_address := [], sv_owner := [], sv_guard := False, sv_guard_secret := [], sv_side_ports := [],
     sv_reporter := [], sv_required_client_mods := [], sv_channels := [], sv_mod_versions := [], sv_protocols := [],
     sv_forge_channels := []\<rparr>"

lemma redacted_sel:
  "sv_id (redacted s) = sv_id s" "sv_hidden (redacted s) = sv_hidden s" "expired now (redacted s) = expired now s"
  "public_of d (redacted s) = public_of d s"
  by (simp_all add: redacted_def expired_def public_of_def)

lemma api_public_redacted: "api_public opts now (map (\<lambda>(i, s). (i, redacted s)) reg) = api_public opts now reg"
proof -
  have "map snd (map (\<lambda>(i, s). (i, redacted s)) reg) = map redacted (map snd reg)" by (induction reg) auto
  then have "reg_list now (map (\<lambda>(i, s). (i, redacted s)) reg)
      = sort_key sv_id (filter (\<lambda>s. \<not> expired now s) (map redacted (map snd reg)))"
    by (simp only: reg_list_def)
  also have "sort_key sv_id (filter (\<lambda>s. \<not> expired now s) (map redacted xs))
      = map redacted (sort_key sv_id (filter (\<lambda>s. \<not> expired now s) xs))" for xs
    by (simp add: filter_map sort_key_map comp_def redacted_sel)
  note this [of "map snd reg", folded reg_list_def]
  finally have "reg_list now (map (\<lambda>(i, s). (i, redacted s)) reg) = map redacted (reg_list now reg)" .
  then show ?thesis by (simp add: api_public_def filter_map comp_def redacted_sel)
qed

text \<open>C38: The public list shows, in the order of their IDs, exactly the live servers that are not hidden,
  and it reveals nothing of their addresses, owners, guard secrets and side ports: registries that
  differ only there have the same list.\<close>

theorem public_list_redacted:
  assumes "reg_inv reg"
  shows "set (map ps_id (api_public opts now reg)) = {i. \<exists>s. reg_get now reg i = Some s \<and> \<not> sv_hidden s}
    \<and> sorted (map ps_id (api_public opts now reg)) \<and> distinct (map ps_id (api_public opts now reg))
    \<and> api_public opts now reg = api_public opts now (map (\<lambda>(i, s). (i, redacted s)) reg)"
proof (intro conjI)
  have ids: "map ps_id (api_public opts now reg) = map sv_id (filter (\<lambda>s. \<not> sv_hidden s) (reg_list now reg))"
    by (simp add: api_public_def comp_def public_of_def)
  show "set (map ps_id (api_public opts now reg)) = {i. \<exists>s. reg_get now reg i = Some s \<and> \<not> sv_hidden s}"
    unfolding ids using set_reg_list [OF assms, of _ now] registry_dir.lookup_id [OF assms, of now]
    by (auto simp: reg_get_eq)
  show "sorted (map ps_id (api_public opts now reg))"
    unfolding ids by (rule sorted_filter) (simp add: reg_list_def)
  show "distinct (map ps_id (api_public opts now reg))"
    unfolding ids using distinct_reg_list [OF assms] by (auto simp: distinct_map intro: inj_on_subset)
  show "api_public opts now reg = api_public opts now (map (\<lambda>(i, s). (i, redacted s)) reg)"
    by (rule api_public_redacted [symmetric])
qed

lemma sync_names:
  assumes "mg_inv m" and "valid_server srv" and "mg_sync os now srv m = Some (out, m')"
  shows "map sp_name out = map sp_name (sv_side_ports srv)"
proof (cases "mg_enabled m")
  case True
  have "distinct (map sp_name (sv_side_ports srv))" using assms(2) by (simp add: valid_server_def)
  then have "list_all2 (synced srv m') (sv_side_ports srv) out"
    by (rule mg_sync_spec(3) [OF assms(1) True assms(3)])
  then show ?thesis
    by (induction rule: list_all2_induct) (auto simp: synced_def split: option.splits)
next
  case False
  then show ?thesis using assms(3) by (auto simp: mg_sync_def sync_ports_disabled)
qed

lemma stored_after_sync:
  assumes "upsert name s ttl now r = Inr (srv, reg)" and "map sp_name out = map sp_name (sv_side_ports srv)" and "0 < ttl"
  shows "reg_get t (set_side_ports (sv_id srv) out reg) (sv_id srv)
    = (if t \<le> now + ttl then Some (srv\<lparr>sv_side_ports := out\<rparr>) else None)"
proof -
  have "map_of reg (sv_id srv) = Some srv" "sv_expires_at srv = Some (now + ttl)" "\<not> sv_static srv"
    using assms(1,3) by (auto simp: upsert_eq_Inr stored_expiry)
  then show ?thesis using assms(2) by (auto simp: set_side_ports_def reg_get_def expired_def)
qed

text \<open>An accepted registration was made with the token of the owner it is stored under, its address
  resolved to addresses that the owner's policy accepts only, the reply is the entry that the registry
  answers with until the time to live is over, and each side port in it has the public address of an
  active binding of this server or the error that no port is free.\<close>

theorem register_accepted:
  assumes "api_inv st" and "as_manager st = Some m" and "mg_enabled m" and "0 < ao_ttl opts"
    and "api_step hmac pa dns os opts now auth (Q_register i (Inr s)) st = Some (A_saved srv checks, st')"
  shows "\<exists>ow ips m'. api_owner opts auth = Some (sv_owner srv, ow)
    \<and> resolve pa dns (ow_policy ow) (sv_address s) = Inr ips \<and> (\<forall>t \<in> set ips. admissible (ow_policy ow) (ap_addr t))
    \<and> (\<forall>t. reg_get t (as_reg st') (sv_id srv) = (if t \<le> now + ao_ttl opts then Some srv else None))
    \<and> as_manager st' = Some m'
    \<and> (\<forall>p \<in> set (sv_side_ports srv). sp_error p = ErrNoPort
         \<or> (\<exists>b. map_of (mg_by_key m') (side_key_of srv p) = Some b \<and> bd_held (mg_heap m' ! b) = None
              \<and> bd_owner (mg_heap m' ! b) = sv_owner srv \<and> bd_backend (mg_heap m' ! b) = sp_port p
              \<and> sp_public p = Some \<lparr>pa_host = mg_public_host m', pa_port = bd_public (mg_heap m' ! b)\<rparr>))"
proof -
  have "api_register pa dns os opts now auth i (Inr s) st = Some (A_saved srv checks, st')" using assms(5) by simp
  then obtain name ow v reg out m' ips where r: "api_owner opts auth = Some (name, ow)"
    "resolve pa dns (ow_policy ow) (sv_address s) = Inr ips"
    "upsert name (s\<lparr>sv_id := i\<rparr>) (ao_ttl opts) now (as_reg st) = Inr (v, reg)"
    "mg_sync os now v m = Some (out, m')" "srv = v\<lparr>sv_side_ports := out\<rparr>"
    "st' = st\<lparr>as_reg := set_side_ports (sv_id v) out reg, as_manager := Some m'\<rparr>"
    using assms(2) by (cases rule: api_register_cases) auto
  have inv: "mg_inv m" using assms(1,2) by (simp add: api_inv_def)
  note v = upsert_valid [OF r(3)]
  have o: "sv_owner srv = name" using r(3,5) by (auto simp: upsert_eq_Inr)
  have d: "distinct (map sp_name (sv_side_ports v))" using v by (simp add: valid_server_def)
  have y: "list_all2 (synced v m') (sv_side_ports v) out" by (rule mg_sync_spec(3) [OF inv assms(3) r(4) d])
  have ports: "sp_error p = ErrNoPort
         \<or> (\<exists>b. map_of (mg_by_key m') (side_key_of srv p) = Some b \<and> bd_held (mg_heap m' ! b) = None
              \<and> bd_owner (mg_heap m' ! b) = sv_owner srv \<and> bd_backend (mg_heap m' ! b) = sp_port p
              \<and> sp_public p = Some \<lparr>pa_host = mg_public_host m', pa_port = bd_public (mg_heap m' ! b)\<rparr>)"
    if "p \<in> set (sv_side_ports srv)" for p
  proof -
    have "p \<in> set out" using that r(5) by simp
    then obtain n where "n < length out" "out ! n = p" by (auto simp: in_set_conv_nth)
    then have "synced v m' (sv_side_ports v ! n) p" using list_all2_nthD2 [OF y] by blast
    then show ?thesis using r(5) by (auto simp: synced_def side_key_of_def split: option.splits)
  qed
  have "reg_get t (as_reg st') (sv_id srv) = (if t \<le> now + ao_ttl opts then Some srv else None)" for t
    using stored_after_sync [OF r(3) sync_names [OF inv v r(4)] assms(4)] r(5,6) by simp
  then show ?thesis using r(1,2,6) o resolve_Inr [OF r(2)] ports by auto
qed

section \<open>Examples\<close>

definition demo_opts :: api_options where
  "demo_opts = \<lparr>ao_owners = [(''alice'', \<lparr>ow_token = ''s3cret'', ow_policy = \<lparr>po_allowed = [], po_loopback = False\<rparr>\<rparr>),
      (''bob'', \<lparr>ow_token = ''hunter2'', ow_policy = \<lparr>po_allowed = [], po_loopback = False\<rparr>\<rparr>)],
     ao_ttl = 45000000000, ao_domain = ''play.example.com'', ao_tickets = None, ao_metrics_token = []\<rparr>"

definition demo_state :: api_state where
  "demo_state = \<lparr>as_reg = [], as_manager = Some demo_pool, as_store = demo_store, as_broker = new_broker\<rparr>"

definition demo_lookup :: "string \<Rightarrow> netip option" where
  "demo_lookup host = (if host = ''10.0.0.5'' then Some (addr_of [10, 0, 0, 5]) else None)"

definition demo_body :: server where
  "demo_body = demo_voice\<lparr>sv_owner := [], sv_address := ''10.0.0.5:25565''\<rparr>"

definition demo_registered :: "(api_reply \<times> api_state) option" where
  "demo_registered = api_step toy_hmac demo_lookup demo_dns (\<lambda>_ _. True) demo_opts 5000000000 ''Bearer s3cret''
     (Q_register ''Survival'' (Inr demo_body)) demo_state"

lemma demo_state_inv: "api_inv demo_state"
proof -
  have "reg_inv []" "kv_inv demo_store" by code_simp+
  moreover have "mg_inv demo_pool" unfolding demo_pool_def by (rule new_manager_inv)
  moreover have "broker_ok new_broker []"
    by (simp add: broker_ok_def new_broker_def numbered_def last_n_def)
  ultimately show ?thesis by (auto simp: api_inv_def demo_state_def new_broker_def)
qed

definition demo_entry :: server where
  "demo_entry = (case demo_registered of Some (A_saved srv _, _) \<Rightarrow> srv | _ \<Rightarrow> zero_server)"

definition demo_checks :: "server list" where
  "demo_checks = (case demo_registered of Some (A_saved _ checks, _) \<Rightarrow> checks | _ \<Rightarrow> [])"

definition demo_after :: api_state where
  "demo_after = (case demo_registered of Some (_, st) \<Rightarrow> st | None \<Rightarrow> demo_state)"

lemma demo_registered_eq:
  "api_step toy_hmac demo_lookup demo_dns (\<lambda>_ _. True) demo_opts 5000000000 ''Bearer s3cret''
     (Q_register ''Survival'' (Inr demo_body)) demo_state = Some (A_saved demo_entry demo_checks, demo_after)"
  by code_simp

lemma demo_after_eq:
  "reg_get 6000000000 (as_reg demo_after) ''survival'' = Some demo_entry" "sv_owner demo_entry = ''alice''"
  "sv_id demo_entry = ''survival''"
  by code_simp+

theorem api_invariant_witness: "api_inv demo_after"
  using api_invariant [OF demo_state_inv, of "Q_register ''Survival'' (Inr demo_body)" toy_hmac demo_lookup demo_dns
      "\<lambda>_ _. True" demo_opts 5000000000 "''Bearer s3cret''"]
  by (simp only: demo_registered_eq decoded.simps) auto

lemma demo_after_inv: "api_inv demo_after"
  using api_invariant_step [OF demo_state_inv _ demo_registered_eq] by simp

theorem register_accepted_witness:
  "reg_get 50000000000 (as_reg demo_after) ''survival'' = Some demo_entry
   \<and> reg_get 50000000001 (as_reg demo_after) ''survival'' = None"
proof -
  have "as_manager demo_state = Some demo_pool" "mg_enabled demo_pool" "0 < ao_ttl demo_opts"
    "ao_ttl demo_opts = 45000000000" by code_simp+
  with register_accepted [OF demo_state_inv this(1,2,3) demo_registered_eq]
  show ?thesis by (auto simp: demo_after_eq(3))
qed


theorem api_refusal_witness:
  "\<exists>st'. api_step toy_hmac demo_lookup demo_dns (\<lambda>_ _. True) demo_opts 6000000000 ''Bearer wrong''
     (Q_unregister ''survival'') demo_after = Some (A_error 401 AE_token, st') \<and> st' = demo_after"
proof -
  have s: "api_step toy_hmac demo_lookup demo_dns (\<lambda>_ _. True) demo_opts 6000000000 ''Bearer wrong''
     (Q_unregister ''survival'') demo_after = Some (A_error 401 AE_token, demo_after)" by code_simp
  from api_refusal [OF this, of 401 AE_token] show ?thesis using s by blast
qed

theorem public_list_redacted_witness:
  "map ps_id (api_public demo_opts 6000000000 (as_reg demo_after)) = [''survival'']
   \<and> ''survival'' \<in> {i. \<exists>s. reg_get 6000000000 (as_reg demo_after) i = Some s \<and> \<not> sv_hidden s}"
proof -
  have "reg_inv (as_reg demo_after)" using demo_after_inv by (simp add: api_inv_def)
  then have e: "set (map ps_id (api_public demo_opts 6000000000 (as_reg demo_after)))
      = {i. \<exists>s. reg_get 6000000000 (as_reg demo_after) i = Some s \<and> \<not> sv_hidden s}"
    by (rule public_list_redacted [THEN conjunct1])
  have l: "map ps_id (api_public demo_opts 6000000000 (as_reg demo_after)) = [''survival'']" by code_simp
  show ?thesis unfolding e [symmetric] l by simp
qed

text \<open>A message of control characters and a blank passes the check that a message is required: the trim
  comes before the removal.\<close>

lemma blank_broadcast:
  "let m = strip_controls (trim_space [CHR 0x01, CHR '' '', CHR 0x01]) in m \<noteq> [] \<and> trim_space m = []"
  by code_simp

text \<open>The C1 control characters, for instance U+0085 (next line), are not removed.\<close>

lemma c1_kept: "strip_controls [CHR ''a'', CHR 0xC2, CHR 0x85] = [CHR ''a'', CHR 0xC2, CHR 0x85]"
  by code_simp

text \<open>A long message is cut at 256 bytes, also in the middle of a character: here after the first byte of
  the two of U+00E9.\<close>

lemma strip_letters: "strip_controls (replicate n (CHR ''a'') @ s) = replicate n (CHR ''a'') @ strip_controls s"
proof (induction n)
  case (Suc n)
  have "strip_controls (CHR ''a'' # t) = CHR ''a'' # strip_controls t" for t
    by (rule strip_head) code_simp+
  then show ?case using Suc by simp
qed simp

lemma cut_inside_character:
  "take 256 (strip_controls (replicate 255 (CHR ''a'') @ [CHR 0xC3, CHR 0xA9])) = replicate 255 (CHR ''a'') @ [CHR 0xC3]"
proof -
  have "strip_controls [CHR 0xC3, CHR 0xA9] = [CHR 0xC3, CHR 0xA9]" by code_simp
  then show ?thesis unfolding strip_letters by simp
qed

end
