(* ===== verification/Config.thy ===== *)
theory Config
  imports Chat_Text
begin

text \<open>
  \<^verbatim>\<open>cmd/vecta/main.go\<close>: reading the configuration. \<open>expand_env\<close> replaces the references to environment
  variables in a configuration file before it is decoded as JSON; the regular expression is modelled to
  the byte, and the value is written as \<^verbatim>\<open>json.Marshal\<close> writes a string (\<open>json_string\<close> of theory Chat_Text). The environment is the
  parameter \<open>env\<close>. \<open>port_range\<close> reads the pool of public ports. Decoding the JSON itself is not modelled.

  The lemmas show that an expanded value is one JSON string literal with exactly the variable's value,
  whatever it contains, that a doubled dollar sign is a way to write any text, that a missing variable
  is always reported, and which port ranges are accepted.
\<close>

section \<open>JSON strings\<close>

definition json_hex :: "nat \<Rightarrow> char" where
  "json_hex n = char_of (if n < 10 then 48 + n else 87 + n)"

definition u_escape :: "nat \<Rightarrow> string" where
  "u_escape n = [CHR 0x5C, CHR ''u'', json_hex (n div 4096 mod 16), json_hex (n div 256 mod 16),
     json_hex (n div 16 mod 16), json_hex (n mod 16)]"

definition json_ascii :: "char \<Rightarrow> string" where
  "json_ascii c =
     (let n = of_char c :: nat in
      if n = 0x22 \<or> n = 0x5C then [CHR 0x5C, c]
      else if n = 8 then [CHR 0x5C, CHR ''b'']
      else if n = 12 then [CHR 0x5C, CHR ''f'']
      else if n = 10 then [CHR 0x5C, CHR ''n'']
      else if n = 13 then [CHR 0x5C, CHR ''r'']
      else if n = 9 then [CHR 0x5C, CHR ''t'']
      else if n < 32 \<or> n \<in> {0x26, 0x3C, 0x3E} then u_escape n
      else [c])"

text \<open>The text between the quotes.\<close>

definition json_inner :: "string \<Rightarrow> string" where
  "json_inner v = (let q = json_string v in take (length q - 2) (drop 1 q))"

text \<open>The same, character by character; the lemma \<open>json_inner_eq\<close> below shows that it is.\<close>

function json_body :: "string \<Rightarrow> string" where
  "json_body [] = []"
| "json_body (c # s) =
     (if (of_char c :: nat) < 128 then json_ascii c @ json_body s
      else case decode_rune (bytes (c # s)) of (r, n) \<Rightarrow>
        (if (r, n) = bad_rune then u_escape 0xFFFD
         else if r = 0x2028 \<or> r = 0x2029 then u_escape r
         else take n (c # s)) @ json_body (drop n (c # s)))"
  by pat_completeness auto
termination
proof (relation "measure length")
  fix c :: char and s r n
  assume "(r, n) = decode_rune (bytes (c # s))"
  then have "0 < n" using decode_rune_width [of "byte_of_char c" "bytes s"] by (metis bytes_def list.map(2) snd_conv)
  then show "(drop n (c # s), c # s) \<in> measure length" by simp
qed simp_all

declare json_body.simps [simp del]

section \<open>References to the environment\<close>

datatype env_ref = E_dollar | E_var string "string option"

definition name_start :: "char \<Rightarrow> bool" where
  "name_start c \<longleftrightarrow> (let n = of_char c :: nat in (65 \<le> n \<and> n \<le> 90) \<or> (97 \<le> n \<and> n \<le> 122) \<or> n = 95)"

definition env_char :: "char \<Rightarrow> bool" where
  "env_char c \<longleftrightarrow> name_start c \<or> (let n = of_char c :: nat in 48 \<le> n \<and> n \<le> 57)"

text \<open>A match of \<^verbatim>\<open>envRef\<close> at the start of the text, with the text after it.\<close>

definition env_ref_at :: "string \<Rightarrow> (env_ref \<times> string) option" where
  "env_ref_at s =
     (if has_prefix s ''$$'' then Some (E_dollar, drop 2 s)
      else if has_prefix s ''${'' then
        (let name = takeWhile env_char (drop 2 s); after = dropWhile env_char (drop 2 s)
         in if name = [] \<or> \<not> name_start (hd name) then None
            else if has_prefix after ''}'' then Some (E_var name None, drop 1 after)
            else if has_prefix after '':-'' then
              (let d = takeWhile (\<lambda>c. c \<noteq> CHR ''}'') (drop 2 after); r = dropWhile (\<lambda>c. c \<noteq> CHR ''}'') (drop 2 after)
               in if r = [] then None else Some (E_var name (Some d), drop 1 r))
            else None)
      else None)"

text \<open>The replacement of one match; \<open>None\<close> for a variable that is missing.\<close>

fun replacement :: "(string \<Rightarrow> string option) \<Rightarrow> env_ref \<Rightarrow> string option" where
  "replacement env E_dollar = Some ''$''"
| "replacement env (E_var name def) =
     (case env name of
        None \<Rightarrow> (case def of None \<Rightarrow> None | Some d \<Rightarrow> Some (json_inner d))
      | Some v \<Rightarrow> (case def of None \<Rightarrow> Some (json_inner v)
                   | Some d \<Rightarrow> Some (json_inner (if v = [] then d else v))))"

fun ref_name :: "env_ref \<Rightarrow> string" where
  "ref_name E_dollar = []"
| "ref_name (E_var name def) = name"

lemma env_ref_shorter: "env_ref_at s = Some (ref, rest) \<Longrightarrow> length rest < length s"
proof -
  assume a: "env_ref_at s = Some (ref, rest)"
  have p: "has_prefix s ''$$'' \<or> has_prefix s ''${''" using a by (auto simp: env_ref_at_def split: if_splits)
  then have l: "2 \<le> length s" by (cases s; cases "List.tl s") (auto simp: has_prefix_def)
  have "length rest \<le> length (drop 2 s)"
    using a length_dropWhile_le [of env_char "drop 2 s"]
      length_dropWhile_le [of "\<lambda>c. c \<noteq> CHR ''}''" "drop 2 (dropWhile env_char (drop 2 s))"]
    by (auto simp: env_ref_at_def Let_def split: if_splits)
  then show ?thesis using l by simp
qed

text \<open>\<^verbatim>\<open>ReplaceAllFunc\<close>: the names that are missing and the text.\<close>

function expand_loop :: "(string \<Rightarrow> string option) \<Rightarrow> string \<Rightarrow> string list \<times> string" where
  "expand_loop env s =
     (case s of
        [] \<Rightarrow> ([], [])
      | c # s' \<Rightarrow>
          (case env_ref_at s of
             None \<Rightarrow> (case expand_loop env s' of (ms, out) \<Rightarrow> (ms, c # out))
           | Some (ref, rest) \<Rightarrow>
               (case expand_loop env rest of
                  (ms, out) \<Rightarrow>
                    (case replacement env ref of
                       None \<Rightarrow> (ref_name ref # ms, take (length s - length rest) s @ out)
                     | Some t \<Rightarrow> (ms, t @ out)))))"
  by pat_completeness auto
termination
  by (relation "measure (\<lambda>(env, s). length s)") (auto dest: env_ref_shorter)

declare expand_loop.simps [simp del]

definition expand_env :: "(string \<Rightarrow> string option) \<Rightarrow> string \<Rightarrow> string list + string" where
  "expand_env env raw = (case expand_loop env raw of (ms, out) \<Rightarrow> if ms \<noteq> [] then Inl ms else Inr out)"

section \<open>Other settings\<close>

definition port_range :: "string \<Rightarrow> string + int \<times> int" where
  "port_range r =
     (if trim_space r = [] then Inr (0, 0)
      else case cut CHR ''-'' r of
        (a, b, ok) \<Rightarrow>
          let b = (if ok then b else a) in
          (case (parse_int (trim_space a), parse_int (trim_space b)) of
             (Some lo, Some hi) \<Rightarrow> if lo < 1 \<or> hi > 65535 \<or> lo > hi then Inl r else Inr (lo, hi)
           | _ \<Rightarrow> Inl r))"

definition or_default :: "int \<Rightarrow> int \<Rightarrow> int" where
  "or_default d def = (if d \<le> 0 then def else d)"

text \<open>\<^verbatim>\<open>healthcheck\<close>: the process exit code for the outcome of the request.\<close>

definition health_url :: "string option \<Rightarrow> string" where
  "health_url env = (case env of None \<Rightarrow> ''http://127.0.0.1:8080/healthz'' | Some v \<Rightarrow>
     if v = [] then ''http://127.0.0.1:8080/healthz'' else v)"

definition healthcheck :: "string + nat \<Rightarrow> nat" where
  "healthcheck r = (case r of Inl e \<Rightarrow> 1 | Inr status \<Rightarrow> if status \<noteq> 200 then 1 else 0)"

section \<open>A reader of JSON strings\<close>

definition hex_val :: "char \<Rightarrow> nat option" where
  "hex_val c = (let n = of_char c :: nat in
     if 48 \<le> n \<and> n \<le> 57 then Some (n - 48) else if 97 \<le> n \<and> n \<le> 102 then Some (n - 87) else None)"

definition hex4 :: "char \<Rightarrow> char \<Rightarrow> char \<Rightarrow> char \<Rightarrow> nat option" where
  "hex4 a b c d =
     (case (hex_val a, hex_val b, hex_val c, hex_val d) of
        (Some w, Some x, Some y, Some z) \<Rightarrow> Some (w * 4096 + x * 256 + y * 16 + z)
      | _ \<Rightarrow> None)"

definition simple_escape :: "char \<Rightarrow> char option" where
  "simple_escape c =
     (let n = of_char c :: nat in
      if n = 0x22 \<or> n = 0x5C \<or> n = 0x2F then Some c
      else if c = CHR ''b'' then Some (char_of (8 :: nat))
      else if c = CHR ''f'' then Some (char_of (12 :: nat))
      else if c = CHR ''n'' then Some (char_of (10 :: nat))
      else if c = CHR ''r'' then Some (char_of (13 :: nat))
      else if c = CHR ''t'' then Some (char_of (9 :: nat))
      else None)"

text \<open>The value of a string literal after its opening quote, and the text after its closing quote. Control
  characters are not allowed in it.\<close>

fun json_read :: "string \<Rightarrow> (string \<times> string) option" where
  "json_read [] = None"
| "json_read (c # s) =
     (if c = CHR 0x22 then Some ([], s)
      else if c = CHR 0x5C then
        (case s of
           [] \<Rightarrow> None
         | d # s \<Rightarrow>
             if d = CHR ''u'' then
               (case s of
                  w # x # y # z # s \<Rightarrow>
                    (case hex4 w x y z of
                       None \<Rightarrow> None
                     | Some n \<Rightarrow> map_option (\<lambda>(v, r). (str (encode_rune n) @ v, r)) (json_read s))
                | _ \<Rightarrow> None)
             else
               (case simple_escape d of
                  None \<Rightarrow> None
                | Some e \<Rightarrow> map_option (\<lambda>(v, r). (e # v, r)) (json_read s)))
      else if (of_char c :: nat) < 32 then None
      else map_option (\<lambda>(v, r). (c # v, r)) (json_read s))"

lemma hex_val_digit: "n < 16 \<Longrightarrow> hex_val (json_hex n) = Some n"
  by (simp add: hex_val_def json_hex_def Let_def)

lemma hex_split: "n = n div 4096 * 4096 + n div 256 mod 16 * 256 + n div 16 mod 16 * 16 + n mod 16" for n :: nat
proof -
  have a: "n = n div 16 * 16 + n mod 16" for n :: nat by simp
  have "n div 16 = n div 256 * 16 + n div 16 mod 16" using a [of "n div 16"] by (simp add: div_mult2_eq [symmetric])
  moreover have "n div 256 = n div 4096 * 16 + n div 256 mod 16" using a [of "n div 256"] by (simp add: div_mult2_eq [symmetric])
  ultimately show ?thesis using a [of n] by linarith
qed

lemma hex4_escape:
  assumes "n < 65536"
  shows "hex4 (json_hex (n div 4096 mod 16)) (json_hex (n div 256 mod 16)) (json_hex (n div 16 mod 16)) (json_hex (n mod 16)) = Some n"
proof -
  have "n div 4096 < 16" using assms by (intro less_mult_imp_div_less) simp
  then show ?thesis using hex_split [of n] by (simp add: hex4_def hex_val_digit)
qed

lemma read_hex4:
  "hex4 w x y z = Some n \<Longrightarrow> json_read ([CHR 0x5C, CHR ''u'', w, x, y, z] @ r)
     = map_option (\<lambda>(v, r). (str (encode_rune n) @ v, r)) (json_read r)"
  by simp

lemma read_u_escape:
  "n < 65536 \<Longrightarrow> json_read (u_escape n @ r) = map_option (\<lambda>(v, r). (str (encode_rune n) @ v, r)) (json_read r)"
  unfolding u_escape_def by (rule read_hex4 [OF hex4_escape])

lemma encode_ascii: "n < 128 \<Longrightarrow> str (encode_rune n) = [char_of n]"
  by (simp add: encode_rune_def encode_nats_def scalar_def str_def char_of_byte_def unsigned_of_nat take_bit_eq_mod)

lemma read_json_ascii:
  assumes "(of_char c :: nat) < 128"
  shows "json_read (json_ascii c @ r) = map_option (\<lambda>(v, r). (c # v, r)) (json_read r)"
proof -
  define n where "n = (of_char c :: nat)"
  have c: "c = char_of n" and n: "n < 128" using assms by (simp_all add: n_def)
  have u: "json_read (u_escape n @ r) = map_option (\<lambda>(v, r). (char_of n # v, r)) (json_read r)"
    using read_u_escape [of n r] encode_ascii [OF n] n by simp
  have e: "char_of n = d \<longleftrightarrow> n = of_char d" for d :: char using n by (auto simp: of_char_of)
  show ?thesis
    using u n unfolding c by (auto simp: json_ascii_def Let_def simple_escape_def e of_char_of)
qed

text \<open>A character of more than one byte: none of its bytes is special, and the two line separators have the
  encodings E2 80 A8 and E2 80 A9.\<close>

lemma separator_bytes:
  fixes a b c i :: nat
  assumes "a * 4096 + b * 64 + c = 8232 + i" and "b < 64" and "c < 64" and "i < 2"
  shows "a = 2 \<and> b = 0 \<and> c = 40 + i"
proof -
  have "a = (a * 4096 + (b * 64 + c)) div 4096" using assms(2,3) by simp
  also have "\<dots> = (8232 + i) div 4096" using assms(1) by (simp add: add.assoc)
  finally have a: "a = 2" using assms(4) by simp
  then have bc: "b * 64 + c = 40 + i" using assms(1) by simp
  have "b = (b * 64 + c) div 64" using assms(3) by simp
  also have "\<dots> = 0" unfolding bc using assms(4) by simp
  finally show ?thesis using a bc by simp
qed

lemma decode3_separator:
  assumes "decode3 x xs = (0x2028 + i, n)" and "i < 2" and "224 \<le> x"
  shows "take n (x # xs) = [226, 128, 168 + i]"
proof (cases "(x, xs)" rule: decode3.cases)
  case (1 x' y z t)
  have r: "128 \<le> y" "y < 192" "128 \<le> z" "z < 192" "n = 3"
    "(x - 224) * 4096 + (y - 128) * 64 + (z - 128) = 0x2028 + i"
    using assms 1 by (auto simp: cont_byte_def bad_rune_def split: if_splits)
  have "x - 224 = 2 \<and> y - 128 = 0 \<and> z - 128 = 40 + i"
    by (rule separator_bytes) (use r assms(2) in simp_all)
  then show ?thesis using 1 r(1,3,5) by auto
qed (use assms in \<open>auto simp: bad_rune_def\<close>)

lemma decode_wide:
  assumes "decode_nats (x # xs) = (r, n)" and "(r, n) \<noteq> bad_rune" and "128 \<le> x"
  shows "n \<le> length (x # xs) \<and> list_all (\<lambda>y. 128 \<le> y) (take n (x # xs))"
  using assms
  by (cases "(x, xs)" rule: decode2.cases; cases "(x, xs)" rule: decode3.cases; cases "(x, xs)" rule: decode4.cases)
    (auto simp: cont_byte_def bad_rune_def split: if_splits)

lemma decode2_range: "decode2 x xs = (r, n) \<Longrightarrow> x \<le> 223 \<Longrightarrow> r < 2048 \<or> r = 65533"
  by (cases "(x, xs)" rule: decode2.cases) (auto simp: cont_byte_def bad_rune_def split: if_splits)

lemma decode4_range: "decode4 x xs = (r, n) \<Longrightarrow> 240 \<le> x \<Longrightarrow> 65533 \<le> r"
proof (cases "(x, xs)" rule: decode4.cases)
  case (1 x' y z w t)
  assume d: "decode4 x xs = (r, n)" "240 \<le> x"
  show ?thesis
  proof (cases "x = 240 \<and> 144 \<le> y")
    case True
    then have "16 \<le> y - 128" by arith
    then have "16 * 4096 \<le> (y - 128) * 4096" by (rule mult_le_mono1)
    then show ?thesis using d 1 by (auto simp: bad_rune_def split: if_splits)
  next
    case False
    then have "x = 240 \<or> 1 \<le> x - 240" using d(2) by auto
    then have "x = 240 \<or> 1 * 262144 \<le> (x - 240) * 262144" using mult_le_mono1 by blast
    then show ?thesis using d 1 False by (auto simp: bad_rune_def split: if_splits)
  qed
qed (auto simp: bad_rune_def)

lemma decode_separator:
  assumes "decode_nats (x # xs) = (0x2028 + i, n)" and "i < 2" and "128 \<le> x"
  shows "take n (x # xs) = [226, 128, 168 + i]"
  using assms decode3_separator [OF _ assms(2)] decode2_range [of x xs "0x2028 + i" n] decode4_range [of x xs "0x2028 + i" n]
  by (auto simp: bad_rune_def split: if_splits)

lemma read_raw:
  "list_all (\<lambda>c. 128 \<le> (of_char c :: nat)) t \<Longrightarrow>
   json_read (t @ r) = map_option (\<lambda>(v, r). (t @ v, r)) (json_read r)"
proof (induction t)
  case Nil
  then show ?case by (cases "json_read r") auto
next
  case (Cons c t)
  then have "c \<noteq> CHR 0x22" "c \<noteq> CHR 0x5C" "\<not> (of_char c :: nat) < 32" by auto
  then show ?case using Cons by (cases "json_read r") auto
qed

lemma bytes_codes: "map unat (bytes s) = map (of_char :: char \<Rightarrow> nat) s"
  by (simp add: bytes_def byte_of_char_def unat_of_nat)

lemma json_read_body: "utf8_valid (bytes s) \<Longrightarrow> json_read (json_body s @ CHR 0x22 # t) = Some (s, t)"
proof (induction s rule: json_body.induct)
  case 1
  then show ?case by (simp add: json_body.simps)
next
  case (2 c s)
  obtain r n where d: "decode_rune (bytes (c # s)) = (r, n)" by (metis prod.exhaust)
  have cons: "bytes (c # s) = byte_of_char c # bytes s" by (simp add: bytes_def)
  have codes: "decode_nats (of_char c # map of_char s) = (r, n)"
    using d bytes_codes [of "c # s"] by (simp add: decode_rune_def)
  have v: "(r, n) \<noteq> bad_rune" "utf8_valid (drop n (bytes (c # s)))"
    using "2.prems" d by (simp_all add: cons utf8_valid.simps)
  have drop: "drop n (bytes (c # s)) = bytes (drop n (c # s))" unfolding bytes_def by (rule drop_map)
  show ?case
  proof (cases "(of_char c :: nat) < 128")
    case True
    then have "n = 1" using codes by simp
    then have "utf8_valid (bytes s)" using v(2) drop by simp
    then show ?thesis using "2.IH"(1) [OF True] True read_json_ascii [OF True] by (simp add: json_body.simps)
  next
    case False
    have IH: "json_read (json_body (drop n (c # s)) @ CHR 0x22 # t) = Some (drop n (c # s), t)"
      using "2.IH"(2) [OF False d [symmetric]] v(2) drop by simp
    have body: "json_body (c # s) = (if r = 0x2028 \<or> r = 0x2029 then u_escape r else take n (c # s)) @ json_body (drop n (c # s))"
      using False d v(1) by (simp add: json_body.simps del: drop.simps take.simps)
    show ?thesis
    proof (cases "r = 0x2028 \<or> r = 0x2029")
      case True
      then obtain i where i: "r = 0x2028 + i" "i < 2" by (auto intro: that [of 0] that [of 1])
      have "take n (of_char c # map of_char s) = [226, 128, 168 + i]"
        using decode_separator [of "of_char c" "map of_char s" i n] codes i False by simp
      then have "map of_char (take n (c # s)) = [226, 128, 168 + i]" by (simp add: take_map [symmetric])
      then have "map char_of (map of_char (take n (c # s)) :: nat list) = map char_of [226, 128, 168 + i]" by simp
      then have "take n (c # s) = map char_of [226, 128, 168 + i]" by (simp add: comp_def)
      also have "\<dots> = str (encode_rune r)"
        using i by (auto simp: less_2_cases_iff encode_rune_def encode_nats_def scalar_def str_def char_of_byte_def)
      finally have "str (encode_rune r) @ drop n (c # s) = c # s" by (metis append_take_drop_id)
      then show ?thesis using True body IH read_u_escape [of r] by auto
    next
      case no: False
      have "list_all (\<lambda>y. 128 \<le> y) (take n (map (of_char :: char \<Rightarrow> nat) (c # s)))"
        using decode_wide [OF codes v(1)] False by simp
      then have "list_all (\<lambda>c. 128 \<le> (of_char c :: nat)) (take n (c # s))" by (simp only: take_map list.pred_map comp_def)
      from read_raw [OF this, of "json_body (drop n (c # s)) @ CHR 0x22 # t"]
      have "json_read (json_body (c # s) @ CHR 0x22 # t) = Some (take n (c # s) @ drop n (c # s), t)"
        unfolding body append_assoc using no IH by simp
      then show ?thesis by (simp only: append_take_drop_id)
    qed
  qed
qed

lemma decode_wide_rune:
  assumes "decode_nats (x # xs) = (r, n)" and "128 \<le> x"
  shows "128 \<le> r"
proof -
  have two: "128 \<le> (x - 192) * 64 + d" if "194 \<le> x" for d using that by simp
  have three: "128 \<le> (x - 224) * 4096 + (y - 128) * 64 + d" if "224 \<le> x" "(if x = 224 then 160 else 128) \<le> y" for y d
    using that by (cases "x = 224") simp_all
  show ?thesis
    using assms two three decode4_range [of x xs r n]
    by (cases "(x, xs)" rule: decode2.cases; cases "(x, xs)" rule: decode3.cases)
      (auto simp: bad_rune_def split: if_splits)
qed

lemma escape_ascii:
  assumes "n < 128"
  shows "str (case json_escape_rune n of Some e \<Rightarrow> e | None \<Rightarrow> [of_nat n]) = json_ascii (char_of n)"
proof -
  have "list_all (\<lambda>n. str (case json_escape_rune n of Some e \<Rightarrow> e | None \<Rightarrow> [of_nat n]) = json_ascii (char_of n)) [0..<128]"
    by code_simp
  then show ?thesis using assms by (simp add: list_all_iff)
qed

lemma escape_wide:
  "128 \<le> r \<Longrightarrow> map_option str (json_escape_rune r) = (if r = 0x2028 \<or> r = 0x2029 then Some (u_escape r) else None)"
proof -
  have "str (the (json_escape_rune 0x2028)) = u_escape 0x2028" "str (the (json_escape_rune 0x2029)) = u_escape 0x2029" by code_simp+
  then show "128 \<le> r \<Longrightarrow> ?thesis" by (auto simp: json_escape_rune_def)
qed

lemma json_body_escape: "str (json_escape (bytes s)) = json_body s"
proof (induction s rule: json_body.induct)
  case 1
  then show ?case by (simp add: json_body.simps json_escape.simps)
next
  case (2 c s)
  obtain r n where d: "decode_rune (bytes (c # s)) = (r, n)" by (metis prod.exhaust)
  have codes: "decode_nats (of_char c # map of_char s) = (r, n)"
    using d bytes_codes [of "c # s"] by (simp add: decode_rune_def)
  have drop: "drop n (bytes (c # s)) = bytes (drop n (c # s))" "take n (bytes (c # s)) = bytes (take n (c # s))"
    unfolding bytes_def by (rule drop_map take_map)+
  have e: "json_escape (bytes (c # s)) = (if r = 65533 \<and> n = 1 then 92 # bytes ''ufffd''
      else case json_escape_rune r of Some e \<Rightarrow> e | None \<Rightarrow> bytes (take n (c # s))) @ json_escape (bytes (drop n (c # s)))"
  proof -
    have ne: "bytes (c # s) \<noteq> []" by (simp add: bytes_def)
    show ?thesis
      by (subst json_escape.simps) (simp only: ne d drop Let_def prod.case if_False)
  qed
  show ?case
  proof (cases "(of_char c :: nat) < 128")
    case True
    then have rn: "r = of_char c" "n = 1" using codes by auto
    have "bytes (take n (c # s)) = [of_nat (of_char c)]" using rn by (simp add: bytes_def byte_of_char_def)
    then have "str (json_escape (bytes (c # s))) = json_ascii c @ str (json_escape (bytes s))"
      using True rn escape_ascii [OF True] unfolding e by (auto split: option.splits)
    then show ?thesis using "2.IH"(1) [OF True] True by (simp add: json_body.simps)
  next
    case False
    have r: "128 \<le> r" by (rule decode_wide_rune [OF codes]) (use False in simp)
    have IH: "str (json_escape (bytes (drop n (c # s)))) = json_body (drop n (c # s))"
      using "2.IH"(2) [OF False d [symmetric]] .
    have "str (92 # bytes ''ufffd'') = u_escape 0xFFFD" by code_simp
    then have "str (if r = 65533 \<and> n = 1 then 92 # bytes ''ufffd''
        else case json_escape_rune r of Some e \<Rightarrow> e | None \<Rightarrow> bytes (take n (c # s)))
      = (if (r, n) = bad_rune then u_escape 0xFFFD
         else if r = 0x2028 \<or> r = 0x2029 then u_escape r else take n (c # s))"
      using escape_wide [OF r] by (auto simp: bad_rune_def split: option.splits if_splits)
    then show ?thesis using False d by (simp add: e IH json_body.simps del: drop.simps take.simps)
  qed
qed

lemma json_inner_eq: "json_inner v = json_body v"
  by (simp add: json_inner_def json_string_def json_body_escape Let_def)

section \<open>Expansion\<close>

lemma prefix_plain: "c \<noteq> CHR ''$'' \<Longrightarrow> env_ref_at (c # s) = None"
  by (simp add: env_ref_at_def has_prefix_def)

lemma expand_cons:
  "env_ref_at (c # s) = None \<Longrightarrow> expand_loop env (c # s) = (case expand_loop env s of (ms, out) \<Rightarrow> (ms, c # out))"
  by (simp add: expand_loop.simps)

lemma expand_ref:
  "env_ref_at s = Some (ref, rest) \<Longrightarrow> replacement env ref = Some t \<Longrightarrow>
     expand_loop env s = (case expand_loop env rest of (ms, out) \<Rightarrow> (ms, t @ out))"
  by (cases s) (simp add: env_ref_at_def has_prefix_def, subst expand_loop.simps, simp)

lemma expand_plain:
  "CHR ''$'' \<notin> set pre \<Longrightarrow> expand_loop env (pre @ s) = (case expand_loop env s of (ms, out) \<Rightarrow> (ms, pre @ out))"
  by (induction pre) (auto simp: expand_cons prefix_plain split: prod.splits)

text \<open>A reference as it is written.\<close>

definition env_name :: "string \<Rightarrow> bool" where
  "env_name name \<longleftrightarrow> name \<noteq> [] \<and> name_start (hd name) \<and> list_all env_char name"

definition ref_text :: "string \<Rightarrow> string option \<Rightarrow> string" where
  "ref_text name def = ''${'' @ name @ (case def of None \<Rightarrow> [] | Some d \<Rightarrow> '':-'' @ d) @ ''}''"

definition default_ok :: "string option \<Rightarrow> bool" where
  "default_ok def \<longleftrightarrow> (case def of None \<Rightarrow> True | Some d \<Rightarrow> CHR ''}'' \<notin> set d)"

text \<open>The value of a variable with a default, as the comment of the code describes it.\<close>

definition env_value :: "(string \<Rightarrow> string option) \<Rightarrow> string \<Rightarrow> string option \<Rightarrow> string option" where
  "env_value env name def =
     (case (env name, def) of (Some v, None) \<Rightarrow> Some v | (Some v, Some d) \<Rightarrow> Some (if v = [] then d else v) | (None, _) \<Rightarrow> def)"

lemma ref_read:
  assumes "env_name name" and "default_ok def"
  shows "env_ref_at (ref_text name def @ post) = Some (E_var name def, post)"
proof -
  define after where "after = (case def of None \<Rightarrow> [] | Some d \<Rightarrow> '':-'' @ d) @ ''}'' @ post"
  have written: "ref_text name def @ post = ''${'' @ name @ after" by (simp add: ref_text_def after_def)
  have stop: "after \<noteq> []" "\<not> env_char (hd after)"
    by (auto simp: after_def env_char_def name_start_def split: option.splits)
  then have w: "takeWhile env_char (name @ after) = name" "dropWhile env_char (name @ after) = after"
    using assms(1) by (cases after; simp add: env_name_def list_all_iff takeWhile_append dropWhile_append)+
  have p: "\<not> has_prefix (''${'' @ name @ after) ''$$''" "has_prefix (''${'' @ name @ after) ''${''"
    "drop 2 (''${'' @ name @ after) = name @ after" by (simp_all add: has_prefix_def)
  have d: "takeWhile (\<lambda>c. c \<noteq> CHR ''}'') (d @ CHR ''}'' # post) = d" "dropWhile (\<lambda>c. c \<noteq> CHR ''}'') (d @ CHR ''}'' # post) = CHR ''}'' # post"
    if "CHR ''}'' \<notin> set d" for d
    using that by (induction d) auto
  show ?thesis
    unfolding written env_ref_at_def p w Let_def using assms
    by (cases def) (auto simp: after_def env_name_def default_ok_def has_prefix_def d)
qed

lemma replacement_value:
  "env_value env name def = Some v \<Longrightarrow> replacement env (E_var name def) = Some (json_body v)"
  by (auto simp: env_value_def json_inner_eq split: option.splits)

text \<open>The references of a text, in order.\<close>

function env_refs :: "string \<Rightarrow> env_ref list" where
  "env_refs s =
     (case s of
        [] \<Rightarrow> []
      | c # s' \<Rightarrow> (case env_ref_at s of None \<Rightarrow> env_refs s' | Some (ref, rest) \<Rightarrow> ref # env_refs rest))"
  by pat_completeness auto
termination
  by (relation "measure length") (auto dest: env_ref_shorter)

declare env_refs.simps [simp del]

lemma expand_missing: "fst (expand_loop env s) = map ref_name (filter (\<lambda>r. replacement env r = None) (env_refs s))"
proof (induction env s rule: expand_loop.induct)
  case (1 env s)
  show ?case
  proof (cases s)
    case Nil
    then show ?thesis by (simp add: expand_loop.simps env_refs.simps)
  next
    case (Cons c s')
    show ?thesis
    proof (cases "env_ref_at s")
      case None
      then show ?thesis using "1.IH"(1) [OF Cons None]
        by (simp add: expand_loop.simps [of env "c # s'"] env_refs.simps [of "c # s'"] Cons case_prod_beta)
    next
      case (Some p)
      then obtain ref rest where p: "env_ref_at s = Some (ref, rest)" by (cases p) auto
      then show ?thesis using "1.IH"(2) [OF Cons p refl]
        by (simp add: expand_loop.simps [of env "c # s'"] env_refs.simps [of "c # s'"] Cons case_prod_beta split: option.splits)
    qed
  qed
qed

lemma replacement_None: "replacement env r = None \<longleftrightarrow> (\<exists>name. r = E_var name None \<and> env name = None)"
  by (cases "(env, r)" rule: replacement.cases) (auto split: option.splits)

section \<open>Properties\<close>

text \<open>C28: a reference inside a JSON string of the configuration becomes exactly the variable's value: the string
  literal that follows reads as that value, and the text after its closing quote is expanded as it would be
  alone, so no value can end the string or reach into the rest of the file.\<close>

theorem env_value_literal:
  assumes "CHR ''$'' \<notin> set pre" and "env_name name" and "default_ok def" and "env_value env name def = Some v"
    and "utf8_valid (bytes v)" and "expand_env env post = Inr post'"
  shows "\<exists>t. expand_env env (pre @ ref_text name def @ [CHR 0x22] @ post) = Inr (pre @ t @ [CHR 0x22] @ post')
    \<and> json_read (t @ [CHR 0x22] @ post') = Some (v, post')"
proof -
  have "expand_loop env post = ([], post')" using assms(6) by (auto simp: expand_env_def split: prod.splits if_splits)
  then have post: "expand_loop env ([CHR 0x22] @ post) = ([], [CHR 0x22] @ post')" by (subst expand_plain) simp_all
  have "expand_loop env (ref_text name def @ [CHR 0x22] @ post) = ([], json_body v @ [CHR 0x22] @ post')"
    using expand_ref [OF ref_read [OF assms(2,3)] replacement_value [OF assms(4)]] post by simp
  then have "expand_env env (pre @ ref_text name def @ [CHR 0x22] @ post) = Inr (pre @ json_body v @ [CHR 0x22] @ post')"
    by (simp only: expand_env_def expand_plain [OF assms(1)] prod.case) simp
  moreover have "json_read (json_body v @ [CHR 0x22] @ post') = Some (v, post')" using json_read_body [OF assms(5)] by simp
  ultimately show ?thesis by blast
qed

text \<open>The configuration is rejected exactly if it refers to a variable that is not set and has no default, and
  the error names all of those in order.\<close>

theorem missing_variables:
  "expand_env env raw = Inl ms \<longleftrightarrow>
     ms \<noteq> [] \<and> ms = map ref_name (filter (\<lambda>r. \<exists>name. r = E_var name None \<and> env name = None) (env_refs raw))"
  using expand_missing [of env raw] by (auto simp: expand_env_def replacement_None case_prod_beta)

text \<open>Any text can be written in a configuration file by doubling its dollar signs.\<close>

theorem dollar_escape:
  "expand_env env (concat (map (\<lambda>c. if c = CHR ''$'' then ''$$'' else [c]) s)) = Inr s"
proof -
  have "expand_loop env (concat (map (\<lambda>c. if c = CHR ''$'' then ''$$'' else [c]) s)) = ([], s)"
  proof (induction s)
    case (Cons c s)
    have "env_ref_at (''$$'' @ t) = Some (E_dollar, t)" for t by (simp add: env_ref_at_def has_prefix_def)
    note dollar = expand_ref [OF this replacement.simps(1)]
    show ?case
    proof (cases "c = CHR ''$''")
      case True
      then show ?thesis using Cons dollar by simp
    next
      case False
      then show ?thesis using Cons by (simp add: expand_cons prefix_plain)
    qed
  qed (simp add: expand_loop.simps)
  then show ?thesis by (simp add: expand_env_def)
qed

text \<open>A token with a quote in it.\<close>

definition demo_env :: "string \<Rightarrow> string option" where
  "demo_env name = (if name = ''TOKEN'' then Some (''a'' @ [CHR 0x22] @ ''b'') else None)"

theorem env_value_literal_witness:
  "\<exists>t. expand_env demo_env ((''token: '' @ [CHR 0x22]) @ ref_text ''TOKEN'' (Some ''x'') @ [CHR 0x22] @ '', 1$$'')
      = Inr ((''token: '' @ [CHR 0x22]) @ t @ [CHR 0x22] @ '', 1$'')
    \<and> json_read (t @ [CHR 0x22] @ '', 1$'') = Some (''a'' @ [CHR 0x22] @ ''b'', '', 1$'')"
proof (rule env_value_literal)
  show "env_name ''TOKEN''" "env_value demo_env ''TOKEN'' (Some ''x'') = Some (''a'' @ [CHR 0x22] @ ''b'')"
    "utf8_valid (bytes (''a'' @ [CHR 0x22] @ ''b''))" "expand_env demo_env '', 1$$'' = Inr '', 1$''"
    by code_simp+
qed (simp_all add: default_ok_def)

end
