(* ===== verification/Udp_Flows.thy ===== *)
theory Udp_Flows
  imports Sideport
begin

text \<open>
  \<^verbatim>\<open>internal/sideport/forward.go\<close>, the UDP half: the relay of a manager's public UDP ports
  (\<^verbatim>\<open>udpPort\<close>). Every client address of a port has a flow with an upstream socket of its own. The flows
  are objects shared by the port's map and by their goroutines, so the model keeps them in a heap, and
  the sockets opened are numbered; \<open>ud_open\<close> are those still open.

  What a goroutine does while it holds the mutex of its port is one operation, except the admission of
  a flow: \<^verbatim>\<open>serve\<close> reads the number of all flows before it adds one, and the goroutine of another port may
  run in between. \<open>pt_adding\<close> is the flow so admitted; while there is one, the port's mutex is held and
  no other operation on the port can happen. The step relation interleaves the operations of all ports.

  The lemmas show the accounting and its bounds, that no socket leaks, that two clients never share a
  socket, and what expiry removes; and that the cap on all flows can be exceeded.
\<close>

section \<open>State\<close>

record udp_limits =
  MaxUDPFlows :: int
  MaxFlowsPerPort :: int
  UDPIdle :: duration

text \<open>The defaults that \<^verbatim>\<open>New\<close> fills in.\<close>

definition new_limits :: "udp_limits \<Rightarrow> udp_limits" where
  "new_limits c =
     \<lparr>MaxUDPFlows = (if MaxUDPFlows c \<le> 0 then 4096 else MaxUDPFlows c),
      MaxFlowsPerPort = (if MaxFlowsPerPort c \<le> 0 then 512 else MaxFlowsPerPort c),
      UDPIdle = (if UDPIdle c \<le> 0 then 120 * 1000000000 else UDPIdle c)\<rparr>"

text \<open>\<open>fl_port\<close> and \<open>fl_key\<close> are the arguments of the flow's goroutine; \<open>fl_started\<close>: it has dialed.\<close>

record udp_flow =
  fl_port :: nat
  fl_key :: string
  fl_up :: "nat option"
  fl_last :: time
  fl_started :: bool

record udp_port =
  pt_flows :: "(string \<times> nat) list"
  pt_closed :: bool
  pt_adding :: "(string \<times> time) option"

text \<open>\<open>ud_count\<close> is the manager's counter of flows; \<open>ud_doomed\<close> are the flows that \<^verbatim>\<open>expire\<close> has collected and
  not yet removed.\<close>

record udp =
  ud_ports :: "udp_port list"
  ud_heap :: "udp_flow list"
  ud_count :: int
  ud_open :: "nat list"
  ud_next :: nat
  ud_doomed :: "nat list"

definition new_udp :: "nat \<Rightarrow> udp" where
  "new_udp n = \<lparr>ud_ports = replicate n \<lparr>pt_flows = [], pt_closed = False, pt_adding = None\<rparr>, ud_heap = [],
     ud_count = 0, ud_open = [], ud_next = 0, ud_doomed = []\<rparr>"

definition set_port :: "nat \<Rightarrow> udp_port \<Rightarrow> udp \<Rightarrow> udp" where
  "set_port i p s = s\<lparr>ud_ports := (ud_ports s)[i := p]\<rparr>"

definition set_flow :: "nat \<Rightarrow> udp_flow \<Rightarrow> udp \<Rightarrow> udp" where
  "set_flow f fl s = s\<lparr>ud_heap := (ud_heap s)[f := fl]\<rparr>"

definition close_socket :: "nat \<Rightarrow> udp \<Rightarrow> udp" where
  "close_socket u s = s\<lparr>ud_open := removeAll u (ud_open s)\<rparr>"

section \<open>Operations\<close>

text \<open>\<^verbatim>\<open>admit\<close>: why a new flow is refused, or the empty string.\<close>

definition admit :: "udp_limits \<Rightarrow> udp_port \<Rightarrow> int \<Rightarrow> string" where
  "admit cfg p count =
     (if pt_closed p then ''closed''
      else if int (length (pt_flows p)) \<ge> MaxFlowsPerPort cfg then ''port-full''
      else if count \<ge> MaxUDPFlows cfg then ''flows-full''
      else [])"

text \<open>\<^verbatim>\<open>serve\<close>: one datagram of the client \<open>ck\<close> on port \<open>i\<close>, up to the admission of a new flow.\<close>

datatype relayed = Dropped string | Starting | Sent nat

definition datagram :: "udp_limits \<Rightarrow> nat \<Rightarrow> string \<Rightarrow> time \<Rightarrow> udp \<Rightarrow> relayed \<times> udp" where
  "datagram cfg i ck now s =
     (let p = ud_ports s ! i in
      case map_of (pt_flows p) ck of
        None \<Rightarrow>
          (let reason = admit cfg p (ud_count s) in
           if reason \<noteq> [] then (Dropped reason, s)
           else (Starting, set_port i (p\<lparr>pt_adding := Some (ck, now)\<rparr>) s))
      | Some f \<Rightarrow>
          (let fl = ud_heap s ! f; s = set_flow f (fl\<lparr>fl_last := now\<rparr>) s in
           case fl_up fl of None \<Rightarrow> (Dropped ''dialing'', s) | Some u \<Rightarrow> (Sent u, s)))"

text \<open>The rest of the admission: the flow is in the map and counted, and the mutex free.\<close>

definition insert_flow :: "nat \<Rightarrow> udp \<Rightarrow> udp" where
  "insert_flow i s =
     (let p = ud_ports s ! i in
      case pt_adding p of
        None \<Rightarrow> s
      | Some (ck, now) \<Rightarrow>
          (let f = length (ud_heap s);
               fl = \<lparr>fl_port = i, fl_key = ck, fl_up = None, fl_last = now, fl_started = False\<rparr>
           in (set_port i (p\<lparr>pt_flows := AList.update ck f (pt_flows p), pt_adding := None\<rparr>) s)
                \<lparr>ud_heap := ud_heap s @ [fl], ud_count := ud_count s + 1\<rparr>))"

definition in_table :: "nat \<Rightarrow> udp \<Rightarrow> bool" where
  "in_table f s =
     (let fl = ud_heap s ! f in map_of (pt_flows (ud_ports s ! fl_port fl)) (fl_key fl) = Some f)"

text \<open>\<^verbatim>\<open>remove\<close>.\<close>

definition remove_flow :: "nat \<Rightarrow> udp \<Rightarrow> udp" where
  "remove_flow f s =
     (let fl = ud_heap s ! f; p = ud_ports s ! fl_port fl;
          s = (if in_table f s
               then (set_port (fl_port fl) (p\<lparr>pt_flows := AList.delete (fl_key fl) (pt_flows p)\<rparr>) s)
                      \<lparr>ud_count := ud_count s - 1\<rparr>
               else s)
      in case fl_up fl of None \<Rightarrow> s | Some u \<Rightarrow> close_socket u s)"

text \<open>\<^verbatim>\<open>start\<close> up to its loop: the dial, and what is done with the socket. A socket that comes too late is
  closed at once.\<close>

definition start_flow :: "bool \<Rightarrow> nat \<Rightarrow> udp \<Rightarrow> udp" where
  "start_flow ok f s =
     (let s = set_flow f ((ud_heap s ! f)\<lparr>fl_started := True\<rparr>) s; fl = ud_heap s ! f in
      if \<not> ok then remove_flow f s
      else let u = ud_next s; s = s\<lparr>ud_next := u + 1\<rparr> in
        if pt_closed (ud_ports s ! fl_port fl) \<or> \<not> in_table f s then s
        else (set_flow f (fl\<lparr>fl_up := Some u\<rparr>) s)\<lparr>ud_open := u # ud_open s\<rparr>)"

text \<open>The loop of \<^verbatim>\<open>start\<close>: a reply of the backend.\<close>

definition reply :: "nat \<Rightarrow> time \<Rightarrow> udp \<Rightarrow> udp" where
  "reply f now s = set_flow f ((ud_heap s ! f)\<lparr>fl_last := now\<rparr>) s"

text \<open>\<^verbatim>\<open>expire\<close>: collecting, and the removal of a flow collected.\<close>

definition idle_flows :: "nat \<Rightarrow> time \<Rightarrow> udp \<Rightarrow> nat list" where
  "idle_flows i cutoff s = filter (\<lambda>f. fl_last (ud_heap s ! f) < cutoff) (map snd (pt_flows (ud_ports s ! i)))"

definition collect :: "nat \<Rightarrow> time \<Rightarrow> udp \<Rightarrow> udp" where
  "collect i cutoff s =
     s\<lparr>ud_doomed := ud_doomed s @ idle_flows i cutoff s\<rparr>"

definition remove_doomed :: "nat \<Rightarrow> udp \<Rightarrow> udp" where
  "remove_doomed f s = remove_flow f (s\<lparr>ud_doomed := remove1 f (ud_doomed s)\<rparr>)"

text \<open>\<^verbatim>\<open>expire\<close> without interruption.\<close>

definition expire_port :: "nat \<Rightarrow> time \<Rightarrow> udp \<Rightarrow> udp" where
  "expire_port i cutoff s = foldl (\<lambda>s f. remove_doomed f s) (collect i cutoff s) (idle_flows i cutoff s)"

text \<open>\<^verbatim>\<open>Close\<close>.\<close>

definition upstreams :: "nat \<Rightarrow> udp \<Rightarrow> nat list" where
  "upstreams i s = List.map_filter (\<lambda>(_, f). fl_up (ud_heap s ! f)) (pt_flows (ud_ports s ! i))"

definition close_port :: "nat \<Rightarrow> udp \<Rightarrow> udp" where
  "close_port i s =
     (let p = ud_ports s ! i; ups = upstreams i s in
      (set_port i (p\<lparr>pt_closed := True, pt_flows := []\<rparr>) s)
        \<lparr>ud_count := ud_count s - int (length (pt_flows p)), ud_open := filter (\<lambda>u. u \<notin> set ups) (ud_open s)\<rparr>)"

section \<open>Interleavings\<close>

definition free :: "nat \<Rightarrow> udp \<Rightarrow> bool" where
  "free i s \<longleftrightarrow> i < length (ud_ports s) \<and> pt_adding (ud_ports s ! i) = None"

definition flow_free :: "nat \<Rightarrow> udp \<Rightarrow> bool" where
  "flow_free f s \<longleftrightarrow> f < length (ud_heap s) \<and> free (fl_port (ud_heap s ! f)) s"

text \<open>The states a manager with \<open>n\<close> UDP ports can be in. A read of an upstream socket ends the goroutine's
  loop only once the socket is closed.\<close>

inductive udp_reach :: "udp_limits \<Rightarrow> nat \<Rightarrow> udp \<Rightarrow> bool" for cfg n where
  start: "udp_reach cfg n (new_udp n)"
| datagram: "udp_reach cfg n s \<Longrightarrow> free i s \<Longrightarrow> udp_reach cfg n (snd (datagram cfg i ck now s))"
| insert: "udp_reach cfg n s \<Longrightarrow> i < length (ud_ports s) \<Longrightarrow> udp_reach cfg n (insert_flow i s)"
| dialed: "udp_reach cfg n s \<Longrightarrow> flow_free f s \<Longrightarrow> \<not> fl_started (ud_heap s ! f)
    \<Longrightarrow> udp_reach cfg n (start_flow ok f s)"
| reply: "udp_reach cfg n s \<Longrightarrow> f < length (ud_heap s) \<Longrightarrow> fl_up (ud_heap s ! f) = Some u \<Longrightarrow> u \<in> set (ud_open s)
    \<Longrightarrow> udp_reach cfg n (reply f now s)"
| upstream_closed: "udp_reach cfg n s \<Longrightarrow> flow_free f s \<Longrightarrow> fl_up (ud_heap s ! f) = Some u
    \<Longrightarrow> u \<notin> set (ud_open s) \<Longrightarrow> udp_reach cfg n (remove_flow f s)"
| collect: "udp_reach cfg n s \<Longrightarrow> free i s \<Longrightarrow> udp_reach cfg n (collect i cutoff s)"
| expire: "udp_reach cfg n s \<Longrightarrow> f \<in> set (ud_doomed s) \<Longrightarrow> flow_free f s \<Longrightarrow> udp_reach cfg n (remove_doomed f s)"
| close: "udp_reach cfg n s \<Longrightarrow> free i s \<Longrightarrow> udp_reach cfg n (close_port i s)"

section \<open>The invariant\<close>

definition adding :: "udp_port \<Rightarrow> int" where
  "adding p = (if pt_adding p = None then 0 else 1)"

definition port_total :: "(udp_port \<Rightarrow> int) \<Rightarrow> udp \<Rightarrow> int" where
  "port_total g s = sum_list (map g (ud_ports s))"

definition flow_count :: "udp_port \<Rightarrow> int" where
  "flow_count p = int (length (pt_flows p))"

definition flows_ok :: "udp_limits \<Rightarrow> udp_flow list \<Rightarrow> nat \<Rightarrow> udp_port \<Rightarrow> bool" where
  "flows_ok cfg heap i p \<longleftrightarrow>
     distinct (map fst (pt_flows p))
     \<and> (\<forall>ck f. map_of (pt_flows p) ck = Some f \<longrightarrow> f < length heap \<and> fl_port (heap ! f) = i \<and> fl_key (heap ! f) = ck)
     \<and> flow_count p + adding p \<le> MaxFlowsPerPort cfg
     \<and> (pt_closed p \<longrightarrow> pt_flows p = [] \<and> pt_adding p = None)
     \<and> (\<forall>ck now. pt_adding p = Some (ck, now) \<longrightarrow> map_of (pt_flows p) ck = None)"

definition accounting :: "udp_limits \<Rightarrow> nat \<Rightarrow> udp \<Rightarrow> bool" where
  "accounting cfg n s \<longleftrightarrow>
     length (ud_ports s) = n
     \<and> (\<forall>i < n. flows_ok cfg (ud_heap s) i (ud_ports s ! i))
     \<and> ud_count s = port_total flow_count s
     \<and> ud_count s + port_total adding s \<le> MaxUDPFlows cfg + int n - 1"

text \<open>The flows belong to ports and have at most the sockets they dialed; no socket is shared; open are
  exactly the sockets of the flows in the tables.\<close>

definition flows_wf :: "udp \<Rightarrow> bool" where
  "flows_wf s \<longleftrightarrow>
     (\<forall>f < length (ud_heap s). fl_port (ud_heap s ! f) < length (ud_ports s)
        \<and> (\<forall>u. fl_up (ud_heap s ! f) = Some u \<longrightarrow> u < ud_next s \<and> fl_started (ud_heap s ! f)))
     \<and> (\<forall>f \<in> set (ud_doomed s). f < length (ud_heap s))"

definition unshared :: "udp \<Rightarrow> bool" where
  "unshared s \<longleftrightarrow>
     (\<forall>f < length (ud_heap s). \<forall>g < length (ud_heap s). \<forall>u.
        fl_up (ud_heap s ! f) = Some u \<longrightarrow> fl_up (ud_heap s ! g) = Some u \<longrightarrow> f = g)"

definition open_exact :: "udp \<Rightarrow> bool" where
  "open_exact s \<longleftrightarrow>
     (\<forall>u. u \<in> set (ud_open s) \<longleftrightarrow>
        (\<exists>f < length (ud_heap s). fl_up (ud_heap s ! f) = Some u \<and> in_table f s))"

definition sockets :: "udp \<Rightarrow> bool" where
  "sockets s \<longleftrightarrow> flows_wf s \<and> unshared s \<and> open_exact s"

lemma nth_set: "g < length xs \<Longrightarrow> (xs[f := x]) ! g = (if f = g then x else xs ! g)"
  by simp

lemmas udp_setters = set_port_def set_flow_def close_socket_def

lemma sum_list_set:
  "i < length xs \<Longrightarrow> sum_list (map g (xs[i := y])) = sum_list (map g xs) - g (xs ! i) + (g y :: int)"
  by (induction xs arbitrary: i) (auto split: nat.splits)

lemma port_total_set:
  "i < length (ud_ports s) \<Longrightarrow> port_total g (set_port i p s) = port_total g s - g (ud_ports s ! i) + g p"
  by (simp add: port_total_def set_port_def sum_list_set)

lemma port_total_more [simp]:
  "port_total g (s\<lparr>ud_heap := h\<rparr>) = port_total g s"
  "port_total g (s\<lparr>ud_count := c\<rparr>) = port_total g s"
  "port_total g (s\<lparr>ud_open := os\<rparr>) = port_total g s"
  "port_total g (s\<lparr>ud_next := u\<rparr>) = port_total g s"
  "port_total g (s\<lparr>ud_doomed := d\<rparr>) = port_total g s"
  by (simp_all add: port_total_def)

lemma flow_count_nonneg: "0 \<le> port_total flow_count s"
  by (auto simp: port_total_def flow_count_def intro!: sum_list_nonneg)

lemma adding_le: "port_total adding s \<le> int (length (ud_ports s))"
proof -
  have "sum_list (map adding ps) \<le> int (length ps)" for ps
    by (induction ps) (auto simp: adding_def)
  then show ?thesis by (simp add: port_total_def)
qed

lemma adding_less:
  assumes "i < length (ud_ports s)" "pt_adding (ud_ports s ! i) = None"
  shows "port_total adding s < int (length (ud_ports s))"
proof -
  have "port_total adding (set_port i ((ud_ports s ! i)\<lparr>pt_adding := Some ([], 0)\<rparr>) s) = port_total adding s + 1"
    using assms by (simp add: port_total_set adding_def)
  then show ?thesis
    using adding_le [of "set_port i ((ud_ports s ! i)\<lparr>pt_adding := Some ([], 0)\<rparr>) s"] by (simp add: set_port_def)
qed

text \<open>What an operation that changes one port must do to keep the accounting.\<close>

lemma accounting_set_port:
  assumes "accounting cfg n s" "i < n" "flows_ok cfg heap i p"
    and "\<And>j. j < n \<Longrightarrow> flows_ok cfg (ud_heap s) j (ud_ports s ! j) \<Longrightarrow> flows_ok cfg heap j (ud_ports s ! j)"
    and "ud_ports s' = (ud_ports s)[i := p]" "ud_heap s' = heap"
    and "ud_count s' = ud_count s + flow_count p - flow_count (ud_ports s ! i)"
    and "ud_count s' + port_total adding s + adding p - adding (ud_ports s ! i) \<le> MaxUDPFlows cfg + int n - 1"
  shows "accounting cfg n s'"
proof -
  have "port_total g s' = port_total g s + g p - g (ud_ports s ! i)" for g :: "udp_port \<Rightarrow> int"
    using assms(1,2,5) by (simp add: port_total_def sum_list_set accounting_def)
  then show ?thesis
    using assms by (auto simp: accounting_def nth_list_update)
qed

lemma flows_ok_heap:
  "flows_ok cfg heap i p \<Longrightarrow> length heap \<le> length heap'
    \<Longrightarrow> (\<And>f. f < length heap \<Longrightarrow> fl_port (heap' ! f) = fl_port (heap ! f) \<and> fl_key (heap' ! f) = fl_key (heap ! f))
    \<Longrightarrow> flows_ok cfg heap' i p"
  by (fastforce simp: flows_ok_def)

lemma in_table_iff:
  "in_table f s \<longleftrightarrow> map_of (pt_flows (ud_ports s ! fl_port (ud_heap s ! f))) (fl_key (ud_heap s ! f)) = Some f"
  by (simp add: in_table_def Let_def)

lemma in_table_frame:
  assumes "f < length (ud_heap s)" "flows_wf s"
    and "fl_port (ud_heap s' ! f) = fl_port (ud_heap s ! f)" "fl_key (ud_heap s' ! f) = fl_key (ud_heap s ! f)"
    and "\<And>i. i < length (ud_ports s) \<Longrightarrow> pt_flows (ud_ports s' ! i) = pt_flows (ud_ports s ! i)"
  shows "in_table f s' \<longleftrightarrow> in_table f s"
  using assms by (simp add: in_table_iff flows_wf_def)

text \<open>What leaves the tables and the upstreams alone keeps the sockets.\<close>

lemma sockets_frame:
  assumes inv: "sockets s"
    and len: "length (ud_heap s') = length (ud_heap s)" "length (ud_ports s') = length (ud_ports s)"
    and heap: "\<And>f. f < length (ud_heap s) \<Longrightarrow> fl_port (ud_heap s' ! f) = fl_port (ud_heap s ! f)
           \<and> fl_key (ud_heap s' ! f) = fl_key (ud_heap s ! f) \<and> fl_up (ud_heap s' ! f) = fl_up (ud_heap s ! f)
           \<and> (fl_started (ud_heap s ! f) \<longrightarrow> fl_started (ud_heap s' ! f))"
    and tables: "\<And>i. i < length (ud_ports s) \<Longrightarrow> pt_flows (ud_ports s' ! i) = pt_flows (ud_ports s ! i)"
    and rest: "ud_open s' = ud_open s" "ud_next s \<le> ud_next s'" "\<forall>f \<in> set (ud_doomed s'). f < length (ud_heap s)"
  shows "sockets s'"
proof -
  have "in_table f s' \<longleftrightarrow> in_table f s" if "f < length (ud_heap s)" for f
    using in_table_frame [OF that _ _ _ tables] heap [OF that] inv by (simp add: sockets_def)
  then have "open_exact s'"
    using inv heap by (auto simp: sockets_def open_exact_def len rest(1))
  moreover have "unshared s'"
    using inv heap by (simp add: sockets_def unshared_def len)
  moreover have "flows_wf s'"
    using inv heap rest(2,3) by (fastforce simp: sockets_def flows_wf_def len)
  ultimately show ?thesis by (simp add: sockets_def)
qed

lemma accounting_set_flow:
  assumes "accounting cfg n s" "fl_port fl = fl_port (ud_heap s ! f)" "fl_key fl = fl_key (ud_heap s ! f)"
  shows "accounting cfg n (set_flow f fl s)"
proof -
  have "flows_ok cfg ((ud_heap s)[f := fl]) i (ud_ports s ! i)" if "i < n" for i
    by (rule flows_ok_heap [where heap = "ud_heap s"]) (use assms that in \<open>auto simp: accounting_def nth_set\<close>)
  then show ?thesis
    using assms(1) by (simp add: accounting_def set_flow_def)
qed

lemma sockets_set_flow:
  assumes "sockets s" "fl_port fl = fl_port (ud_heap s ! f)" "fl_key fl = fl_key (ud_heap s ! f)"
    "fl_up fl = fl_up (ud_heap s ! f)" "fl_started (ud_heap s ! f) \<longrightarrow> fl_started fl"
  shows "sockets (set_flow f fl s)"
  by (rule sockets_frame [OF assms(1)])
    (use assms in \<open>auto simp: set_flow_def nth_set sockets_def flows_wf_def\<close>)

lemma accounting_parts:
  assumes "accounting cfg n s" "i < n"
  shows "flows_ok cfg (ud_heap s) i (ud_ports s ! i)" "length (ud_ports s) = n"
    "ud_count s + port_total adding s \<le> MaxUDPFlows cfg + int n - 1"
  using assms by (auto simp: accounting_def)

lemma accounting_datagram:
  assumes inv: "accounting cfg n s" and i: "free i s"
  shows "accounting cfg n (snd (datagram cfg i ck now s))"
proof (cases "map_of (pt_flows (ud_ports s ! i)) ck")
  case (Some f)
  then show ?thesis
    using inv by (auto simp: datagram_def Let_def split: option.splits intro!: accounting_set_flow)
next
  case None
  let ?p = "ud_ports s ! i"
  have n: "i < n" "length (ud_ports s) = n" "pt_adding ?p = None"
    using assms by (auto simp: free_def accounting_def)
  show ?thesis
  proof (cases "admit cfg ?p (ud_count s) = []")
    case False
    then show ?thesis using None inv by (simp add: datagram_def)
  next
    case True
    then have adm: "\<not> pt_closed ?p" "flow_count ?p < MaxFlowsPerPort cfg" "ud_count s < MaxUDPFlows cfg"
      by (auto simp: admit_def flow_count_def split: if_splits)
    have "flows_ok cfg (ud_heap s) i (?p\<lparr>pt_adding := Some (ck, now)\<rparr>)"
      using accounting_parts(1) [OF inv n(1)] adm None n(3)
      by (auto simp: flows_ok_def adding_def flow_count_def)
    moreover have "port_total adding s < int n"
      using adding_less [of i s] n by simp
    ultimately have "accounting cfg n (set_port i (?p\<lparr>pt_adding := Some (ck, now)\<rparr>) s)"
      using adm n(1,3)
      by (intro accounting_set_port [OF inv n(1), where heap = "ud_heap s" and p = "?p\<lparr>pt_adding := Some (ck, now)\<rparr>"]) (auto simp: set_port_def flow_count_def adding_def)
    then show ?thesis using None True by (simp add: datagram_def)
  qed
qed

lemma sockets_set_port:
  assumes "sockets s" "pt_flows p = pt_flows (ud_ports s ! i)"
  shows "sockets (set_port i p s)"
  by (rule sockets_frame [OF assms(1)])
    (use assms in \<open>auto simp: set_port_def nth_set sockets_def flows_wf_def\<close>)

lemma sockets_datagram:
  assumes "sockets s"
  shows "sockets (snd (datagram cfg i ck now s))"
  using assms
  by (auto simp: datagram_def Let_def split: option.splits intro!: sockets_set_port sockets_set_flow)

lemma length_update_new: "map_of xs k = None \<Longrightarrow> length (AList.update k v xs) = Suc (length xs)"
  by (induction xs) (auto split: if_splits)

lemma length_delete_present:
  "distinct (map fst xs) \<Longrightarrow> map_of xs k = Some v \<Longrightarrow> Suc (length (AList.delete k xs)) = length xs"
proof (induction xs)
  case (Cons x xs)
  then show ?case
    by (cases x) (auto simp: AList.delete_idem split: if_splits)
qed simp

lemma accounting_insert:
  assumes inv: "accounting cfg n s" and i: "i < n"
  shows "accounting cfg n (insert_flow i s)"
proof (cases "pt_adding (ud_ports s ! i)")
  case None
  then show ?thesis using inv by (simp add: insert_flow_def)
next
  case (Some x)
  obtain ck now where x: "x = (ck, now)" by (cases x)
  let ?p = "ud_ports s ! i" and ?f = "length (ud_heap s)"
  let ?fl = "\<lparr>fl_port = i, fl_key = ck, fl_up = None, fl_last = now, fl_started = False\<rparr>"
  let ?p' = "?p\<lparr>pt_flows := AList.update ck ?f (pt_flows ?p), pt_adding := None\<rparr>"
  note ok = accounting_parts [OF inv i]
  have new: "map_of (pt_flows ?p) ck = None"
    using ok(1) Some x by (simp add: flows_ok_def)
  have count: "flow_count ?p' = flow_count ?p + 1"
    using new by (simp add: flow_count_def length_update_new)
  have "flows_ok cfg (ud_heap s @ [?fl]) i ?p'"
    using ok(1) Some x count
    by (auto simp: flows_ok_def adding_def nth_append less_Suc_eq simp del: map_of_eq_Some_iff split: if_splits)
  moreover have "flows_ok cfg (ud_heap s @ [?fl]) j (ud_ports s ! j)" if "flows_ok cfg (ud_heap s) j (ud_ports s ! j)" for j
    by (rule flows_ok_heap [OF that]) (auto simp: nth_append)
  ultimately show ?thesis
    using Some x count ok(3)
    by (intro accounting_set_port [OF inv i, where heap = "ud_heap s @ [?fl]" and p = ?p'])
      (auto simp: insert_flow_def Let_def set_port_def adding_def)
qed

lemma sockets_insert:
  assumes inv: "sockets s" and acc: "accounting cfg n s" and i: "i < n"
  shows "sockets (insert_flow i s)"
proof (cases "pt_adding (ud_ports s ! i)")
  case None
  then show ?thesis using inv by (simp add: insert_flow_def)
next
  case (Some x)
  obtain ck now where x: "x = (ck, now)" by (cases x)
  let ?s = "insert_flow i s"
  have len: "length (ud_ports s) = n" and new: "map_of (pt_flows (ud_ports s ! i)) ck = None"
    using accounting_parts [OF acc i] Some x by (auto simp: flows_ok_def)
  have heap: "ud_heap ?s = ud_heap s @ [\<lparr>fl_port = i, fl_key = ck, fl_up = None, fl_last = now, fl_started = False\<rparr>]"
    and rest: "length (ud_ports ?s) = n" "ud_open ?s = ud_open s" "ud_next ?s = ud_next s" "ud_doomed ?s = ud_doomed s"
    using Some x len by (simp_all add: insert_flow_def Let_def set_port_def)
  have table: "in_table f ?s \<longleftrightarrow> in_table f s" if "f < length (ud_heap s)" for f
  proof -
    have "fl_port (ud_heap s ! f) < n" using inv len that by (simp add: sockets_def flows_wf_def)
    then show ?thesis
      using that new Some x len i by (auto simp: in_table_iff insert_flow_def Let_def set_port_def nth_append nth_set)
  qed
  have "open_exact ?s"
    using inv table by (auto simp: sockets_def open_exact_def heap rest nth_append less_Suc_eq)
  moreover have "unshared ?s"
    using inv by (auto simp: sockets_def unshared_def heap nth_append less_Suc_eq)
  moreover have "flows_wf ?s"
    using inv i len by (auto simp: sockets_def flows_wf_def heap rest nth_append less_Suc_eq)
  ultimately show ?thesis by (simp add: sockets_def)
qed

section \<open>Removal\<close>

lemma remove_flow_out:
  "\<not> in_table f s \<Longrightarrow>
   remove_flow f s = (case fl_up (ud_heap s ! f) of None \<Rightarrow> s | Some u \<Rightarrow> close_socket u s)"
  by (simp add: remove_flow_def Let_def)

lemma accounting_more [simp]:
  "accounting cfg n (s\<lparr>ud_open := os\<rparr>) = accounting cfg n s"
  "accounting cfg n (s\<lparr>ud_next := u\<rparr>) = accounting cfg n s"
  "accounting cfg n (s\<lparr>ud_doomed := d\<rparr>) = accounting cfg n s"
  by (simp_all add: accounting_def)

lemma remove_flow_fields:
  "ud_heap (remove_flow f s) = ud_heap s" "ud_next (remove_flow f s) = ud_next s"
  "ud_doomed (remove_flow f s) = ud_doomed s" "length (ud_ports (remove_flow f s)) = length (ud_ports s)"
  "ud_open (remove_flow f s) = filter (\<lambda>u. fl_up (ud_heap s ! f) \<noteq> Some u) (ud_open s)"
  by (auto simp: remove_flow_def Let_def set_port_def close_socket_def removeAll_filter_not_eq
      intro: filter_cong split: option.splits)

lemma remove_flow_ports:
  "ud_ports (remove_flow f s) =
     (let fl = ud_heap s ! f; p = ud_ports s ! fl_port fl in
      if in_table f s then (ud_ports s)[fl_port fl := p\<lparr>pt_flows := AList.delete (fl_key fl) (pt_flows p)\<rparr>]
      else ud_ports s)"
  "ud_count (remove_flow f s) = (if in_table f s then ud_count s - 1 else ud_count s)"
  by (auto simp: remove_flow_def Let_def set_port_def close_socket_def split: option.splits)

lemma flows_ok_delete:
  assumes "flows_ok cfg heap i p"
  shows "flows_ok cfg heap i (p\<lparr>pt_flows := AList.delete k (pt_flows p)\<rparr>)"
proof -
  have "length (AList.delete k (pt_flows p)) \<le> length (pt_flows p)" by (rule AList.length_delete_le)
  then show ?thesis
    using assms by (auto simp: flows_ok_def adding_def flow_count_def simp del: map_of_eq_Some_iff)
qed

lemma accounting_remove:
  assumes inv: "accounting cfg n s" and wf: "flows_wf s" and f: "f < length (ud_heap s)"
  shows "accounting cfg n (remove_flow f s)"
proof (cases "in_table f s")
  case False
  then show ?thesis using inv by (simp add: remove_flow_out close_socket_def split: option.splits)
next
  case True
  let ?fl = "ud_heap s ! f"
  let ?i = "fl_port ?fl"
  let ?p = "ud_ports s ! ?i"
  let ?p' = "?p\<lparr>pt_flows := AList.delete (fl_key ?fl) (pt_flows ?p)\<rparr>"
  have i: "?i < n" using inv wf f by (simp add: flows_wf_def accounting_def)
  note ok = accounting_parts [OF inv i]
  have count: "flow_count ?p' = flow_count ?p - 1"
  proof -
    have "distinct (map fst (pt_flows ?p))"
      using ok(1) unfolding flows_ok_def by blast
    from length_delete_present [OF this True [unfolded in_table_iff]] show ?thesis by (simp add: flow_count_def)
  qed
  have "flows_ok cfg (ud_heap s) ?i ?p'"
    using ok(1) by (rule flows_ok_delete)
  then show ?thesis
    using True count ok(3)
    by (intro accounting_set_port [OF inv i, where heap = "ud_heap s" and p = ?p'])
      (auto simp: remove_flow_fields remove_flow_ports Let_def adding_def)
qed

lemma in_table_remove:
  assumes "f < length (ud_heap s)" "g < length (ud_heap s)" "flows_wf s"
  shows "in_table g (remove_flow f s) \<longleftrightarrow> in_table g s \<and> g \<noteq> f"
proof -
  have "fl_port (ud_heap s ! f) < length (ud_ports s)" "fl_port (ud_heap s ! g) < length (ud_ports s)"
    using assms by (auto simp: flows_wf_def)
  then show ?thesis
    by (auto simp: in_table_iff remove_flow_fields remove_flow_ports Let_def nth_set)
qed

lemma sockets_remove:
  assumes inv: "sockets s" and f: "f < length (ud_heap s)"
  shows "sockets (remove_flow f s)"
proof -
  have table: "in_table g (remove_flow f s) \<longleftrightarrow> in_table g s \<and> g \<noteq> f" if "g < length (ud_heap s)" for g
    using in_table_remove [OF f that] inv by (simp add: sockets_def)
  have own: "g = f" if "g < length (ud_heap s)" "fl_up (ud_heap s ! g) = Some u" "fl_up (ud_heap s ! f) = Some u" for g u
    using inv f that by (simp add: sockets_def unshared_def)
  have "open_exact (remove_flow f s)"
    using inv table own by (fastforce simp: sockets_def open_exact_def remove_flow_fields)
  then show ?thesis
    using inv by (simp add: sockets_def flows_wf_def unshared_def remove_flow_fields)
qed

lemma accounting_start:
  assumes inv: "accounting cfg n s" and wf: "flows_wf s" and f: "f < length (ud_heap s)"
  shows "accounting cfg n (start_flow ok f s)"
proof -
  let ?s = "set_flow f ((ud_heap s ! f)\<lparr>fl_started := True\<rparr>) s"
  have inv': "accounting cfg n ?s" using inv by (intro accounting_set_flow) simp_all
  have "flows_wf ?s" using wf by (auto simp: flows_wf_def set_flow_def nth_set)
  then have "accounting cfg n (remove_flow f ?s)"
    using inv' f by (intro accounting_remove) (simp_all add: set_flow_def)
  moreover have "accounting cfg n (set_flow f ((ud_heap ?s ! f)\<lparr>fl_up := u\<rparr>) (?s\<lparr>ud_next := v\<rparr>))" for u v
    using inv' by (intro accounting_set_flow) simp_all
  ultimately show ?thesis using inv' by (simp add: start_flow_def Let_def)
qed

text \<open>A flow that gets its upstream.\<close>

lemma sockets_connect:
  assumes inv: "sockets s" and f: "f < length (ud_heap s)" "fl_started (ud_heap s ! f)" "fl_up (ud_heap s ! f) = None"
    and table: "in_table f s"
    and s': "s' = (set_flow f ((ud_heap s ! f)\<lparr>fl_up := Some (ud_next s)\<rparr>) s)
               \<lparr>ud_next := ud_next s + 1, ud_open := ud_next s # ud_open s\<rparr>"
  shows "sockets s'"
proof -
  let ?u = "ud_next s"
  have heap: "ud_heap s' = (ud_heap s)[f := (ud_heap s ! f)\<lparr>fl_up := Some ?u\<rparr>]"
    and rest: "ud_ports s' = ud_ports s" "ud_next s' = ?u + 1" "ud_open s' = ?u # ud_open s" "ud_doomed s' = ud_doomed s"
    by (simp_all add: s' set_flow_def)
  have len: "length (ud_heap s') = length (ud_heap s)" by (simp add: heap)
  have old: "u < ?u" if "g < length (ud_heap s)" "fl_up (ud_heap s ! g) = Some u" for g u
    using inv that by (simp add: sockets_def flows_wf_def)
  have tables: "in_table g s' \<longleftrightarrow> in_table g s" if "g < length (ud_heap s)" for g
    using that by (auto simp: in_table_iff heap rest nth_set)
  have ups: "fl_up (ud_heap s' ! g) = Some u \<longleftrightarrow> (if g = f then u = ?u else fl_up (ud_heap s ! g) = Some u)"
    if "g < length (ud_heap s)" for g u
    using that f by (auto simp: heap nth_set)
  have "u \<in> set (ud_open s') \<longleftrightarrow> (\<exists>g < length (ud_heap s'). fl_up (ud_heap s' ! g) = Some u \<and> in_table g s')" for u
  proof -
    have before: "u \<in> set (ud_open s) \<longleftrightarrow> (\<exists>g < length (ud_heap s). g \<noteq> f \<and> fl_up (ud_heap s ! g) = Some u \<and> in_table g s)"
      using inv f(3) by (fastforce simp: sockets_def open_exact_def)
    have after: "fl_up (ud_heap s' ! g) = Some u \<and> in_table g s' \<longleftrightarrow>
        (if g = f then u = ?u else fl_up (ud_heap s ! g) = Some u \<and> in_table g s)" if "g < length (ud_heap s)" for g
      using that table tables ups by simp
    show ?thesis
    proof (cases "u = ?u")
      case True
      then show ?thesis using f(1) after [OF f(1)] by (auto simp: rest len)
    next
      case False
      have "(\<exists>g < length (ud_heap s). fl_up (ud_heap s' ! g) = Some u \<and> in_table g s')
          \<longleftrightarrow> (\<exists>g < length (ud_heap s). g \<noteq> f \<and> fl_up (ud_heap s ! g) = Some u \<and> in_table g s)"
      proof -
        have "fl_up (ud_heap s' ! g) = Some u \<and> in_table g s' \<longleftrightarrow> g \<noteq> f \<and> fl_up (ud_heap s ! g) = Some u \<and> in_table g s"
          if "g < length (ud_heap s)" for g
          using after [OF that] False by (cases "g = f") simp_all
        then show ?thesis by blast
      qed
      then show ?thesis using False before by (simp add: rest len)
    qed
  qed
  then have "open_exact s'" by (simp add: open_exact_def)
  moreover have "unshared s'"
    unfolding unshared_def len
  proof (intro allI impI)
    fix g h u
    assume g: "g < length (ud_heap s)" "h < length (ud_heap s)"
      "fl_up (ud_heap s' ! g) = Some u" "fl_up (ud_heap s' ! h) = Some u"
    have "g = h" if "fl_up (ud_heap s ! g) = Some u" "fl_up (ud_heap s ! h) = Some u"
      using inv g(1,2) that by (simp add: sockets_def unshared_def)
    then show "g = h"
      using ups [OF g(1), of u] ups [OF g(2), of u] g(3,4) old [OF g(1), of u] old [OF g(2), of u]
      by (cases "g = f"; cases "h = f") simp_all
  qed
  moreover have "flows_wf s'"
    using inv f old by (auto simp: sockets_def flows_wf_def heap rest nth_set less_Suc_eq)
  ultimately show ?thesis by (simp add: sockets_def)
qed

lemma sockets_start:
  assumes inv: "sockets s" and f: "f < length (ud_heap s)" and new: "\<not> fl_started (ud_heap s ! f)"
  shows "sockets (start_flow ok f s)"
proof -
  let ?s = "set_flow f ((ud_heap s ! f)\<lparr>fl_started := True\<rparr>) s"
  let ?t = "?s\<lparr>ud_next := ud_next ?s + 1\<rparr>"
  have inv': "sockets ?s" using inv by (intro sockets_set_flow) simp_all
  have up: "fl_up (ud_heap s ! f) = None"
    using inv f new by (cases "fl_up (ud_heap s ! f)") (auto simp: sockets_def flows_wf_def)
  have heap: "ud_heap ?s ! f = (ud_heap s ! f)\<lparr>fl_started := True\<rparr>" "length (ud_heap ?s) = length (ud_heap s)"
    using f by (simp_all add: set_flow_def)
  have late: "sockets ?t"
    by (rule sockets_frame [OF inv']) (use inv' in \<open>auto simp: sockets_def flows_wf_def\<close>)
  have "in_table f ?t = in_table f ?s" by (simp add: in_table_iff)
  then have "sockets ((set_flow f ((ud_heap ?s ! f)\<lparr>fl_up := Some (ud_next ?s)\<rparr>) ?t)\<lparr>ud_open := ud_next ?s # ud_open ?t\<rparr>)"
    if "in_table f ?t"
    using that f up heap
    by (intro sockets_connect [OF inv', of f]) (auto simp: set_flow_def)
  then show ?thesis
    using late sockets_remove [OF inv', of f] f heap by (simp add: start_flow_def Let_def)
qed

section \<open>Closing\<close>

lemma flows_ok_closed: "flows_ok cfg heap i p \<Longrightarrow> pt_adding p = None \<Longrightarrow> 0 \<le> MaxFlowsPerPort cfg
    \<Longrightarrow> flows_ok cfg heap i (p\<lparr>pt_closed := True, pt_flows := []\<rparr>)"
  by (simp add: flows_ok_def adding_def flow_count_def)

lemma accounting_close:
  assumes inv: "accounting cfg n s" and i: "free i s"
  shows "accounting cfg n (close_port i s)"
proof -
  let ?p = "ud_ports s ! i"
  let ?p' = "?p\<lparr>pt_closed := True, pt_flows := []\<rparr>"
  have n: "i < n" "pt_adding ?p = None" using assms by (auto simp: free_def accounting_def)
  note ok = accounting_parts [OF inv n(1)]
  have nn: "0 \<le> flow_count ?p" "0 \<le> adding ?p" "adding ?p' = adding ?p" "flow_count ?p' = 0"
    by (simp_all add: flow_count_def adding_def)
  have "flows_ok cfg (ud_heap s) i ?p'"
    using ok(1) n(2) nn(1,2) by (intro flows_ok_closed) (auto simp: flows_ok_def)
  then show ?thesis
    using ok(3) nn by (intro accounting_set_port [OF inv n(1), where heap = "ud_heap s" and p = ?p'])
      (auto simp: close_port_def Let_def set_port_def flow_count_def)
qed

lemma in_upstreams:
  assumes "accounting cfg n s" "i < n"
  shows "u \<in> set (upstreams i s) \<longleftrightarrow>
     (\<exists>f < length (ud_heap s). fl_port (ud_heap s ! f) = i \<and> fl_up (ud_heap s ! f) = Some u \<and> in_table f s)"
proof -
  let ?fs = "pt_flows (ud_ports s ! i)"
  note ok = accounting_parts(1) [OF assms]
  have dist: "distinct (map fst ?fs)" using ok unfolding flows_ok_def by blast
  have entry: "(ck, f) \<in> set ?fs \<longleftrightarrow>
      f < length (ud_heap s) \<and> fl_port (ud_heap s ! f) = i \<and> fl_key (ud_heap s ! f) = ck \<and> in_table f s" for ck f
  proof
    assume "(ck, f) \<in> set ?fs"
    then have m: "map_of ?fs ck = Some f" using dist by simp
    then have "f < length (ud_heap s)" "fl_port (ud_heap s ! f) = i" "fl_key (ud_heap s ! f) = ck"
      using ok unfolding flows_ok_def by blast+
    then show "f < length (ud_heap s) \<and> fl_port (ud_heap s ! f) = i \<and> fl_key (ud_heap s ! f) = ck \<and> in_table f s"
      using m unfolding in_table_iff by simp
  next
    assume r: "f < length (ud_heap s) \<and> fl_port (ud_heap s ! f) = i \<and> fl_key (ud_heap s ! f) = ck \<and> in_table f s"
    then have "map_of ?fs ck = Some f" unfolding in_table_iff by blast
    then show "(ck, f) \<in> set ?fs" by (rule map_of_SomeD)
  qed
  have "u \<in> set (upstreams i s) \<longleftrightarrow> (\<exists>ck f. (ck, f) \<in> set ?fs \<and> fl_up (ud_heap s ! f) = Some u)"
    by (force simp: upstreams_def map_filter_def)
  then show ?thesis using entry by blast
qed

lemma in_table_close:
  assumes "flows_wf s" "f < length (ud_heap s)"
  shows "in_table f (close_port i s) \<longleftrightarrow> in_table f s \<and> fl_port (ud_heap s ! f) \<noteq> i"
proof -
  have "fl_port (ud_heap s ! f) < length (ud_ports s)" using assms by (simp add: flows_wf_def)
  then show ?thesis
    by (cases "fl_port (ud_heap s ! f) = i") (simp_all add: in_table_iff close_port_def Let_def set_port_def)
qed

lemma close_port_fields:
  "ud_heap (close_port i s) = ud_heap s" "ud_next (close_port i s) = ud_next s"
  "ud_doomed (close_port i s) = ud_doomed s" "length (ud_ports (close_port i s)) = length (ud_ports s)"
  "ud_open (close_port i s) = filter (\<lambda>u. u \<notin> set (upstreams i s)) (ud_open s)"
  by (simp_all add: close_port_def Let_def set_port_def)

lemma sockets_close:
  assumes inv: "sockets s" and acc: "accounting cfg n s" and i: "i < n"
  shows "sockets (close_port i s)"
proof -
  have table: "in_table f (close_port i s) \<longleftrightarrow> in_table f s \<and> fl_port (ud_heap s ! f) \<noteq> i"
    if "f < length (ud_heap s)" for f
    using in_table_close that inv by (simp add: sockets_def)
  have "u \<in> set (ud_open (close_port i s)) \<longleftrightarrow>
      (\<exists>f < length (ud_heap s). fl_up (ud_heap s ! f) = Some u \<and> in_table f (close_port i s))" for u
  proof -
    have "f = g" if "f < length (ud_heap s)" "g < length (ud_heap s)" "fl_up (ud_heap s ! f) = Some u"
      "fl_up (ud_heap s ! g) = Some u" for f g
      using inv that by (simp add: sockets_def unshared_def)
    moreover have "u \<in> set (ud_open s) \<longleftrightarrow> (\<exists>f < length (ud_heap s). fl_up (ud_heap s ! f) = Some u \<and> in_table f s)"
      using inv by (simp add: sockets_def open_exact_def)
    ultimately show ?thesis
      using table in_upstreams [OF acc i, of u] unfolding close_port_fields set_filter by blast
  qed
  then show ?thesis
    using inv by (simp add: sockets_def flows_wf_def unshared_def open_exact_def close_port_fields)
qed

section \<open>Every interleaving\<close>

lemma in_flows:
  assumes "accounting cfg n s" "i < n" "(ck, f) \<in> set (pt_flows (ud_ports s ! i))"
  shows "f < length (ud_heap s)" "fl_port (ud_heap s ! f) = i" "fl_key (ud_heap s ! f) = ck" "in_table f s"
proof -
  note ok = accounting_parts(1) [OF assms(1,2)]
  have "distinct (map fst (pt_flows (ud_ports s ! i)))" using ok unfolding flows_ok_def by blast
  then have m: "map_of (pt_flows (ud_ports s ! i)) ck = Some f" using assms(3) by simp
  show "f < length (ud_heap s)" and p: "fl_port (ud_heap s ! f) = i" and k: "fl_key (ud_heap s ! f) = ck"
    using ok m unfolding flows_ok_def by blast+
  show "in_table f s" unfolding in_table_iff p k by (rule m)
qed

lemma sockets_collect:
  assumes inv: "sockets s" and acc: "accounting cfg n s" and i: "free i s"
  shows "sockets (collect i cutoff s)"
proof (rule sockets_frame [OF inv])
  have "i < n" using acc i by (simp add: free_def accounting_def)
  then show "\<forall>f \<in> set (ud_doomed (collect i cutoff s)). f < length (ud_heap s)"
    using in_flows(1) [OF acc] inv by (auto simp: collect_def idle_flows_def sockets_def flows_wf_def)
qed (auto simp: collect_def)

lemma sockets_doomed:
  assumes "sockets s"
  shows "sockets (s\<lparr>ud_doomed := remove1 f (ud_doomed s)\<rparr>)"
  by (rule sockets_frame [OF assms])
    (use assms notin_set_remove1 in \<open>auto simp: sockets_def flows_wf_def dest: in_set_remove1 [THEN iffD1, rotated]\<close>)

lemma reach_inv:
  "udp_reach cfg n s \<Longrightarrow> 0 < MaxUDPFlows cfg \<Longrightarrow> 0 \<le> MaxFlowsPerPort cfg \<Longrightarrow> accounting cfg n s \<and> sockets s"
proof (induction rule: udp_reach.induct)
  case start
  then show ?case
    by (auto simp: accounting_def sockets_def flows_ok_def flows_wf_def unshared_def open_exact_def new_udp_def
        port_total_def flow_count_def adding_def sum_list_replicate)
next
  case (datagram s i ck now)
  then show ?case using accounting_datagram sockets_datagram by blast
next
  case (insert s i)
  then show ?case using accounting_insert sockets_insert by (metis accounting_def)
next
  case (dialed s f ok)
  then show ?case using accounting_start sockets_start by (simp add: flow_free_def sockets_def)
next
  case (reply s f u now)
  then show ?case
    unfolding reply_def by (auto intro!: accounting_set_flow sockets_set_flow)
next
  case (upstream_closed s f u)
  then show ?case using accounting_remove sockets_remove by (simp add: flow_free_def sockets_def)
next
  case (collect s i cutoff)
  then show ?case using sockets_collect by (auto simp: collect_def)
next
  case (expire s f)
  then show ?case
    using accounting_remove [of cfg n "s\<lparr>ud_doomed := remove1 f (ud_doomed s)\<rparr>" f] sockets_doomed
      sockets_remove [of "s\<lparr>ud_doomed := remove1 f (ud_doomed s)\<rparr>" f]
    by (simp add: flow_free_def remove_doomed_def sockets_def)
next
  case (close s i)
  then show ?case using accounting_close sockets_close by (metis accounting_def free_def)
qed

section \<open>Properties\<close>

lemma reach_new_limits: "udp_reach (new_limits cfg) n s \<Longrightarrow> accounting (new_limits cfg) n s \<and> sockets s"
  by (rule reach_inv) (simp_all add: new_limits_def)

definition busy :: "udp \<Rightarrow> nat" where
  "busy s = length (filter (\<lambda>p. pt_adding p \<noteq> None) (ud_ports s))"

text \<open>However the goroutines of the UDP ports, their flows and the sweeper interleave, the manager's
  counter is the number of flows in the tables of all ports, no port has more flows than
  \<^verbatim>\<open>MaxFlowsPerPort\<close>, a closed port has none, and the total exceeds \<^verbatim>\<open>MaxUDPFlows\<close> by less than the number of
  ports.\<close>

theorem udp_accounting:
  assumes "udp_reach (new_limits cfg) n s"
  shows "ud_count s = int (sum_list (map (\<lambda>p. length (pt_flows p)) (ud_ports s)))
     \<and> ud_count s \<le> MaxUDPFlows (new_limits cfg) + int n - 1
     \<and> (\<forall>i < n. int (length (pt_flows (ud_ports s ! i))) \<le> MaxFlowsPerPort (new_limits cfg)
          \<and> (pt_closed (ud_ports s ! i) \<longrightarrow> pt_flows (ud_ports s ! i) = []))"
proof -
  have acc: "accounting (new_limits cfg) n s" using reach_new_limits [OF assms] by blast
  have nn: "0 \<le> port_total adding s"
    by (auto simp: port_total_def adding_def intro!: sum_list_nonneg)
  have "int (sum_list (map (\<lambda>p. length (pt_flows p)) ps)) = sum_list (map flow_count ps)" for ps
    by (induction ps) (simp_all add: flow_count_def)
  then have "ud_count s = int (sum_list (map (\<lambda>p. length (pt_flows p)) (ud_ports s)))"
    using acc by (simp add: accounting_def port_total_def)
  moreover have "ud_count s \<le> MaxUDPFlows (new_limits cfg) + int n - 1"
    using acc nn by (simp add: accounting_def)
  moreover have "int (length (pt_flows p)) \<le> MaxFlowsPerPort (new_limits cfg) \<and> (pt_closed p \<longrightarrow> pt_flows p = [])"
    if "flows_ok (new_limits cfg) (ud_heap s) i p" for i p
    using that by (auto simp: flows_ok_def flow_count_def adding_def split: if_splits)
  ultimately show ?thesis
    using accounting_parts(1) [OF acc] by blast
qed

text \<open>A run of two ports with a cap of one flow: both read the counter before either adds its flow.\<close>

definition demo_limits :: udp_limits where
  "demo_limits = \<lparr>MaxUDPFlows = 1, MaxFlowsPerPort = 0, UDPIdle = 0\<rparr>"

definition demo_both :: udp where
  "demo_both =
     insert_flow 1 (insert_flow 0
       (snd (datagram (new_limits demo_limits) 1 ''203.0.113.8:40000'' 7
          (snd (datagram (new_limits demo_limits) 0 ''203.0.113.7:40000'' 5 (new_udp 2))))))"

lemma demo_both_reach: "udp_reach (new_limits demo_limits) 2 demo_both"
  unfolding demo_both_def
  by (intro udp_reach.insert udp_reach.datagram udp_reach.start; code_simp)

text \<open>C0: \<^verbatim>\<open>MaxUDPFlows\<close> does not cap the UDP flows across all ports: with a cap of one flow, two ports that
  admit their first client at the same time have two flows between them, because each reads the counter
  under its own mutex only.\<close>

theorem udp_cap_overrun:
  "\<exists>cfg s. MaxUDPFlows cfg = 1 \<and> udp_reach (new_limits cfg) 2 s \<and> ud_count s = 2"
proof (intro exI conjI)
  show "MaxUDPFlows demo_limits = 1" by (simp add: demo_limits_def)
  show "udp_reach (new_limits demo_limits) 2 demo_both" by (rule demo_both_reach)
  show "ud_count demo_both = 2" by code_simp
qed

theorem udp_accounting_witness:
  "ud_count demo_both = int (sum_list (map (\<lambda>p. length (pt_flows p)) (ud_ports demo_both)))
     \<and> ud_count demo_both \<le> MaxUDPFlows (new_limits demo_limits) + int 2 - 1
     \<and> int (length (pt_flows (ud_ports demo_both ! 1))) \<le> MaxFlowsPerPort (new_limits demo_limits)"
  using udp_accounting [OF demo_both_reach] by simp


definition demo_relay :: udp where
  "demo_relay = start_flow True 0 (insert_flow 0
     (snd (datagram (new_limits demo_limits) 0 ''203.0.113.7:40000'' 5 (new_udp 1))))"

lemma demo_relay_reach: "udp_reach (new_limits demo_limits) 1 demo_relay"
  unfolding demo_relay_def
  by (intro udp_reach.dialed udp_reach.insert udp_reach.datagram udp_reach.start; code_simp)


section \<open>Expiry\<close>

lemma accounting_doomed: "accounting cfg n s \<Longrightarrow> accounting cfg n (s\<lparr>ud_doomed := d\<rparr>)"
  by simp

lemma in_table_doomed [simp]: "in_table g (s\<lparr>ud_doomed := d\<rparr>) = in_table g s"
  by (simp add: in_table_iff)

lemma remove_doomed_inv:
  assumes "accounting cfg n s" "sockets s" "f < length (ud_heap s)"
  shows "accounting cfg n (remove_doomed f s)" "sockets (remove_doomed f s)" "ud_heap (remove_doomed f s) = ud_heap s"
    "g < length (ud_heap s) \<Longrightarrow> in_table g (remove_doomed f s) \<longleftrightarrow> in_table g s \<and> g \<noteq> f"
proof -
  let ?s = "s\<lparr>ud_doomed := remove1 f (ud_doomed s)\<rparr>"
  have inv: "accounting cfg n ?s" "sockets ?s"
    using assms sockets_doomed by simp_all
  then have wf: "flows_wf ?s" by (simp add: sockets_def)
  show "accounting cfg n (remove_doomed f s)" "sockets (remove_doomed f s)" "ud_heap (remove_doomed f s) = ud_heap s"
    using inv wf assms(3) by (simp_all add: remove_doomed_def accounting_remove sockets_remove remove_flow_fields)
  show "in_table g (remove_doomed f s) \<longleftrightarrow> in_table g s \<and> g \<noteq> f" if "g < length (ud_heap s)"
    using in_table_remove [of f ?s g] wf assms(3) that by (simp add: remove_doomed_def)
qed

lemma remove_all_doomed:
  assumes "accounting cfg n s" "sockets s" "\<forall>f \<in> set fs. f < length (ud_heap s)"
  shows "accounting cfg n (foldl (\<lambda>s f. remove_doomed f s) s fs)
    \<and> sockets (foldl (\<lambda>s f. remove_doomed f s) s fs)
    \<and> ud_heap (foldl (\<lambda>s f. remove_doomed f s) s fs) = ud_heap s
    \<and> (\<forall>g < length (ud_heap s). in_table g (foldl (\<lambda>s f. remove_doomed f s) s fs) \<longleftrightarrow> in_table g s \<and> g \<notin> set fs)"
  using assms
proof (induction fs arbitrary: s)
  case (Cons f fs)
  have f: "f < length (ud_heap s)" using Cons.prems by simp
  note r = remove_doomed_inv [OF Cons.prems(1,2) f]
  have "\<forall>f' \<in> set fs. f' < length (ud_heap (remove_doomed f s))"
    using Cons.prems(3) r(3) by simp
  from Cons.IH [OF r(1,2) this] show ?case using r(3,4) by auto
qed auto

lemma table_entry:
  assumes "accounting cfg n s" "i < n"
  shows "map_of (pt_flows (ud_ports s ! i)) ck = Some f \<longleftrightarrow>
     f < length (ud_heap s) \<and> fl_port (ud_heap s ! f) = i \<and> fl_key (ud_heap s ! f) = ck \<and> in_table f s"
proof -
  have "f < length (ud_heap s) \<and> fl_port (ud_heap s ! f) = i \<and> fl_key (ud_heap s ! f) = ck"
    if "map_of (pt_flows (ud_ports s ! i)) ck = Some f"
    using accounting_parts(1) [OF assms] that unfolding flows_ok_def by blast
  then show ?thesis unfolding in_table_iff by metis
qed

text \<open>When the sweeper expires a port without interruption, exactly the flows without traffic since the
  cutoff leave its table, their sockets are closed, and every other flow of every port, with its socket,
  stays as it was.\<close>

theorem udp_expiry:
  assumes "udp_reach (new_limits cfg) n s" and "i < n" and "j < n"
  shows "map_of (pt_flows (ud_ports (expire_port i cutoff s) ! j)) ck =
       (case map_of (pt_flows (ud_ports s ! j)) ck of
          None \<Rightarrow> None
        | Some f \<Rightarrow> if j = i \<and> fl_last (ud_heap s ! f) < cutoff then None else Some f)
     \<and> (u \<in> set (ud_open (expire_port i cutoff s)) \<longleftrightarrow>
          (\<exists>k < n. \<exists>ck f. map_of (pt_flows (ud_ports s ! k)) ck = Some f \<and> fl_up (ud_heap s ! f) = Some u
             \<and> \<not> (k = i \<and> fl_last (ud_heap s ! f) < cutoff)))"
proof -
  let ?t = "expire_port i cutoff s" and ?c = "collect i cutoff s"
  have acc: "accounting (new_limits cfg) n s" and so: "sockets s" using reach_new_limits [OF assms(1)] by blast+
  have idle: "f \<in> set (idle_flows i cutoff s) \<longleftrightarrow>
      (\<exists>ck. map_of (pt_flows (ud_ports s ! i)) ck = Some f) \<and> fl_last (ud_heap s ! f) < cutoff" for f
  proof -
    have "distinct (map fst (pt_flows (ud_ports s ! i)))"
      using accounting_parts(1) [OF acc assms(2)] unfolding flows_ok_def by blast
    then show ?thesis by (force simp: idle_flows_def)
  qed
  then have range: "\<forall>f \<in> set (idle_flows i cutoff s). f < length (ud_heap s)"
    using table_entry [OF acc assms(2)] by blast
  have c: "accounting (new_limits cfg) n ?c" "sockets ?c" "ud_heap ?c = ud_heap s" "\<And>g. in_table g ?c = in_table g s"
  proof -
    show "sockets ?c"
      by (rule sockets_frame [OF so]) (use range so in \<open>auto simp: collect_def sockets_def flows_wf_def\<close>)
  qed (simp_all add: collect_def acc)
  note t = remove_all_doomed [OF c(1,2), of "idle_flows i cutoff s", unfolded c(3), OF range,
      folded expire_port_def, unfolded c(4)]
  note t = t [THEN conjunct1] t [THEN conjunct2, THEN conjunct1] t [THEN conjunct2, THEN conjunct2, THEN conjunct1]
    t [THEN conjunct2, THEN conjunct2, THEN conjunct2]
  have left: "map_of (pt_flows (ud_ports ?t ! k)) ck = Some f \<longleftrightarrow>
      map_of (pt_flows (ud_ports s ! k)) ck = Some f \<and> \<not> (k = i \<and> fl_last (ud_heap s ! f) < cutoff)" if "k < n" for k ck f
  proof -
    have "map_of (pt_flows (ud_ports ?t ! k)) ck = Some f \<longleftrightarrow>
        map_of (pt_flows (ud_ports s ! k)) ck = Some f \<and> f \<notin> set (idle_flows i cutoff s)"
      using table_entry [OF acc that, of ck f] table_entry [OF t(1) that, of ck f] t(3,4) by metis
    moreover have "f \<in> set (idle_flows i cutoff s) \<longleftrightarrow> k = i \<and> fl_last (ud_heap s ! f) < cutoff"
      if here: "map_of (pt_flows (ud_ports s ! k)) ck = Some f"
    proof -
      have "(\<exists>ck. map_of (pt_flows (ud_ports s ! i)) ck = Some f) \<longleftrightarrow> k = i"
        using table_entry [OF acc assms(2), of _ f] table_entry [OF acc \<open>k < n\<close>, of ck f] here by metis
      then show ?thesis unfolding idle by simp
    qed
    ultimately show ?thesis by blast
  qed
  have "map_of (pt_flows (ud_ports ?t ! j)) ck =
       (case map_of (pt_flows (ud_ports s ! j)) ck of
          None \<Rightarrow> None
        | Some f \<Rightarrow> if j = i \<and> fl_last (ud_heap s ! f) < cutoff then None else Some f)"
  proof (cases "map_of (pt_flows (ud_ports s ! j)) ck")
    case None
    then have "map_of (pt_flows (ud_ports ?t ! j)) ck \<noteq> Some f" for f using left [OF assms(3), of ck f] by simp
    then have "map_of (pt_flows (ud_ports ?t ! j)) ck = None" by (rule not_Some_eq [THEN iffD1, OF allI])
    then show ?thesis using None by simp
  next
    case (Some f)
    have "map_of (pt_flows (ud_ports ?t ! j)) ck = Some g \<longleftrightarrow> f = g \<and> \<not> (j = i \<and> fl_last (ud_heap s ! g) < cutoff)" for g
      unfolding left [OF assms(3), of ck g] Some by simp
    then show ?thesis unfolding Some by (cases "map_of (pt_flows (ud_ports ?t ! j)) ck") (simp_all, metis)
  qed
  moreover have "u \<in> set (ud_open ?t) \<longleftrightarrow>
      (\<exists>k < n. \<exists>ck f. map_of (pt_flows (ud_ports ?t ! k)) ck = Some f \<and> fl_up (ud_heap s ! f) = Some u)"
  proof -
    have "u \<in> set (ud_open ?t) \<longleftrightarrow> (\<exists>f < length (ud_heap s). fl_up (ud_heap s ! f) = Some u \<and> in_table f ?t)"
      using t(2,3) by (simp add: sockets_def open_exact_def)
    moreover have "fl_port (ud_heap s ! f) < n" if "f < length (ud_heap s)" for f
      using so acc that by (simp add: sockets_def flows_wf_def accounting_def)
    ultimately show ?thesis using table_entry [OF t(1)] t(3) by metis
  qed
  ultimately show ?thesis using left by blast
qed

theorem udp_expiry_witness:
  "map_of (pt_flows (ud_ports (expire_port 0 6 demo_relay) ! 0)) ''203.0.113.7:40000'' = None
   \<and> map_of (pt_flows (ud_ports (expire_port 0 5 demo_relay) ! 0)) ''203.0.113.7:40000'' = Some 0"
proof -
  have s: "map_of (pt_flows (ud_ports demo_relay ! 0)) ''203.0.113.7:40000'' = Some 0" "fl_last (ud_heap demo_relay ! 0) = 5"
    by code_simp+
  show ?thesis
    using udp_expiry [OF demo_relay_reach, of 0 0 6 "''203.0.113.7:40000''"]
      udp_expiry [OF demo_relay_reach, of 0 0 5 "''203.0.113.7:40000''"] s by simp
qed

end
