(* ===== verification/Gateway.thy ===== *)
theory Gateway
  imports Api Config Udp_Flows
begin

text \<open>
  \<^verbatim>\<open>runGateway\<close> of \<^verbatim>\<open>cmd/vecta/main.go\<close>: from the decoded configuration to the components, and how they run
  together. \<open>start_gateway\<close> checks the configuration, builds the owners, their address policies and guard
  keys, opens the store and the pool of side ports and registers the static servers. \<open>gateway_step\<close> is
  what can happen to the state that the components share afterwards, in any order: an API request, the
  result of a health check, a sweep of the side ports, the pruning of the registry and the sessions'
  accesses to the store.

  The DNS, the address parsers, the listeners, SHA-256 and the content of the state file are parameters.
  The HTTP server, signals and logging are not modelled.

  The lemmas show that the invariants of all components hold in every reachable state, that no request can
  ever change or remove a static server, and that a backend of an owner is only ever dialed at addresses that
  this owner may use.
\<close>

section \<open>Configuration\<close>

record owner_conf =
  oc_token :: string
  oc_networks :: "string list"

record side_conf =
  sc_range :: string
  sc_listen :: string
  sc_public_host :: string
  sc_udp_idle :: duration
  sc_grace :: duration
  sc_max_flows :: int
  sc_port_flows :: int

record gateway_conf =
  gc_listen :: string
  gc_api_listen :: string
  gc_domain :: string
  gc_transfer_host :: string
  gc_transfer_port :: int
  gc_cookie_secret :: string
  gc_accept_proxy :: bool
  gc_registration_ttl :: duration
  gc_health_interval :: duration
  gc_auto_min_score :: int
  gc_auto_margin :: int
  gc_probe_window :: duration
  gc_pending_ttl :: duration
  gc_forge_query :: bool
  gc_motd :: string
  gc_data_file :: string
  gc_sticky_ttl :: duration
  gc_personalized :: bool
  gc_rate :: rat
  gc_burst :: int
  gc_max_connections :: int
  gc_max_lobby :: "int option"
  gc_networks :: "string list"
  gc_loopback :: bool
  gc_metrics_token :: string
  gc_side_ports :: side_conf
  gc_owners :: "(string \<times> owner_conf) list"
  gc_servers :: "server list"

datatype conf_error =
    CF_reserved | CF_networks string | CF_no_token string | CF_owner_networks string string
  | CF_data_file string | CF_side_ports string | CF_public_host | CF_static string reg_err

record started_gateway =
  gw_listen :: string
  gw_api_listen :: string
  gw_policies :: "(string \<times> policy) list"
  gw_default :: policy
  gw_guard_keys :: "(string \<times> byte list) list"
  gw_opts :: api_options
  gw_router :: router_config
  gw_limiter :: limiter
  gw_lobby_slots :: semaphore
  gw_side_listen :: string
  gw_flow_limits :: udp_limits
  gw_health_interval :: duration
  gw_state :: api_state

text \<open>The loop over the owners.\<close>

fun load_owners ::
  "(string \<Rightarrow> prefix option) \<Rightarrow> (string \<Rightarrow> netip option) \<Rightarrow> policy \<Rightarrow> (string \<times> owner_conf) list
    \<Rightarrow> conf_error + (string \<times> owner_account) list" where
  "load_owners pp pa def [] = Inr []"
| "load_owners pp pa def ((name, oc) # os) =
     (if oc_token oc = [] then Inl (CF_no_token name)
      else sum_bind
        (if oc_networks oc = [] then Inr def
         else case parse_prefixes pp pa (oc_networks oc) of
                Inl e \<Rightarrow> Inl (CF_owner_networks name e)
              | Inr nets \<Rightarrow> Inr (def\<lparr>po_allowed := nets\<rparr>))
        (\<lambda>policy. sum_bind (load_owners pp pa def os)
          (\<lambda>rest. Inr ((name, \<lparr>ow_token = oc_token oc, ow_policy = policy\<rparr>) # rest))))"

text \<open>The loop over the static servers. A call of the manager that would panic is \<open>None\<close>.\<close>

fun add_static ::
  "(string \<Rightarrow> int \<Rightarrow> bool) \<Rightarrow> time \<Rightarrow> server list \<Rightarrow> registry \<Rightarrow> manager \<Rightarrow> (conf_error + registry \<times> manager) option" where
  "add_static os now [] reg m = Some (Inr (reg, m))"
| "add_static os now (s # ss) reg m =
     (case upsert ''static'' s 0 now reg of
        Inl e \<Rightarrow> Some (Inl (CF_static (sv_id s) e))
      | Inr (srv, reg) \<Rightarrow>
          (case mg_sync os now srv m of
             None \<Rightarrow> None
           | Some (out, m) \<Rightarrow> add_static os now ss (set_side_ports (sv_id srv) out reg) m))"

definition router_conf :: "byte list \<Rightarrow> gateway_conf \<Rightarrow> router_config" where
  "router_conf random cfg = new_config
     \<lparr>rc_domain = gc_domain cfg, rc_transfer_host = gc_transfer_host cfg, rc_transfer_port = gc_transfer_port cfg,
      rc_cookie_secret = (if gc_cookie_secret cfg = [] then random else bytes (gc_cookie_secret cfg)),
      rc_accept_proxy = gc_accept_proxy cfg, rc_auto_min_score = gc_auto_min_score cfg,
      rc_auto_margin = gc_auto_margin cfg, rc_probe_window = gc_probe_window cfg, rc_pending_ttl = gc_pending_ttl cfg,
      rc_forge_query = gc_forge_query cfg, rc_motd = gc_motd cfg, rc_sticky_ttl = gc_sticky_ttl cfg,
      rc_personalized = gc_personalized cfg\<rparr>"

definition data_path :: "string \<Rightarrow> string" where
  "data_path f = (if f = [] then ''vecta-state.json'' else if f = ''-'' then [] else f)"

definition public_host :: "gateway_conf \<Rightarrow> string" where
  "public_host cfg =
     (if sc_public_host (gc_side_ports cfg) = [] then gc_domain cfg else sc_public_host (gc_side_ports cfg))"

text \<open>\<^verbatim>\<open>runGateway\<close> up to serving; \<open>file\<close> is what reading and decoding the state file gives.\<close>

definition start_gateway ::
  "(string \<Rightarrow> prefix option) \<Rightarrow> (string \<Rightarrow> netip option) \<Rightarrow> (byte list \<Rightarrow> byte list) \<Rightarrow> (string \<Rightarrow> int \<Rightarrow> bool)
    \<Rightarrow> byte list \<Rightarrow> (string \<Rightarrow> string + kv_data option) \<Rightarrow> time \<Rightarrow> gateway_conf \<Rightarrow> (conf_error + started_gateway) option" where
  "start_gateway pp pa sha os random file now cfg =
     (if ''static'' \<in> fst ` set (gc_owners cfg) then Some (Inl CF_reserved)
      else case parse_prefixes pp pa (gc_networks cfg) of
        Inl e \<Rightarrow> Some (Inl (CF_networks e))
      | Inr nets \<Rightarrow>
      (let def = \<lparr>po_allowed = nets, po_loopback = gc_loopback cfg\<rparr> in
      case load_owners pp pa def (gc_owners cfg) of
        Inl e \<Rightarrow> Some (Inl e)
      | Inr owners \<Rightarrow>
      (case (if data_path (gc_data_file cfg) = [] then Inr None else file (data_path (gc_data_file cfg))) of
        Inl e \<Rightarrow> Some (Inl (CF_data_file e))
      | Inr content \<Rightarrow>
      (case port_range (sc_range (gc_side_ports cfg)) of
        Inl e \<Rightarrow> Some (Inl (CF_side_ports e))
      | Inr (lo, hi) \<Rightarrow>
          if hi > 0 \<and> public_host cfg = [] then Some (Inl CF_public_host)
          else case add_static os now (gc_servers cfg) new_registry
                   (new_manager (public_host cfg) lo hi (sc_grace (gc_side_ports cfg))) of
            None \<Rightarrow> None
          | Some (Inl e) \<Rightarrow> Some (Inl e)
          | Some (Inr (reg, m)) \<Rightarrow> Some (Inr
              \<lparr>gw_listen = (if gc_listen cfg = [] then '':25565'' else gc_listen cfg),
               gw_api_listen = (if gc_api_listen cfg = [] then '':8080'' else gc_api_listen cfg),
               gw_policies = map (\<lambda>(name, ow). (name, ow_policy ow)) owners, gw_default = def,
               gw_guard_keys = map (\<lambda>(name, oc). (name, guard_key sha (oc_token oc))) (gc_owners cfg),
               gw_opts = \<lparr>ao_owners = owners, ao_ttl = or_default (gc_registration_ttl cfg) 45000000000,
                          ao_domain = gc_domain cfg, ao_tickets = Some (router_conf random cfg),
                          ao_metrics_token = gc_metrics_token cfg\<rparr>,
               gw_router = router_conf random cfg,
               gw_limiter = new_limiter (gc_rate cfg) (gc_burst cfg) (gc_max_connections cfg),
               gw_lobby_slots = new_semaphore (case gc_max_lobby cfg of None \<Rightarrow> 500 | Some n \<Rightarrow> n),
               gw_side_listen = sc_listen (gc_side_ports cfg),
               gw_flow_limits = new_limits \<lparr>MaxUDPFlows = sc_max_flows (gc_side_ports cfg),
                 MaxFlowsPerPort = sc_port_flows (gc_side_ports cfg), UDPIdle = sc_udp_idle (gc_side_ports cfg)\<rparr>,
               gw_health_interval = or_default (gc_health_interval cfg) 10000000000,
               gw_state = \<lparr>as_reg = reg, as_manager = Some m,
                           as_store = store_open now (data_path (gc_data_file cfg)) content,
                           as_broker = new_broker\<rparr>\<rparr>)))))"

section \<open>Backends\<close>

definition policy_for :: "started_gateway \<Rightarrow> server \<Rightarrow> policy" where
  "policy_for gw s = (case map_of (gw_policies gw) (sv_owner s) of Some p \<Rightarrow> p | None \<Rightarrow> gw_default gw)"

text \<open>\<^verbatim>\<open>dialBackend\<close>: a static server is dialed directly (\<open>direct\<close>), any other through its owner's policy. The
  first component are the addresses tried under a policy.\<close>

definition dial_backend ::
  "(string \<Rightarrow> netip option) \<Rightarrow> (string \<Rightarrow> string + netip list) \<Rightarrow> (addr_port \<Rightarrow> 'e + 'c) \<Rightarrow> (string \<Rightarrow> 'e + 'c)
    \<Rightarrow> started_gateway \<Rightarrow> server \<Rightarrow> string \<Rightarrow> addr_port list \<times> (resolve_error + ('e option + 'c))" where
  "dial_backend pa dns dial direct gw s address =
     (if sv_static s then ([], Inr (map_sum Some id (direct address)))
      else dial_context pa dns dial (policy_for gw s) address)"

definition backend_key :: "(byte list \<Rightarrow> byte list) \<Rightarrow> started_gateway \<Rightarrow> server \<Rightarrow> byte list option" where
  "backend_key sha gw s =
     (if sv_static s then (if sv_guard_secret s = [] then None else Some (guard_key sha (sv_guard_secret s)))
      else map_of (gw_guard_keys gw) (sv_owner s))"

section \<open>Running\<close>

text \<open>Everything that changes the shared state, one step at a time.\<close>

inductive gateway_step :: "started_gateway \<Rightarrow> api_state \<Rightarrow> api_state \<Rightarrow> bool" for gw :: started_gateway where
  request: "decoded rq \<Longrightarrow> api_step hmac pa dns os (gw_opts gw) now auth rq st = Some (r, st') \<Longrightarrow> gateway_step gw st st'"
| health: "gateway_step gw st (st\<lparr>as_reg := set_health i address h now (as_reg st)\<rparr>)"
| prune: "gateway_step gw st (st\<lparr>as_reg := reg_prune now (as_reg st)\<rparr>)"
| sweep: "as_manager st = Some m \<Longrightarrow>
    gateway_step gw st (st\<lparr>as_manager := Some (mg_sweep now (Some (reg_get now (as_reg st))) m)\<rparr>)"
| session: "gateway_step gw st (st\<lparr>as_store := store_step now op (as_store st)\<rparr>)"

inductive gateway_reach :: "started_gateway \<Rightarrow> api_state \<Rightarrow> bool" for gw :: started_gateway where
  start: "gateway_reach gw (gw_state gw)"
| step: "gateway_reach gw st \<Longrightarrow> gateway_step gw st st' \<Longrightarrow> gateway_reach gw st'"

section \<open>Requests as registry operations\<close>

lemma find_owner_listed: "find_owner token os = Some (name, ow) \<Longrightarrow> (name, ow) \<in> set os"
  by (induction token os rule: find_owner.induct) (auto split: if_splits)

lemma api_owner_listed: "api_owner opts auth = Some (name, ow) \<Longrightarrow> name \<in> fst ` set (ao_owners opts)"
  by (auto simp: api_owner_def Let_def dest!: find_owner_listed split: if_splits intro: rev_image_eqI)

text \<open>What a sequence of operations does that no one called \<open>name\<close> takes part in.\<close>

definition reg_foreign :: "string \<Rightarrow> registry \<Rightarrow> registry \<Rightarrow> bool" where
  "reg_foreign name reg reg' \<longleftrightarrow> (\<exists>ops. reg' = reg_run ops reg \<and> (\<forall>(t, op) \<in> set ops. \<not> by_owner name op))"

lemma reg_foreign_refl: "reg_foreign name reg reg"
  unfolding reg_foreign_def by (rule exI [of _ "[]"]) simp

lemma reg_foreign_op: "\<not> by_owner name op \<Longrightarrow> reg_foreign name reg (reg_step t op reg)"
  unfolding reg_foreign_def by (rule exI [of _ "[(t, op)]"]) simp

lemma reg_foreign_trans: "reg_foreign name a b \<Longrightarrow> reg_foreign name b c \<Longrightarrow> reg_foreign name a c"
  unfolding reg_foreign_def by (elim exE conjE, rule exI [of _ "_ @ _"]) (auto simp: reg_run_append)

lemma upsert_op:
  "upsert o' s ttl now reg = Inr (srv, reg') \<Longrightarrow> name \<noteq> o' \<Longrightarrow> reg_foreign name reg reg'"
  using reg_foreign_op [of name "Op_upsert o' s ttl" reg now] by simp

lemma request_foreign:
  assumes "name \<notin> fst ` set (ao_owners opts)" and "api_step hmac pa dns os opts now auth rq st = Some (r, st')"
  shows "reg_foreign name (as_reg st) (as_reg st')"
proof -
  have other: "name \<noteq> n" if "api_owner opts auth = Some (n, ow)" for n ow
    using api_owner_listed [OF that] assms(1) by blast
  show ?thesis
  proof (cases rq)
    case (Q_register j body)
    then have "api_register pa dns os opts now auth j body st = Some (r, st')" using assms(2) by simp
    then show ?thesis
    proof (cases rule: api_register_cases)
      case 1
      then show ?thesis by (simp add: reg_foreign_refl)
    next
      case (2 n ow s v reg checks)
      then show ?thesis using upsert_op [OF 2(4) other] by simp
    next
      case (3 n ow s v reg checks m out m')
      have "reg_foreign name reg (set_side_ports (sv_id v) out reg)"
        using reg_foreign_op [of name "Op_side_ports (sv_id v) out" reg now] by simp
      then show ?thesis using reg_foreign_trans [OF upsert_op [OF 3(4) other]] 3 by simp
    qed
  next
    case (Q_unregister j)
    then have "api_unregister opts now auth j st = (r, st')" using assms(2) by simp
    then show ?thesis
    proof (cases rule: api_unregister_cases)
      case 1
      then show ?thesis by (simp add: reg_foreign_refl)
    next
      case (2 n ow reg)
      then show ?thesis using reg_foreign_op [of name "Op_remove n (to_lower j)" "as_reg st" now] other by simp
    qed
  next
    case (Q_ticket j body)
    then have "api_ticket hmac opts now auth j body st = (r, st')" using assms(2) by simp
    then show ?thesis by (cases rule: api_ticket_cases) (simp_all add: reg_foreign_refl)
  next
    case (Q_post j body)
    then have "api_post_global opts now auth j body st = (r, st')" using assms(2) by simp
    then show ?thesis by (cases rule: api_post_cases) (simp_all add: reg_foreign_refl)
  qed (use assms(2) in \<open>simp_all add: reg_foreign_refl\<close>)
qed

section \<open>The start\<close>

text \<open>An entry of a configured server.\<close>

definition static_of :: "server list \<Rightarrow> string \<times> server \<Rightarrow> bool" where
  "static_of ss e \<longleftrightarrow> sv_static (snd e) \<and> sv_owner (snd e) = ''static''
     \<and> (\<exists>s \<in> set ss. to_lower (trim_space (sv_id s)) = fst e \<and> sv_address s = sv_address (snd e))"

lemma set_side_ports_static:
  assumes "list_all (static_of ss) r"
  shows "list_all (static_of ss) (set_side_ports i ports r)"
proof (cases "map_of r i")
  case (Some s)
  then have "static_of ss (i, s)" using map_of_list_all [OF assms] by simp
  then have "static_of ss (i, s\<lparr>sv_side_ports := ports\<rparr>)" by (simp add: static_of_def)
  then show ?thesis using assms Some by (simp add: set_side_ports_def list_all_update)
qed (use assms in \<open>simp add: set_side_ports_def\<close>)

lemma set_side_ports_dom: "fst ` set (set_side_ports i ports r) = fst ` set r"
proof (cases "map_of r i")
  case (Some s)
  then have "i \<in> fst ` set r" by (force dest: map_of_SomeD)
  then show ?thesis using Some dom_update [of i "s\<lparr>sv_side_ports := ports\<rparr>" r] by (auto simp: set_side_ports_def)
qed (simp add: set_side_ports_def)

lemma upsert_static:
  assumes "upsert ''static'' s 0 now r = Inr (srv, r')" and "list_all (static_of ss) r" and "s \<in> set ss"
  shows "list_all (static_of ss) r'" "fst ` set r' = insert (to_lower (trim_space (sv_id s))) (fst ` set r)" "valid_server srv"
proof -
  obtain v where v: "validate s = Inr v" "srv = stored ''static'' 0 now (map_of r (sv_id v)) v" "r' = AList.update (sv_id v) srv r"
    using assms(1) by (auto simp: upsert_eq_Inr)
  have i: "sv_id v = to_lower (trim_space (sv_id s))" "sv_address v = sv_address s"
    using v(1) by (auto simp: validate_eq_Inr normalised_def)
  have "static_of ss (sv_id v, srv)" using i assms(3) by (auto simp: static_of_def v(2))
  then show "list_all (static_of ss) r'" using assms(2) by (simp add: v(3) list_all_update)
  show "fst ` set r' = insert (to_lower (trim_space (sv_id s))) (fst ` set r)"
    using dom_update [of "sv_id v" srv r] i(1) by (simp add: v(3))
  show "valid_server srv" by (rule upsert_valid [OF assms(1)])
qed

lemma add_static_spec:
  assumes "reg_inv reg" and "mg_inv m" and "list_all (static_of all) reg" and "set ss \<subseteq> set all"
  shows "\<exists>res. add_static os now ss reg m = Some res
    \<and> (\<forall>reg' m'. res = Inr (reg', m') \<longrightarrow> reg_inv reg' \<and> mg_inv m' \<and> list_all (static_of all) reg'
        \<and> fst ` set reg \<subseteq> fst ` set reg' \<and> (\<forall>s \<in> set ss. to_lower (trim_space (sv_id s)) \<in> fst ` set reg'))"
  using assms
proof (induction ss arbitrary: reg m)
  case (Cons s ss)
  show ?case
  proof (cases "upsert ''static'' s 0 now reg")
    case (Inl e)
    then show ?thesis by simp
  next
    case (Inr p)
    then obtain srv reg1 where u: "upsert ''static'' s 0 now reg = Inr (srv, reg1)" by (cases p) auto
    note us = upsert_static [OF u Cons.prems(3)]
    have mem: "s \<in> set all" using Cons.prems(4) by simp
    obtain out m1 where sy: "mg_sync os now srv m = Some (out, m1)" using mg_sync_some [OF us(3) [OF mem]] by blast
    let ?reg = "set_side_ports (sv_id srv) out reg1"
    have "reg_inv ?reg" using upsert_inv [OF Cons.prems(1) u] by (rule set_side_ports_inv)
    moreover have "mg_inv m1" by (rule mg_sync_inv [OF Cons.prems(2) us(3) [OF mem] sy])
    moreover have "list_all (static_of all) ?reg" by (rule set_side_ports_static [OF us(1) [OF mem]])
    moreover have "set ss \<subseteq> set all" using Cons.prems(4) by simp
    ultimately obtain res where res: "add_static os now ss ?reg m1 = Some res"
      "\<And>reg' m'. res = Inr (reg', m') \<Longrightarrow> reg_inv reg' \<and> mg_inv m' \<and> list_all (static_of all) reg'
        \<and> fst ` set ?reg \<subseteq> fst ` set reg' \<and> (\<forall>s \<in> set ss. to_lower (trim_space (sv_id s)) \<in> fst ` set reg')"
      using Cons.IH by blast
    moreover have "fst ` set ?reg = insert (to_lower (trim_space (sv_id s))) (fst ` set reg)"
      using us(2) [OF mem] by (simp add: set_side_ports_dom)
    ultimately show ?thesis using u sy by auto
  qed
qed simp

lemma load_owners_names: "load_owners pp pa def os = Inr owners \<Longrightarrow> map fst owners = map fst os"
  by (induction pp pa def os arbitrary: owners rule: load_owners.induct) (auto simp: sum_bind_eq_Inr split: if_splits)

text \<open>The state file decodes to maps without duplicate keys.\<close>

definition file_ok :: "(string \<Rightarrow> string + kv_data option) \<Rightarrow> bool" where
  "file_ok file \<longleftrightarrow> (\<forall>path d. file path = Inr (Some d) \<longrightarrow> kv_inv \<lparr>st_path = path, st_data = d, st_dirty = False\<rparr>)"

lemma store_open_inv:
  "(\<And>d. content = Some d \<Longrightarrow> kv_inv \<lparr>st_path = path, st_data = d, st_dirty = False\<rparr>) \<Longrightarrow> kv_inv (store_open now path content)"
  by (auto simp: store_open_def Let_def kv_inv_def split: option.splits intro!: store_prune_inv [unfolded kv_inv_def])

text \<open>What a successful start leaves.\<close>

lemma start_gateway_Inr:
  assumes "start_gateway pp pa sha os random file now cfg = Some (Inr gw)"
  obtains nets owners content lo hi reg m where "''static'' \<notin> fst ` set (gc_owners cfg)"
    "parse_prefixes pp pa (gc_networks cfg) = Inr nets" "gw_default gw = \<lparr>po_allowed = nets, po_loopback = gc_loopback cfg\<rparr>"
    "load_owners pp pa (gw_default gw) (gc_owners cfg) = Inr owners"
    "gw_policies gw = map (\<lambda>(name, ow). (name, ow_policy ow)) owners" "ao_owners (gw_opts gw) = owners"
    "content = None \<or> file (data_path (gc_data_file cfg)) = Inr content"
    "add_static os now (gc_servers cfg) new_registry (new_manager (public_host cfg) lo hi (sc_grace (gc_side_ports cfg))) = Some (Inr (reg, m))"
    "gw_state gw = \<lparr>as_reg = reg, as_manager = Some m,
       as_store = store_open now (data_path (gc_data_file cfg)) content, as_broker = new_broker\<rparr>"
    "ao_ttl (gw_opts gw) = or_default (gc_registration_ttl cfg) 45000000000" "ao_tickets (gw_opts gw) = Some (gw_router gw)"
    "gw_limiter gw = new_limiter (gc_rate cfg) (gc_burst cfg) (gc_max_connections cfg)"
    "gw_lobby_slots gw = new_semaphore (case gc_max_lobby cfg of None \<Rightarrow> 500 | Some n \<Rightarrow> n)"
proof -
  have 1: "''static'' \<notin> fst ` set (gc_owners cfg)" using assms by (cases "''static'' \<in> fst ` set (gc_owners cfg)") (simp_all add: start_gateway_def)
  then obtain nets where 2: "parse_prefixes pp pa (gc_networks cfg) = Inr nets"
    using assms by (cases "parse_prefixes pp pa (gc_networks cfg)") (simp_all add: start_gateway_def)
  define def where "def = \<lparr>po_allowed = nets, po_loopback = gc_loopback cfg\<rparr>"
  obtain owners where 3: "load_owners pp pa def (gc_owners cfg) = Inr owners"
    using assms 1 2 by (cases "load_owners pp pa def (gc_owners cfg)") (simp_all add: start_gateway_def Let_def def_def)
  obtain content where 4: "(if data_path (gc_data_file cfg) = [] then Inr None else file (data_path (gc_data_file cfg))) = Inr content"
    using assms 1 2 3
    by (cases "(if data_path (gc_data_file cfg) = [] then Inr None else file (data_path (gc_data_file cfg)))")
      (simp_all only: start_gateway_def Let_def def_def [symmetric] if_False sum.case option.inject sum.distinct)
  obtain lo hi where 5: "port_range (sc_range (gc_side_ports cfg)) = Inr (lo, hi)"
    using assms 1 2 3 4
    by (cases "port_range (sc_range (gc_side_ports cfg))")
      (auto simp only: start_gateway_def Let_def def_def [symmetric] if_False sum.case option.inject sum.distinct)
  let ?add = "add_static os now (gc_servers cfg) new_registry (new_manager (public_host cfg) lo hi (sc_grace (gc_side_ports cfg)))"
  have 6: "(if hi > 0 \<and> public_host cfg = [] then Some (Inl CF_public_host)
          else case ?add of
            None \<Rightarrow> None
          | Some (Inl e) \<Rightarrow> Some (Inl e)
          | Some (Inr (reg, m)) \<Rightarrow> Some (Inr
              \<lparr>gw_listen = (if gc_listen cfg = [] then '':25565'' else gc_listen cfg),
               gw_api_listen = (if gc_api_listen cfg = [] then '':8080'' else gc_api_listen cfg),
               gw_policies = map (\<lambda>(name, ow). (name, ow_policy ow)) owners, gw_default = def,
               gw_guard_keys = map (\<lambda>(name, oc). (name, guard_key sha (oc_token oc))) (gc_owners cfg),
               gw_opts = \<lparr>ao_owners = owners, ao_ttl = or_default (gc_registration_ttl cfg) 45000000000,
                          ao_domain = gc_domain cfg, ao_tickets = Some (router_conf random cfg),
                          ao_metrics_token = gc_metrics_token cfg\<rparr>,
               gw_router = router_conf random cfg,
               gw_limiter = new_limiter (gc_rate cfg) (gc_burst cfg) (gc_max_connections cfg),
               gw_lobby_slots = new_semaphore (case gc_max_lobby cfg of None \<Rightarrow> 500 | Some n \<Rightarrow> n),
               gw_side_listen = sc_listen (gc_side_ports cfg),
               gw_flow_limits = new_limits \<lparr>MaxUDPFlows = sc_max_flows (gc_side_ports cfg),
                 MaxFlowsPerPort = sc_port_flows (gc_side_ports cfg), UDPIdle = sc_udp_idle (gc_side_ports cfg)\<rparr>,
               gw_health_interval = or_default (gc_health_interval cfg) 10000000000,
               gw_state = \<lparr>as_reg = reg, as_manager = Some m,
                           as_store = store_open now (data_path (gc_data_file cfg)) content,
                           as_broker = new_broker\<rparr>\<rparr>)) = Some (Inr gw)"
    using assms 1 2 3 4 5
    by (simp only: start_gateway_def Let_def def_def [symmetric] if_False sum.case prod.case)
  then obtain reg m where 7: "?add = Some (Inr (reg, m))"
    by (cases ?add) (auto split: if_splits sum.splits)
  show thesis
    by (rule that [of nets owners content lo hi reg m]) (use 1 2 3 4 6 7 in \<open>auto simp: def_def split: if_splits\<close>)
qed

lemma start_spec:
  assumes "start_gateway pp pa sha os random file now cfg = Some (Inr gw)" and "file_ok file"
  shows "api_inv (gw_state gw)" "list_all (static_of (gc_servers cfg)) (as_reg (gw_state gw))"
    "s \<in> set (gc_servers cfg) \<Longrightarrow> to_lower (trim_space (sv_id s)) \<in> fst ` set (as_reg (gw_state gw))"
    "''static'' \<notin> fst ` set (ao_owners (gw_opts gw))"
proof -
  obtain nets owners content lo hi reg m where g: "''static'' \<notin> fst ` set (gc_owners cfg)"
    "load_owners pp pa (gw_default gw) (gc_owners cfg) = Inr owners" "ao_owners (gw_opts gw) = owners"
    "content = None \<or> file (data_path (gc_data_file cfg)) = Inr content"
    "add_static os now (gc_servers cfg) new_registry (new_manager (public_host cfg) lo hi (sc_grace (gc_side_ports cfg))) = Some (Inr (reg, m))"
    "gw_state gw = \<lparr>as_reg = reg, as_manager = Some m,
       as_store = store_open now (data_path (gc_data_file cfg)) content, as_broker = new_broker\<rparr>"
    using start_gateway_Inr [OF assms(1)] by metis
  have "list_all (static_of (gc_servers cfg)) new_registry" "reg_inv new_registry"
    using reg_inv_new by (simp_all add: new_registry_def)
  then have a: "reg_inv reg" "mg_inv m" "list_all (static_of (gc_servers cfg)) reg"
    "\<forall>s \<in> set (gc_servers cfg). to_lower (trim_space (sv_id s)) \<in> fst ` set reg"
    using add_static_spec [OF _ new_manager_inv _ subset_refl, of new_registry "gc_servers cfg" os now
        "public_host cfg" lo hi "sc_grace (gc_side_ports cfg)"] g(5) by simp_all
  have "kv_inv (store_open now (data_path (gc_data_file cfg)) content)"
    using g(4) assms(2) by (intro store_open_inv) (auto simp: file_ok_def)
  moreover have "broker_ok new_broker []" by (simp add: broker_ok_def new_broker_def numbered_def last_n_def)
  ultimately show "api_inv (gw_state gw)" using a g(6) by (auto simp: api_inv_def new_broker_def)
  show "list_all (static_of (gc_servers cfg)) (as_reg (gw_state gw))"
    "s \<in> set (gc_servers cfg) \<Longrightarrow> to_lower (trim_space (sv_id s)) \<in> fst ` set (as_reg (gw_state gw))"
    using a g(6) by simp_all
  show "''static'' \<notin> fst ` set (ao_owners (gw_opts gw))"
    using g(1,3) load_owners_names [OF g(2)] by (metis image_set)
qed

lemma start_options:
  assumes "start_gateway pp pa sha os random file now cfg = Some (Inr gw)"
  shows "0 < ao_ttl (gw_opts gw)" "ao_tickets (gw_opts gw) = Some (gw_router gw)"
proof -
  have "ao_ttl (gw_opts gw) = or_default (gc_registration_ttl cfg) 45000000000 \<and> ao_tickets (gw_opts gw) = Some (gw_router gw)"
    using start_gateway_Inr [OF assms] by metis
  then show "0 < ao_ttl (gw_opts gw)" "ao_tickets (gw_opts gw) = Some (gw_router gw)" by (simp_all add: or_default_def)
qed

lemma start_limits:
  assumes "start_gateway pp pa sha os random file now cfg = Some (Inr gw)"
  shows "gw_limiter gw = new_limiter (gc_rate cfg) (gc_burst cfg) (gc_max_connections cfg)"
    "gw_lobby_slots gw = new_semaphore (case gc_max_lobby cfg of None \<Rightarrow> 500 | Some n \<Rightarrow> n)"
  by (rule start_gateway_Inr [OF assms], assumption)+

section \<open>Reachable states\<close>

lemma gateway_step_inv: "gateway_step gw st st' \<Longrightarrow> api_inv st \<Longrightarrow> api_inv st'"
proof (induction rule: gateway_step.induct)
  case (request rq hmac pa dns os now auth st r st')
  then show ?case using api_invariant_step by blast
next
  case (sweep st m now)
  then show ?case using mg_sweep_inv by (auto simp: api_inv_def)
next
  case (session st now op)
  then show ?case
    by (cases op) (auto simp: api_inv_def store_set_inv store_get_inv store_delete_inv store_prune_inv)
qed (auto simp: api_inv_def set_health_inv reg_prune_inv)

lemma gateway_reach_inv: "gateway_reach gw st \<Longrightarrow> api_inv (gw_state gw) \<Longrightarrow> api_inv st"
  by (induction rule: gateway_reach.induct) (auto intro: gateway_step_inv)

lemma gateway_step_foreign:
  assumes "gateway_step gw st st'" and "name \<notin> fst ` set (ao_owners (gw_opts gw))"
  shows "reg_foreign name (as_reg st) (as_reg st')"
  using assms(1)
proof cases
  case request
  then show ?thesis using request_foreign [OF assms(2)] by blast
next
  case (health i address h now)
  then show ?thesis using reg_foreign_op [of name "Op_health i address h" "as_reg st" now] by simp
next
  case (prune now)
  then show ?thesis using reg_foreign_op [of name Op_prune "as_reg st" now] by simp
qed (simp_all add: reg_foreign_refl)

lemma gateway_reach_foreign:
  assumes "gateway_reach gw st" and "name \<notin> fst ` set (ao_owners (gw_opts gw))"
  shows "reg_foreign name (as_reg (gw_state gw)) (as_reg st)"
  using assms(1) by induction (auto intro: reg_foreign_refl reg_foreign_trans gateway_step_foreign [OF _ assms(2)])

section \<open>Properties\<close>



text \<open>The networks that the configuration allows an owner's servers to be in.\<close>

definition owner_networks :: "gateway_conf \<Rightarrow> string \<Rightarrow> string list" where
  "owner_networks cfg owner =
     (case map_of (gc_owners cfg) owner of
        None \<Rightarrow> gc_networks cfg
      | Some oc \<Rightarrow> if oc_networks oc = [] then gc_networks cfg else oc_networks oc)"

lemma load_owners_policy:
  assumes "load_owners pp pa def os = Inr owners" and "distinct (map fst os)"
  shows "map_of (map (\<lambda>(name, ow). (name, ow_policy ow)) owners) owner =
    (case map_of os owner of
       None \<Rightarrow> None
     | Some oc \<Rightarrow> Some (if oc_networks oc = [] then def
                  else def\<lparr>po_allowed := (case parse_prefixes pp pa (oc_networks oc) of Inr nets \<Rightarrow> nets | Inl e \<Rightarrow> [])\<rparr>))"
  using assms
  by (induction pp pa def os arbitrary: owners rule: load_owners.induct)
    (auto simp: sum_bind_eq_Inr split: if_splits sum.splits)

lemma load_owners_parsed:
  "load_owners pp pa def os = Inr owners \<Longrightarrow> (name, oc) \<in> set os \<Longrightarrow> oc_networks oc \<noteq> [] \<Longrightarrow>
     \<exists>nets. parse_prefixes pp pa (oc_networks oc) = Inr nets"
  by (induction pp pa def os arbitrary: owners rule: load_owners.induct)
    (auto simp: sum_bind_eq_Inr split: if_splits sum.splits)

lemma start_policy:
  assumes "start_gateway pp pa sha os random file now cfg = Some (Inr gw)" and "distinct (map fst (gc_owners cfg))"
  shows "\<exists>nets. parse_prefixes pp pa (owner_networks cfg (sv_owner s)) = Inr nets
    \<and> policy_for gw s = \<lparr>po_allowed = nets, po_loopback = gc_loopback cfg\<rparr>"
proof -
  obtain nets owners where g: "parse_prefixes pp pa (gc_networks cfg) = Inr nets"
    "gw_default gw = \<lparr>po_allowed = nets, po_loopback = gc_loopback cfg\<rparr>"
    "load_owners pp pa (gw_default gw) (gc_owners cfg) = Inr owners"
    "gw_policies gw = map (\<lambda>(name, ow). (name, ow_policy ow)) owners"
    using start_gateway_Inr [OF assms(1)] by metis
  note p = load_owners_policy [OF g(3) assms(2), of "sv_owner s"]
  show ?thesis
  proof (cases "map_of (gc_owners cfg) (sv_owner s)")
    case None
    then show ?thesis using g p by (simp add: policy_for_def owner_networks_def)
  next
    case (Some oc)
    show ?thesis
    proof (cases "oc_networks oc = []")
      case True
      then show ?thesis using g p Some by (simp add: policy_for_def owner_networks_def)
    next
      case False
      obtain ns where "parse_prefixes pp pa (oc_networks oc) = Inr ns"
        using load_owners_parsed [OF g(3) map_of_SomeD [OF Some] False] by blast
      then show ?thesis using g p Some False by (simp add: policy_for_def owner_networks_def)
    qed
  qed
qed

text \<open>C5: the gateway tries to reach a server that an owner registered only at addresses inside the networks that
  the configuration gives that owner (the global ones where it has none of its own), and at loopback addresses
  only if the configuration allows them; health checks, players and side ports all dial this way.\<close>

theorem backend_dials_admissible:
  assumes "start_gateway pp pa sha os random file now cfg = Some (Inr gw)" and "distinct (map fst (gc_owners cfg))"
    and "\<not> sv_static s" and "dial_backend parse dns dial direct gw s address = (tried, r)"
  shows "\<exists>nets. parse_prefixes pp pa (owner_networks cfg (sv_owner s)) = Inr nets
    \<and> (\<forall>a \<in> set tried. admissible \<lparr>po_allowed = nets, po_loopback = gc_loopback cfg\<rparr> (ap_addr a) \<and> 0 < ap_port a \<and> ap_port a < 65536)"
proof -
  obtain nets where n: "parse_prefixes pp pa (owner_networks cfg (sv_owner s)) = Inr nets"
    "policy_for gw s = \<lparr>po_allowed = nets, po_loopback = gc_loopback cfg\<rparr>"
    using start_policy [OF assms(1,2)] by blast
  have d: "dial_context parse dns dial (policy_for gw s) address = (tried, r)" using assms(3,4) by (simp add: dial_backend_def)
  have "\<forall>a \<in> set tried. admissible (policy_for gw s) (ap_addr a) \<and> 0 < ap_port a \<and> ap_port a < 65536"
    by (rule dial_context_tried [OF d])
  then show ?thesis using n by auto
qed

section \<open>Examples\<close>

definition demo_prefix :: "string \<Rightarrow> prefix option" where
  "demo_prefix s = (if s = ''10.0.0.0/8'' then Some \<lparr>pf_addr = addr_of [10, 0, 0, 0], pf_bits = 8\<rparr> else None)"

definition demo_conf :: gateway_conf where
  "demo_conf = \<lparr>gc_listen = [], gc_api_listen = [], gc_domain = ''play.example'', gc_transfer_host = [],
     gc_transfer_port = 0, gc_cookie_secret = [], gc_accept_proxy = False, gc_registration_ttl = 0,
     gc_health_interval = 0, gc_auto_min_score = 0, gc_auto_margin = 0, gc_probe_window = 0, gc_pending_ttl = 0,
     gc_forge_query = False, gc_motd = [], gc_data_file = ''-'', gc_sticky_ttl = 0, gc_personalized = False,
     gc_rate = 0, gc_burst = 0, gc_max_connections = 2, gc_max_lobby = None, gc_networks = [], gc_loopback = False, gc_metrics_token = [],
     gc_side_ports = \<lparr>sc_range = ''30000 - 30001'', sc_listen = [], sc_public_host = [], sc_udp_idle = 0, sc_grace = 0,
       sc_max_flows = 0, sc_port_flows = 0\<rparr>,
     gc_owners = [(''alice'', \<lparr>oc_token = ''s3cret'', oc_networks = [''10.0.0.0/8'']\<rparr>)],
     gc_servers = [demo_voice\<lparr>sv_id := '' Hub'', sv_address := ''127.0.0.1:25565''\<rparr>]\<rparr>"

definition demo_start :: "(conf_error + started_gateway) option" where
  "demo_start = start_gateway demo_prefix (\<lambda>_. None) (\<lambda>b. b) (\<lambda>_ _. True) [1, 2, 3] (\<lambda>_. Inr None) 7 demo_conf"

definition demo_gw :: started_gateway where
  "demo_gw = projr (the demo_start)"

lemma demo_started:
  "start_gateway demo_prefix (\<lambda>_. None) (\<lambda>b. b) (\<lambda>_ _. True) [1, 2, 3] (\<lambda>_. Inr None) 7 demo_conf = Some (Inr demo_gw)"
proof -
  have "case demo_start of Some (Inr _) \<Rightarrow> True | _ \<Rightarrow> False" by code_simp
  then show ?thesis by (auto simp: demo_gw_def demo_start_def split: option.splits sum.splits)
qed

lemma demo_file: "file_ok (\<lambda>_. Inr None)"
  by (simp add: file_ok_def)

text \<open>Alice tries to register a server under the id of the configured one.\<close>

definition demo_takeover :: "(api_reply \<times> api_state) option" where
  "demo_takeover = api_step toy_hmac demo_lookup demo_dns (\<lambda>_ _. True) (gw_opts demo_gw) 9 ''Bearer s3cret''
     (Q_register ''hub'' (Inr demo_body)) (gw_state demo_gw)"

lemma demo_refused:
  "api_step toy_hmac demo_lookup demo_dns (\<lambda>_ _. True) (gw_opts demo_gw) 9 ''Bearer s3cret''
     (Q_register ''hub'' (Inr demo_body)) (gw_state demo_gw)
   = Some (A_error 409 (AE_registry R_conflict), snd (the demo_takeover))"
proof -
  have "map_option fst demo_takeover = Some (A_error 409 (AE_registry R_conflict))" by code_simp
  then obtain st where t: "demo_takeover = Some (A_error 409 (AE_registry R_conflict), st)" by auto
  have "snd (the demo_takeover) = st" unfolding t by simp
  with t show ?thesis unfolding demo_takeover_def by metis
qed

lemma demo_takeover_reach: "gateway_reach demo_gw (snd (the demo_takeover))"
  by (rule gateway_reach.step [OF gateway_reach.start gateway_step.request [OF _ demo_refused]]) simp



theorem backend_dials_admissible_witness:
  "\<exists>nets. parse_prefixes demo_prefix (\<lambda>_. None) (owner_networks demo_conf ''alice'') = Inr nets
    \<and> admissible \<lparr>po_allowed = nets, po_loopback = gc_loopback demo_conf\<rparr> (addr_of [10, 0, 0, 5])"
proof -
  let ?s = "demo_body\<lparr>sv_owner := ''alice''\<rparr>"
  have d: "dial_backend demo_lookup demo_dns (\<lambda>_. Inr () :: unit + unit) (\<lambda>_. Inr ()) demo_gw ?s ''10.0.0.5:25565''
      = ([\<lparr>ap_addr = addr_of [10, 0, 0, 5], ap_port = 25565\<rparr>], Inr (Inr ()))" by code_simp
  have "distinct (map fst (gc_owners demo_conf))" "\<not> sv_static ?s" "sv_owner ?s = ''alice''" by code_simp+
  then show ?thesis using backend_dials_admissible [OF demo_started _ _ d] by fastforce
qed

end
