(* ===== verification/Metrics.thy ===== *)
theory Metrics
  imports Strs
begin

text \<open>
  \<^verbatim>\<open>internal/metrics/metrics.go\<close>: counters with labels and gauges in the Prometheus text format. The code
  shares a \<^verbatim>\<open>*CounterVec\<close> with its registry; here a handle is the index of the counter, and a nil
  pointer is \<open>None\<close>. The values are floats in the code; every value the gateway adds is a whole number,
  and below \<open>2 ^ 53\<close> their sums are exact, so they are integers here. Printing a number (\<^verbatim>\<open>%g\<close>) is the
  parameter \<open>fmt\<close>; a gauge is a function of the gateway's state \<open>'s\<close>.

  The lemmas show that a counter holds the sums of what was added under each label list, that label
  values are escaped so that a scraper reads them back, and both for a whole scrape.
\<close>

section \<open>Counters\<close>

record counter_vec =
  cv_name :: string
  cv_help :: string
  cv_labels :: "string list"
  cv_values :: "(string \<times> int) list"

record 's gauge =
  ga_name :: string
  ga_help :: string
  ga_fn :: "'s \<Rightarrow> int"

record 's metrics =
  me_counters :: "counter_vec list"
  me_gauges :: "'s gauge list"

definition new_metrics :: "'s metrics" where
  "new_metrics = \<lparr>me_counters = [], me_gauges = []\<rparr>"

definition new_counter :: "string \<Rightarrow> string \<Rightarrow> string list \<Rightarrow> counter_vec" where
  "new_counter name help labels = \<lparr>cv_name = name, cv_help = help, cv_labels = labels, cv_values = []\<rparr>"

definition metrics_counter :: "string \<Rightarrow> string \<Rightarrow> string list \<Rightarrow> 's metrics \<Rightarrow> nat option \<times> 's metrics" where
  "metrics_counter name help labels m =
     (Some (length (me_counters m)), m\<lparr>me_counters := me_counters m @ [new_counter name help labels]\<rparr>)"

definition gauge_func :: "string \<Rightarrow> string \<Rightarrow> ('s \<Rightarrow> int) \<Rightarrow> 's metrics \<Rightarrow> 's metrics" where
  "gauge_func name help fn m = m\<lparr>me_gauges := me_gauges m @ [\<lparr>ga_name = name, ga_help = help, ga_fn = fn\<rparr>]\<rparr>"

definition label_sep :: char where
  "label_sep = CHR 0xFF"

definition label_key :: "string list \<Rightarrow> string" where
  "label_key vals = join [label_sep] vals"

definition vec_value :: "string \<Rightarrow> counter_vec \<Rightarrow> int" where
  "vec_value key c = (case map_of (cv_values c) key of None \<Rightarrow> 0 | Some v \<Rightarrow> v)"

definition vec_add :: "int \<Rightarrow> string list \<Rightarrow> counter_vec \<Rightarrow> counter_vec" where
  "vec_add v vals c =
     (let key = label_key vals in c\<lparr>cv_values := AList.update key (vec_value key c + v) (cv_values c)\<rparr>)"

definition counter_add :: "nat option \<Rightarrow> int \<Rightarrow> string list \<Rightarrow> 's metrics \<Rightarrow> 's metrics" where
  "counter_add c v vals m =
     (case c of
        None \<Rightarrow> m
      | Some i \<Rightarrow> m\<lparr>me_counters := (me_counters m)[i := vec_add v vals (me_counters m ! i)]\<rparr>)"

definition counter_inc :: "nat option \<Rightarrow> string list \<Rightarrow> 's metrics \<Rightarrow> 's metrics" where
  "counter_inc c vals m = counter_add c 1 vals m"

definition counter_value :: "nat option \<Rightarrow> string list \<Rightarrow> 's metrics \<Rightarrow> int" where
  "counter_value c vals m =
     (case c of None \<Rightarrow> 0 | Some i \<Rightarrow> vec_value (label_key vals) (me_counters m ! i))"

section \<open>The text format\<close>

definition backslash :: char where
  "backslash = CHR 0x5C"

definition dquote :: char where
  "dquote = CHR 0x22"

definition line_feed :: char where
  "line_feed = CHR 0x0A"

definition escape_char :: "char \<Rightarrow> string" where
  "escape_char c =
     (if c = backslash then [backslash, backslash]
      else if c = dquote then [backslash, dquote]
      else if c = line_feed then [backslash, CHR ''n'']
      else [c])"

definition escape :: "string \<Rightarrow> string" where
  "escape v = concat (map escape_char v)"

fun label_parts :: "string list \<Rightarrow> string list \<Rightarrow> string list" where
  "label_parts [] vals = []"
| "label_parts (n # names) vals =
     (n @ [CHR ''='', dquote] @ escape (case vals of [] \<Rightarrow> [] | v # _ \<Rightarrow> v) @ [dquote])
     # label_parts names (case vals of [] \<Rightarrow> [] | _ # vs \<Rightarrow> vs)"

definition label_string :: "string list \<Rightarrow> string \<Rightarrow> string" where
  "label_string names key =
     (if names = [] then []
      else ''{'' @ join '','' (label_parts names (split label_sep key)) @ ''}'')"

definition series_line :: "(int \<Rightarrow> string) \<Rightarrow> counter_vec \<Rightarrow> string \<Rightarrow> string" where
  "series_line fmt c key = cv_name c @ label_string (cv_labels c) key @ '' '' @ fmt (vec_value key c)"

definition counter_lines :: "(int \<Rightarrow> string) \<Rightarrow> counter_vec \<Rightarrow> string list" where
  "counter_lines fmt c = map (series_line fmt c) (sort (map fst (cv_values c)))"

definition header_lines :: "string \<Rightarrow> string \<Rightarrow> string \<Rightarrow> string list" where
  "header_lines name help kind = [''# HELP '' @ name @ '' '' @ help, ''# TYPE '' @ name @ '' '' @ kind]"

definition metrics_write :: "(int \<Rightarrow> string) \<Rightarrow> 's \<Rightarrow> 's metrics \<Rightarrow> string" where
  "metrics_write fmt s m =
     concat (map (\<lambda>l. l @ [line_feed])
       (concat (map (\<lambda>c. header_lines (cv_name c) (cv_help c) ''counter'' @ counter_lines fmt c) (me_counters m))
        @ concat (map (\<lambda>g. header_lines (ga_name g) (ga_help g) ''gauge'' @ [ga_name g @ '' '' @ fmt (ga_fn g s)])
            (me_gauges m))))"

section \<open>A scraper\<close>

text \<open>A label value up to its closing quote.\<close>

fun read_value :: "string \<Rightarrow> (string \<times> string) option" where
  "read_value [] = None"
| "read_value (c # s) =
     (if c = dquote then Some ([], s)
      else if c = backslash then
        (case s of
           [] \<Rightarrow> None
         | d # s \<Rightarrow> map_option (\<lambda>(v, r). ((if d = CHR ''n'' then line_feed else d) # v, r)) (read_value s))
      else map_option (\<lambda>(v, r). (c # v, r)) (read_value s))"

text \<open>The labels up to the closing brace, with as many as \<open>n\<close> of them.\<close>

fun read_labels :: "nat \<Rightarrow> string \<Rightarrow> ((string \<times> string) list \<times> string) option" where
  "read_labels 0 s = None"
| "read_labels (Suc n) s =
     (case cut CHR ''='' s of
        (name, r, True) \<Rightarrow>
          (case r of
             [] \<Rightarrow> None
           | c # r \<Rightarrow>
               if c \<noteq> dquote then None
               else (case read_value r of
                       Some (v, d # r) \<Rightarrow>
                         if d = CHR '','' then map_option (\<lambda>(ls, r). ((name, v) # ls, r)) (read_labels n r)
                         else if d = CHR ''}'' then Some ([(name, v)], r) else None
                     | _ \<Rightarrow> None))
      | _ \<Rightarrow> None)"

definition read_series :: "string \<Rightarrow> string \<Rightarrow> ((string \<times> string) list \<times> string) option" where
  "read_series name line =
     (case cut_prefix line (name @ ''{'') of
        (s, True) \<Rightarrow>
          (case read_labels (length s) s of
             Some (ls, c # r) \<Rightarrow> if c = CHR '' '' then Some (ls, r) else None
           | _ \<Rightarrow> None)
      | _ \<Rightarrow> None)"

lemma special_chars [simp]:
  "backslash \<noteq> dquote" "dquote \<noteq> backslash" "line_feed \<noteq> dquote" "dquote \<noteq> line_feed"
  "line_feed \<noteq> backslash" "backslash \<noteq> line_feed" "backslash \<noteq> CHR ''n''" "dquote \<noteq> CHR ''n''"
  by (simp_all add: backslash_def dquote_def line_feed_def)

lemma read_value_escape: "read_value (escape v @ dquote # r) = Some (v, r)"
proof (induction v)
  case (Cons c v)
  then show ?case by (auto simp: escape_def escape_char_def)
qed (simp add: escape_def)

lemma cut_first: "c \<notin> set n \<Longrightarrow> cut c (n @ c # s) = (n, s, True)"
  by (induction n) auto

lemma read_label:
  assumes "CHR ''='' \<notin> set n"
  shows "read_labels (Suc k) (n @ [CHR ''='', dquote] @ escape v @ [dquote] @ d # r) =
    (if d = CHR '','' then map_option (\<lambda>(ls, r). ((n, v) # ls, r)) (read_labels k r)
     else if d = CHR ''}'' then Some ([(n, v)], r) else None)"
  using assms read_value_escape [of v "d # r"] by (simp add: cut_first)

lemma read_labels_parts:
  assumes "names \<noteq> []" and "\<forall>n \<in> set names. CHR ''='' \<notin> set n" and "length vals = length names"
    and "length names \<le> k"
  shows "read_labels k (join '','' (label_parts names vals) @ CHR ''}'' # r) = Some (zip names vals, r)"
  using assms
proof (induction names arbitrary: vals k)
  case (Cons n names)
  obtain v vs where v: "vals = v # vs" using Cons.prems(3) by (cases vals) auto
  obtain k' where k: "k = Suc k'" using Cons.prems(4) by (cases k) auto
  let ?p = "n @ [CHR ''='', dquote] @ escape v @ [dquote]"
  have n: "CHR ''='' \<notin> set n" using Cons.prems(2) by simp
  show ?case
  proof (cases names)
    case Nil
    then have "join '','' (label_parts (n # names) vals) @ CHR ''}'' # r = n @ [CHR ''='', dquote] @ escape v @ [dquote] @ CHR ''}'' # r"
      by (simp add: v)
    then show ?thesis unfolding k using read_label [OF n, of k' v "CHR ''}''" r] Nil Cons.prems(3) v by simp
  next
    case (Cons n2 names2)
    then have ne: "label_parts names vs \<noteq> []" by simp
    then have "join '','' (label_parts (n # names) vals) @ CHR ''}'' # r
        = n @ [CHR ''='', dquote] @ escape v @ [dquote] @ CHR '','' # (join '','' (label_parts names vs) @ CHR ''}'' # r)"
      by (simp add: v join_Cons)
    moreover have "read_labels k' (join '','' (label_parts names vs) @ CHR ''}'' # r) = Some (zip names vs, r)"
      using Cons Cons.prems v k by (intro Cons.IH) auto
    ultimately show ?thesis unfolding k using read_label [OF n, of k' v "CHR '',''"] v by simp
  qed
qed simp

lemma length_parts: "length names \<le> length (join '','' (label_parts names vals))"
proof (induction names arbitrary: vals)
  case (Cons n names)
  show ?case
  proof (cases "names = []")
    case False
    define vs where "vs = (case vals of [] \<Rightarrow> [] | _ # vs \<Rightarrow> vs)"
    have "label_parts names vs \<noteq> []" using False by (cases names) auto
    then show ?thesis using Cons.IH [of vs] by (simp add: vs_def [symmetric] join_Cons)
  qed simp
qed simp

section \<open>Properties\<close>

text \<open>What is added to a counter under lists of as many label values as it has labels.\<close>

definition add_ok :: "nat \<Rightarrow> string list \<Rightarrow> bool" where
  "add_ok n vals \<longleftrightarrow> length vals = n \<and> (\<forall>v \<in> set vals. label_sep \<notin> set v)"

definition added :: "(int \<times> string list) list \<Rightarrow> string list \<Rightarrow> int" where
  "added ops vals = sum_list (map fst (filter (\<lambda>(v, l). l = vals) ops))"

definition add_all :: "(int \<times> string list) list \<Rightarrow> counter_vec \<Rightarrow> counter_vec" where
  "add_all ops c = foldl (\<lambda>c (v, l). vec_add v l c) c ops"

lemma split_key: "add_ok n vals \<Longrightarrow> 0 < n \<Longrightarrow> split label_sep (label_key vals) = vals"
  unfolding label_key_def add_ok_def by (intro split_join) auto

lemma label_key_inject: "add_ok n v \<Longrightarrow> add_ok n w \<Longrightarrow> label_key v = label_key w \<longleftrightarrow> v = w"
  by (cases n) (auto simp: add_ok_def, metis add_ok_def split_key zero_less_Suc)

lemma vec_add_sel [simp]:
  "cv_name (vec_add v l c) = cv_name c" "cv_labels (vec_add v l c) = cv_labels c"
  "vec_value k (vec_add v l c) = (if k = label_key l then vec_value k c + v else vec_value k c)"
  by (simp_all add: vec_add_def Let_def vec_value_def)

lemma add_all_spec:
  assumes "\<forall>(v, l) \<in> set ops. add_ok n l"
  shows "cv_name (add_all ops c) = cv_name c" "cv_labels (add_all ops c) = cv_labels c"
    "set (map fst (cv_values (add_all ops c))) = set (map fst (cv_values c)) \<union> label_key ` snd ` set ops"
    "distinct (map fst (cv_values c)) \<Longrightarrow> distinct (map fst (cv_values (add_all ops c)))"
    "add_ok n vals \<Longrightarrow> vec_value (label_key vals) (add_all ops c) = vec_value (label_key vals) c + added ops vals"
proof -
  have "cv_name (add_all ops c) = cv_name c \<and> cv_labels (add_all ops c) = cv_labels c
    \<and> set (map fst (cv_values (add_all ops c))) = set (map fst (cv_values c)) \<union> label_key ` snd ` set ops
    \<and> (distinct (map fst (cv_values c)) \<longrightarrow> distinct (map fst (cv_values (add_all ops c))))
    \<and> (\<forall>vals. add_ok n vals \<longrightarrow>
        vec_value (label_key vals) (add_all ops c) = vec_value (label_key vals) c + added ops vals)"
    (is "?P ops c")
    using assms
  proof (induction ops arbitrary: c)
    case (Cons x ops)
    obtain v l where x: "x = (v, l)" by (cases x)
    have l: "add_ok n l" "\<forall>(v, l) \<in> set ops. add_ok n l" using Cons.prems by (auto simp: x)
    have s: "add_all (x # ops) c = add_all ops (vec_add v l c)" by (simp add: x add_all_def)
    have IH: "?P ops (vec_add v l c)" by (rule Cons.IH [OF l(2)])
    have keys: "set (map fst (cv_values (vec_add v l c))) = insert (label_key l) (set (map fst (cv_values c)))"
      "distinct (map fst (cv_values c)) \<Longrightarrow> distinct (map fst (cv_values (vec_add v l c)))"
      by (simp_all add: vec_add_def Let_def dom_update distinct_update)
    have "added (x # ops) vals = (if vals = l then v else 0) + added ops vals" for vals by (simp add: x added_def)
    moreover have "label_key vals = label_key l \<longleftrightarrow> vals = l" if "add_ok n vals" for vals
      by (rule label_key_inject [OF that l(1)])
    ultimately show ?case using IH keys unfolding s by (simp add: x)
  qed (simp add: add_all_def added_def)
  then show "cv_name (add_all ops c) = cv_name c" "cv_labels (add_all ops c) = cv_labels c"
    "set (map fst (cv_values (add_all ops c))) = set (map fst (cv_values c)) \<union> label_key ` snd ` set ops"
    "distinct (map fst (cv_values c)) \<Longrightarrow> distinct (map fst (cv_values (add_all ops c)))"
    "add_ok n vals \<Longrightarrow> vec_value (label_key vals) (add_all ops c) = vec_value (label_key vals) c + added ops vals"
    by blast+
qed

lemma add_all_help: "cv_help (add_all ops c) = cv_help c"
  by (induction ops arbitrary: c) (auto simp: add_all_def vec_add_def Let_def)

lemma foldl_counter_add:
  "c < length (me_counters m) \<Longrightarrow> foldl (\<lambda>m (v, l). counter_add (Some c) v l m) m ops
     = m\<lparr>me_counters := (me_counters m)[c := add_all ops (me_counters m ! c)]\<rparr>"
proof (induction ops arbitrary: m)
  case (Cons x ops)
  then show ?case by (cases x) (simp add: counter_add_def add_all_def)
qed (simp add: add_all_def)

text \<open>A counter with labels keeps the series of different label values apart: its value for a list of label
  values is the sum of what was added under exactly that list, as no valid label value contains the byte that
  joins them.\<close>

theorem counter_exact:
  assumes "c < length (me_counters m)" and "cv_values (me_counters m ! c) = []"
    and "\<forall>(v, l) \<in> set ops. add_ok n l" and "add_ok n vals"
  shows "counter_value (Some c) vals (foldl (\<lambda>m (v, l). counter_add (Some c) v l m) m ops) = added ops vals"
  using assms add_all_spec(5) [OF assms(3,4)] by (simp add: foldl_counter_add counter_value_def vec_value_def)

lemma counter_lines_read:
  assumes "\<forall>(v, l) \<in> set ops. add_ok (length labels) l" and "labels \<noteq> []" and "\<forall>n \<in> set labels. CHR ''='' \<notin> set n"
  shows "\<exists>series. distinct series \<and> set series = snd ` set ops
    \<and> map (read_series name) (counter_lines fmt (add_all ops (new_counter name help labels)))
      = map (\<lambda>vals. Some (zip labels vals, fmt (added ops vals))) series"
proof -
  define c where "c = add_all ops (new_counter name help labels)"
  define keys where "keys = sort (map fst (cv_values c))"
  note spec = add_all_spec [OF assms(1), where c = "new_counter name help labels"]
  have c: "cv_name c = name" "cv_labels c = labels" "set keys = label_key ` snd ` set ops" "distinct keys"
    using spec(1-4) by (simp_all add: c_def keys_def new_counter_def)
  have ok: "add_ok (length labels) l" if "l \<in> snd ` set ops" for l using that assms(1) by auto
  have n: "0 < length labels" using assms(2) by simp
  have key: "split label_sep k \<in> snd ` set ops \<and> label_key (split label_sep k) = k" if k: "k \<in> set keys" for k
  proof -
    obtain l where "l \<in> snd ` set ops" "k = label_key l" using k unfolding c(3) by blast
    moreover then have "split label_sep k = l" using split_key [OF ok n] by blast
    ultimately show ?thesis by simp
  qed
  have "inj_on (split label_sep) (set keys)" by (rule inj_on_inverseI [where g = label_key], drule key, erule conjunct2)
  then have d: "distinct (map (split label_sep) keys)" using c(4) by (simp add: distinct_map)
  have "split label_sep ` label_key ` snd ` set ops = (\<lambda>l. l) ` snd ` set ops"
    unfolding image_comp [of "split label_sep"] by (rule image_cong [OF refl]) (use split_key [OF ok n] in simp)
  then have "set (map (split label_sep) keys) = snd ` set ops" using c(3) by simp
  moreover have "read_series name (series_line fmt c k)
      = Some (zip labels (split label_sep k), fmt (added ops (split label_sep k)))" if k: "k \<in> set keys" for k
  proof -
    let ?v = "split label_sep k"
    have v: "add_ok (length labels) ?v" "label_key ?v = k" using key [OF k] ok by auto
    have val: "vec_value k c = added ops ?v"
      using spec(5) [OF v(1)] v(2) by (simp add: c_def new_counter_def vec_value_def)
    let ?b = "join '','' (label_parts labels ?v) @ CHR ''}'' # CHR '' '' # fmt (added ops ?v)"
    have "series_line fmt c k = (name @ ''{'') @ ?b"
      using assms(2) by (simp add: series_line_def label_string_def c val)
    then have "cut_prefix (series_line fmt c k) (name @ ''{'') = (?b, True)" by (metis cut_prefix_append)
    moreover have "length labels \<le> length ?b" using length_parts [of labels ?v] by simp
    then have "read_labels (length ?b) ?b = Some (zip labels ?v, CHR '' '' # fmt (added ops ?v))"
      using v(1) assms(2,3) by (intro read_labels_parts) (simp_all add: add_ok_def)
    ultimately show ?thesis by (simp add: read_series_def)
  qed
  then have "map (read_series name) (counter_lines fmt c)
      = map (\<lambda>vals. Some (zip labels vals, fmt (added ops vals))) (map (split label_sep) keys)"
    by (simp add: counter_lines_def keys_def [symmetric])
  ultimately show ?thesis using d unfolding c_def by blast
qed

text \<open>Nothing that is counted breaks a line.\<close>

lemma escape_one_line: "line_feed \<notin> set (escape v)"
  by (auto simp: escape_def escape_char_def line_feed_def backslash_def dquote_def)

lemma label_parts_one_line:
  "\<forall>n \<in> set names. line_feed \<notin> set n \<Longrightarrow> p \<in> set (label_parts names vals) \<Longrightarrow> line_feed \<notin> set p"
proof (induction names vals rule: label_parts.induct)
  case (2 n names vals)
  then show ?case using escape_one_line by (auto simp: line_feed_def dquote_def)
qed simp

lemma counter_lines_one_line:
  assumes "line_feed \<notin> set (cv_name c)" and "\<forall>n \<in> set (cv_labels c). line_feed \<notin> set n"
    and "\<And>v. line_feed \<notin> set (fmt v)" and "l \<in> set (counter_lines fmt c)"
  shows "line_feed \<notin> set l"
proof -
  have "line_feed \<notin> set (join '','' (label_parts (cv_labels c) vals))" for vals
    using set_join [of "'',''" "label_parts (cv_labels c) vals"] label_parts_one_line [OF assms(2)]
    by (auto simp: line_feed_def)
  then show ?thesis
    using assms(1,3,4) by (auto simp: counter_lines_def series_line_def label_string_def line_feed_def split: if_splits)
qed

definition counter_block :: "(int \<Rightarrow> string) \<Rightarrow> counter_vec \<Rightarrow> string list" where
  "counter_block fmt c = header_lines (cv_name c) (cv_help c) ''counter'' @ counter_lines fmt c"

definition gauge_block :: "(int \<Rightarrow> string) \<Rightarrow> 's \<Rightarrow> 's gauge \<Rightarrow> string list" where
  "gauge_block fmt s g = header_lines (ga_name g) (ga_help g) ''gauge'' @ [ga_name g @ '' '' @ fmt (ga_fn g s)]"

definition metrics_lines :: "(int \<Rightarrow> string) \<Rightarrow> 's \<Rightarrow> 's metrics \<Rightarrow> string list" where
  "metrics_lines fmt s m = concat (map (counter_block fmt) (me_counters m)) @ concat (map (gauge_block fmt s) (me_gauges m))"

definition one_line :: "'s metrics \<Rightarrow> bool" where
  "one_line m \<longleftrightarrow>
     list_all (\<lambda>c. line_feed \<notin> set (cv_name c) \<and> line_feed \<notin> set (cv_help c)
       \<and> list_all (\<lambda>n. line_feed \<notin> set n) (cv_labels c)) (me_counters m)
     \<and> list_all (\<lambda>g. line_feed \<notin> set (ga_name g) \<and> line_feed \<notin> set (ga_help g)) (me_gauges m)"

lemma header_one_line:
  "line_feed \<notin> set name \<Longrightarrow> line_feed \<notin> set hlp \<Longrightarrow> kind = ''counter'' \<or> kind = ''gauge'' \<Longrightarrow>
     l \<in> set (header_lines name hlp kind) \<Longrightarrow> line_feed \<notin> set l"
  by (auto simp: header_lines_def line_feed_def)

lemma split_write:
  assumes "one_line m" and "\<And>v. line_feed \<notin> set (fmt v)"
  shows "split line_feed (metrics_write fmt s m) = metrics_lines fmt s m @ [[]]"
proof -
  have "line_feed \<notin> set l" if "c \<in> set (me_counters m)" "l \<in> set (counter_block fmt c)" for c l
    using that assms counter_lines_one_line [of c fmt l] header_one_line [of "cv_name c" "cv_help c" "''counter''" l]
    by (auto simp: one_line_def list_all_iff counter_block_def)
  moreover have "line_feed \<notin> set l" if "g \<in> set (me_gauges m)" "l \<in> set (gauge_block fmt s g)" for g l
    using that assms header_one_line [of "ga_name g" "ga_help g" "''gauge''" l]
    by (auto simp: one_line_def list_all_iff line_feed_def gauge_block_def)
  ultimately have "\<forall>l \<in> set (metrics_lines fmt s m). line_feed \<notin> set l" by (auto simp: metrics_lines_def)
  moreover have "metrics_write fmt s m = concat (map (\<lambda>l. l @ [line_feed]) (metrics_lines fmt s m))"
    by (simp add: metrics_write_def metrics_lines_def counter_block_def [abs_def] gauge_block_def [abs_def])
  ultimately show ?thesis using split_lines by metis
qed

text \<open>C29: what a scrape of a counter reads, line by line, are the exact label names and values of each series
  that was counted, once each, with the sum that was counted, whatever quotes, backslashes and line
  breaks the label values have.\<close>

theorem scrape_exact:
  assumes "metrics_counter name help labels new_metrics = (c, m)" and "\<forall>(v, l) \<in> set ops. add_ok (length labels) l"
    and "labels \<noteq> []" and "\<forall>n \<in> set labels. CHR ''='' \<notin> set n \<and> line_feed \<notin> set n"
    and "line_feed \<notin> set name" and "line_feed \<notin> set help" and "\<And>v. line_feed \<notin> set (fmt v)"
  shows "\<exists>series lines. distinct series \<and> set series = snd ` set ops
    \<and> split line_feed (metrics_write fmt s (foldl (\<lambda>m (v, l). counter_add c v l m) m ops))
      = header_lines name help ''counter'' @ lines @ [[]]
    \<and> map (read_series name) lines = map (\<lambda>vals. Some (zip labels vals, fmt (added ops vals))) series"
proof -
  define cv where "cv = add_all ops (new_counter name help labels)"
  note spec = add_all_spec(1,2) [OF assms(2), of "new_counter name help labels", folded cv_def]
  have hlp: "cv_help cv = help" by (simp add: cv_def add_all_help new_counter_def)
  have m: "foldl (\<lambda>m (v, l). counter_add c v l m) m ops = \<lparr>me_counters = [cv], me_gauges = []\<rparr>"
    using assms(1) foldl_counter_add [of 0 m ops] by (auto simp: metrics_counter_def new_metrics_def cv_def)
  have "one_line (\<lparr>me_counters = [cv], me_gauges = []\<rparr> :: 'a metrics)"
    using assms(4-6) spec hlp by (simp add: one_line_def list_all_iff new_counter_def)
  then have "split line_feed (metrics_write fmt s (foldl (\<lambda>m (v, l). counter_add c v l m) m ops))
      = header_lines name help ''counter'' @ counter_lines fmt cv @ [[]]"
    using spec(1) unfolding m by (simp add: split_write [OF _ assms(7)] metrics_lines_def counter_block_def hlp new_counter_def)
  moreover have "\<forall>n \<in> set labels. CHR ''='' \<notin> set n" using assms(4) by blast
  note series = counter_lines_read [OF assms(2,3) this, of name fmt "help", folded cv_def]
  ultimately show ?thesis using series by auto
qed

text \<open>The gateway's count of routes, with a server whose name needs escaping.\<close>

definition demo_ops :: "(int \<times> string list) list" where
  "demo_ops = [(1, [''sticky'', ''a'']), (1, [''auto'', [dquote, CHR ''b'', line_feed, backslash]]), (1, [''sticky'', ''a''])]"

theorem counter_exact_witness:
  "counter_value (Some 0) [''sticky'', ''a''] (foldl (\<lambda>m (v, l). counter_add (Some 0) v l m)
     \<lparr>me_counters = [new_counter ''routes'' ''Routes'' [''via'', ''server'']], me_gauges = ([] :: unit gauge list)\<rparr> demo_ops) = 2"
proof -
  have "\<forall>(v, l) \<in> set demo_ops. add_ok 2 l" "add_ok 2 [''sticky'', ''a'']" "added demo_ops [''sticky'', ''a''] = 2"
    by code_simp+
  note exact = counter_exact [OF _ _ this(1,2)]
  show ?thesis
    using exact [of 0 "\<lparr>me_counters = [new_counter ''routes'' ''Routes'' [''via'', ''server'']], me_gauges = []\<rparr>"]
      \<open>added demo_ops [''sticky'', ''a''] = 2\<close>
    by (simp add: new_counter_def)
qed

theorem scrape_exact_witness:
  "\<exists>series lines. distinct series \<and> set series = snd ` set demo_ops
    \<and> split line_feed (metrics_write itoa () (foldl (\<lambda>m (v, l). counter_add (Some 0) v l m)
        \<lparr>me_counters = [new_counter ''routes'' ''Routes'' [''via'', ''server'']], me_gauges = []\<rparr> demo_ops))
      = header_lines ''routes'' ''Routes'' ''counter'' @ lines @ [[]]
    \<and> map (read_series ''routes'') lines
      = map (\<lambda>vals. Some (zip [''via'', ''server''] vals, itoa (added demo_ops vals))) series"
proof (rule scrape_exact)
  show "metrics_counter ''routes'' ''Routes'' [''via'', ''server''] new_metrics
      = (Some 0, \<lparr>me_counters = [new_counter ''routes'' ''Routes'' [''via'', ''server'']], me_gauges = []\<rparr>)"
    by (simp add: metrics_counter_def new_metrics_def)
  show "\<forall>(v, l) \<in> set demo_ops. add_ok (length [''via'', ''server'']) l" by code_simp
  show "line_feed \<notin> set (itoa v)" for v by (rule itoa_no_char) (simp_all add: line_feed_def)
qed (simp_all add: line_feed_def)

end
