(* ===== verification/Exposition.thy ===== *)
theory Exposition
  imports Gateway Metrics
begin

text \<open>
  The metrics of the gateway: the counters and gauges that \<^verbatim>\<open>sideport.New\<close>, \<^verbatim>\<open>runGateway\<close> and \<^verbatim>\<open>router.New\<close> register, in this
  order, and the handler of \<^verbatim>\<open>GET /metrics\<close> in \<^verbatim>\<open>internal/api/api.go\<close>. A gauge reads the running gateway
  (\<open>live\<close>): the time of the scrape, the shared state, the UDP flows and the players in the lobby.

  The lemmas show that a scrape needs the token, if one is set, and that nothing that is counted can forge
  the number of servers in it.
\<close>

section \<open>Definitions\<close>

record live =
  lv_now :: time
  lv_state :: api_state
  lv_flows :: int
  lv_lobby :: int

definition sideport_metrics :: "live metrics \<Rightarrow> live metrics" where
  "sideport_metrics r =
     (let r = snd (metrics_counter ''vecta_sideport_connections_total''
                ''Side port TCP connections and UDP flows opened'' [''protocol''] r);
          r = snd (metrics_counter ''vecta_sideport_bytes_total''
                ''Bytes forwarded through side ports'' [''protocol'', ''direction''] r);
          r = snd (metrics_counter ''vecta_sideport_dropped_total''
                ''Side port connections or datagrams dropped'' [''reason''] r);
          r = gauge_func ''vecta_sideport_assigned'' ''Side ports with an active public port''
                (\<lambda>v. case as_manager (lv_state v) of None \<Rightarrow> 0 | Some m \<Rightarrow> int (mg_assigned m)) r
      in gauge_func ''vecta_sideport_flows'' ''Active side port UDP flows'' lv_flows r)"

definition router_metrics :: "live metrics \<Rightarrow> live metrics" where
  "router_metrics m =
     (let m = snd (metrics_counter ''vecta_connections_total'' ''Player connections by handshake intent'' [''intent''] m);
          m = snd (metrics_counter ''vecta_connections_rejected_total'' ''Connections refused by limits'' [''reason''] m);
          m = snd (metrics_counter ''vecta_routes_total'' ''Players piped to a backend'' [''via'', ''server''] m);
          m = snd (metrics_counter ''vecta_lobby_outcomes_total'' ''How lobby sessions ended'' [''outcome''] m);
          m = snd (metrics_counter ''vecta_backend_dial_failures_total'' ''Failed backend dials'' [''server''] m);
          m = snd (metrics_counter ''vecta_transfer_tickets_total''
                ''Transfer tickets issued via the owner API'' [''mode''] m)
      in gauge_func ''vecta_lobby_sessions_active'' ''Players currently in the lobby or limbo'' lv_lobby m)"

definition gateway_metrics :: "live metrics" where
  "gateway_metrics =
     (let m = sideport_metrics new_metrics;
          m = gauge_func ''vecta_servers_registered'' ''Registered servers''
                (\<lambda>v. int (length (reg_list (lv_now v) (as_reg (lv_state v))))) m;
          m = gauge_func ''vecta_servers_online'' ''Servers passing health checks''
                (\<lambda>v. int (length (reg_online (lv_now v) (as_reg (lv_state v))))) m
      in router_metrics m)"

datatype scrape = S_no_metrics | S_unauthorized | S_metrics string

definition api_metrics :: "(int \<Rightarrow> string) \<Rightarrow> api_options \<Rightarrow> string \<Rightarrow> 's \<Rightarrow> 's metrics option \<Rightarrow> scrape" where
  "api_metrics fmt opts auth s m =
     (case m of
        None \<Rightarrow> S_no_metrics
      | Some m \<Rightarrow>
          if ao_metrics_token opts \<noteq> [] \<and> bearer auth \<noteq> ao_metrics_token opts then S_unauthorized
          else S_metrics (metrics_write fmt s m))"

section \<open>Properties\<close>

text \<open>Counting: the indices of the counters, amounts and label values.\<close>

definition count_all :: "(nat \<times> int \<times> string list) list \<Rightarrow> 's metrics \<Rightarrow> 's metrics" where
  "count_all ops m = foldl (\<lambda>m (c, v, l). counter_add (Some c) v l m) m ops"

definition shape :: "counter_vec \<Rightarrow> string \<times> string \<times> string list" where
  "shape c = (cv_name c, cv_help c, cv_labels c)"

lemma shape_add: "shape (vec_add v l c) = shape c"
  by (simp add: shape_def vec_add_def Let_def)

lemma count_all_shape:
  "map shape (me_counters (count_all ops m)) = map shape (me_counters m)" "me_gauges (count_all ops m) = me_gauges m"
proof -
  have "map shape (me_counters (count_all ops m)) = map shape (me_counters m) \<and> me_gauges (count_all ops m) = me_gauges m"
  proof (induction ops arbitrary: m)
    case (Cons x ops)
    obtain c v l where x: "x = (c, v, l)" by (cases x)
    have "map shape (me_counters (counter_add (Some c) v l m)) = map shape (me_counters m)"
      by (cases "c < length (me_counters m)")
        (auto simp: counter_add_def map_update shape_add list_update_same_conv list_update_beyond)
    moreover have "me_gauges (counter_add (Some c) v l m) = me_gauges m" by (simp add: counter_add_def)
    ultimately show ?case using Cons.IH [of "counter_add (Some c) v l m"] by (simp add: x count_all_def)
  qed (simp add: count_all_def)
  then show "map shape (me_counters (count_all ops m)) = map shape (me_counters m)"
    "me_gauges (count_all ops m) = me_gauges m" by simp_all
qed

lemma one_line_shape:
  "one_line m \<longleftrightarrow>
     list_all (\<lambda>(n, h, ls). line_feed \<notin> set n \<and> line_feed \<notin> set h \<and> list_all (\<lambda>l. line_feed \<notin> set l) ls) (map shape (me_counters m))
     \<and> list_all (\<lambda>g. line_feed \<notin> set (ga_name g) \<and> line_feed \<notin> set (ga_help g)) (me_gauges m)"
  by (simp add: one_line_def shape_def list.pred_map comp_def)

lemma counter_block_lines:
  assumes "l \<in> set (counter_block fmt c)" and "cv_labels c \<noteq> []"
  shows "(\<exists>r. l = ''# '' @ r) \<or> (\<exists>r. l = cv_name c @ ''{'' @ r)"
  using assms by (auto simp: counter_block_def header_lines_def counter_lines_def series_line_def label_string_def)

lemma prefix_of_append: "has_prefix (q @ r) p \<Longrightarrow> has_prefix q p \<or> has_prefix p q"
proof -
  assume "has_prefix (q @ r) p"
  then obtain t where "q @ r = p @ t" by (auto simp: has_prefix_iff)
  then have "(\<exists>u. q = p @ u) \<or> (\<exists>u. p = q @ u)" by (auto simp: append_eq_append_conv2)
  then show ?thesis by (auto simp: has_prefix_iff)
qed

definition gateway_counters :: "string list" where
  "gateway_counters = [''vecta_sideport_connections_total'', ''vecta_sideport_bytes_total'', ''vecta_sideport_dropped_total'',
     ''vecta_connections_total'', ''vecta_connections_rejected_total'', ''vecta_routes_total'',
     ''vecta_lobby_outcomes_total'', ''vecta_backend_dial_failures_total'', ''vecta_transfer_tickets_total'']"

lemmas gateway_metrics_defs =
  gateway_metrics_def sideport_metrics_def router_metrics_def metrics_counter_def gauge_func_def new_metrics_def
  new_counter_def shape_def Let_def

lemma gateway_shapes:
  "map fst (map shape (me_counters gateway_metrics)) = gateway_counters"
  "list_all (\<lambda>(n, h, ls). ls \<noteq> []) (map shape (me_counters gateway_metrics))"
  "one_line gateway_metrics"
  by (simp_all add: one_line_shape gateway_metrics_defs gateway_counters_def line_feed_def)

lemma gateway_lines:
  assumes "list_all (\<lambda>n. \<not> has_prefix (n @ ''{'') p \<and> \<not> has_prefix p (n @ ''{'')) gateway_counters"
    and "p \<noteq> []" and "hd p \<noteq> CHR ''#''" and "c \<in> set (me_counters (count_all ops gateway_metrics))"
  shows "filter (\<lambda>l. has_prefix l p) (counter_block fmt c) = []"
proof -
  have m: "shape c \<in> set (map shape (me_counters gateway_metrics))"
    using assms(4) by (subst count_all_shape(1) [of ops, symmetric]) simp
  have "cv_labels c \<noteq> []" using gateway_shapes(2) m by (auto simp: list_all_iff shape_def)
  have "fst (shape c) \<in> set (map fst (map shape (me_counters gateway_metrics)))" using m by (simp only: set_map image_eqI)
  then have "cv_name c \<in> set gateway_counters" unfolding gateway_shapes(1) by (simp add: shape_def)
  then have n: "\<not> has_prefix (cv_name c @ ''{'') p" "\<not> has_prefix p (cv_name c @ ''{'')" using assms(1) by (auto simp: list_all_iff)
  have "\<not> has_prefix l p" if l: "l \<in> set (counter_block fmt c)" for l
    using counter_block_lines [OF l \<open>cv_labels c \<noteq> []\<close>]
  proof
    assume "\<exists>r. l = ''# '' @ r"
    then show ?thesis using assms(2,3) by (cases p) (auto simp: has_prefix_def)
  next
    assume "\<exists>r. l = cv_name c @ ''{'' @ r"
    then obtain r where r: "l = (cv_name c @ ''{'') @ r" by auto
    show ?thesis
    proof
      assume "has_prefix l p"
      then show False using prefix_of_append [of "cv_name c @ ''{''" r p] n unfolding r by blast
    qed
  qed
  then show ?thesis by (simp add: filter_empty_conv)
qed

text \<open>C30: a scrape of the gateway needs the token, if one is set, and the numbers of registered and online
  servers in it are those of the registry, stated once each: no label value that a player or an owner
  chooses can add or change such a line.\<close>

theorem scrape_unforgeable:
  assumes "api_metrics fmt opts auth v (Some (count_all ops gateway_metrics)) = S_metrics body"
    and "\<And>n. line_feed \<notin> set (fmt n)"
  shows "(ao_metrics_token opts = [] \<or> bearer auth = ao_metrics_token opts)
    \<and> filter (\<lambda>l. has_prefix l ''vecta_servers_registered '') (split line_feed body)
      = [''vecta_servers_registered '' @ fmt (int (length (reg_list (lv_now v) (as_reg (lv_state v)))))]
    \<and> filter (\<lambda>l. has_prefix l ''vecta_servers_online '') (split line_feed body)
      = [''vecta_servers_online '' @ fmt (int (length (reg_online (lv_now v) (as_reg (lv_state v)))))]"
proof -
  let ?m = "count_all ops gateway_metrics"
  have out: "body = metrics_write fmt v ?m" "ao_metrics_token opts = [] \<or> bearer auth = ao_metrics_token opts"
    using assms(1) by (auto simp: api_metrics_def split: if_splits)
  have "one_line ?m" using gateway_shapes(3) by (simp add: one_line_shape count_all_shape)
  then have lines: "split line_feed body = metrics_lines fmt v ?m @ [[]]" unfolding out(1) by (rule split_write [OF _ assms(2)])
  have filt: "filter (\<lambda>l. has_prefix l p) (split line_feed body)
      = concat (map (\<lambda>g. filter (\<lambda>l. has_prefix l p) (gauge_block fmt v g)) (me_gauges gateway_metrics))"
    if p: "list_all (\<lambda>n. \<not> has_prefix (n @ ''{'') p \<and> \<not> has_prefix p (n @ ''{'')) gateway_counters"
      "p \<noteq> []" "hd p \<noteq> CHR ''#''" for p
    using gateway_lines [OF p, of _ ops fmt] p(2)
    by (simp add: lines metrics_lines_def filter_concat comp_def count_all_shape(2) has_prefix_def cong: map_cong)
  have "filter (\<lambda>l. has_prefix l ''vecta_servers_registered '') (split line_feed body)
      = [''vecta_servers_registered '' @ fmt (int (length (reg_list (lv_now v) (as_reg (lv_state v)))))]"
    by (subst filt) (simp_all add: gateway_counters_def has_prefix_def gauge_block_def header_lines_def gateway_metrics_defs)
  moreover have "filter (\<lambda>l. has_prefix l ''vecta_servers_online '') (split line_feed body)
      = [''vecta_servers_online '' @ fmt (int (length (reg_online (lv_now v) (as_reg (lv_state v)))))]"
    by (subst filt) (simp_all add: gateway_counters_def has_prefix_def gauge_block_def header_lines_def gateway_metrics_defs)
  ultimately show ?thesis using out(2) by blast
qed

section \<open>Examples\<close>

text \<open>A player on a server whose id tries to end its line; the id could not be registered, but the counter does not rely on that.\<close>

definition demo_counts :: "(nat \<times> int \<times> string list) list" where
  "demo_counts = [(5, 1, [''sticky'', dquote # ''}'' @ [line_feed] @ ''vecta_servers_online 9'']), (3, 2, [''login''])]"

definition demo_live :: live where
  "demo_live = \<lparr>lv_now = 9, lv_state = gw_state demo_gw, lv_flows = 0, lv_lobby = 1\<rparr>"

theorem scrape_unforgeable_witness:
  "filter (\<lambda>l. has_prefix l ''vecta_servers_online '') (split line_feed (metrics_write itoa demo_live (count_all demo_counts gateway_metrics)))
     = [''vecta_servers_online '' @ itoa (int (length (reg_online (lv_now demo_live) (as_reg (lv_state demo_live)))))]"
proof -
  have "api_metrics itoa (gw_opts demo_gw) [] demo_live (Some (count_all demo_counts gateway_metrics))
      = S_metrics (metrics_write itoa demo_live (count_all demo_counts gateway_metrics))"
  proof -
    have "ao_metrics_token (gw_opts demo_gw) = []" by code_simp
    then show ?thesis by (simp add: api_metrics_def)
  qed
  moreover have "line_feed \<notin> set (itoa n)" for n by (rule itoa_no_char) (simp_all add: line_feed_def)
  ultimately show ?thesis by (blast dest: scrape_unforgeable)
qed

end
