(* ===== verification/Status_Page.thy ===== *)
theory Status_Page
  imports Router
begin

text \<open>
  \<^verbatim>\<open>internal/router/router.go\<close>, the answer to a server list ping: the cached summary of the visible
  servers (\<^verbatim>\<open>summary\<close>), the JSON document (\<^verbatim>\<open>statusDoc\<close>, \<^verbatim>\<open>personalLine\<close>), the ping itself
  (\<^verbatim>\<open>handleStatus\<close>), and the handler of a connection as a whole (\<^verbatim>\<open>handle\<close>). The cache is the list of its
  entries; the mutex makes a call of \<^verbatim>\<open>summary\<close> one step.

  The lemmas show that a summary is never older than two seconds and always the summary of a registry
  that existed, that it counts what it says, that the cache stays bounded, and what a client that pings
  is answered.
\<close>

section \<open>The summary\<close>

record status_summary =
  ss_built :: time
  ss_players :: int
  ss_max_players :: int
  ss_compatible :: nat
  ss_samples :: "string list"

type_synonym status_cache = "(int \<times> status_summary) list"

definition statusCacheTTL :: duration where
  "statusCacheTTL = 2 * 1000000000"

text \<open>The section sign in UTF-8, which starts a colour code.\<close>

definition section_sign :: string where
  "section_sign = str [0xC2, 0xA7]"

definition sample_name :: "int \<Rightarrow> server \<Rightarrow> string" where
  "sample_name protocol srv =
     section_sign @ (if accepts srv protocol then ''a'' else ''7'') @ sv_name srv @ '' '' @ section_sign @ ''8(''
     @ sv_loader srv @ '', '' @ sv_version_name srv @ '')''"

fun summary_loop :: "int \<Rightarrow> server list \<Rightarrow> status_summary \<Rightarrow> status_summary" where
  "summary_loop protocol [] s = s"
| "summary_loop protocol (srv # rest) s =
     (if sv_hidden srv then summary_loop protocol rest s
      else summary_loop protocol rest
        (s\<lparr>ss_players := ss_players s + sv_players srv,
           ss_max_players := ss_max_players s + sv_max_players srv,
           ss_compatible := ss_compatible s + (if accepts srv protocol then 1 else 0),
           ss_samples := ss_samples s @ [sample_name protocol srv]\<rparr>))"

definition build_summary :: "time \<Rightarrow> registry \<Rightarrow> int \<Rightarrow> status_summary" where
  "build_summary now reg protocol =
     summary_loop protocol (reg_online now reg)
       \<lparr>ss_built = now, ss_players = 0, ss_max_players = 0, ss_compatible = 0, ss_samples = []\<rparr>"

definition summary :: "time \<Rightarrow> registry \<Rightarrow> int \<Rightarrow> status_cache \<Rightarrow> status_summary \<times> status_cache" where
  "summary now reg protocol cache =
     (let fresh = (let cache = (if length cache > 256 then [] else cache);
                       s = build_summary now reg protocol
                   in (s, AList.update protocol s cache))
      in case map_of cache protocol of
           Some s \<Rightarrow> if now - ss_built s < statusCacheTTL then (s, cache) else fresh
         | None \<Rightarrow> fresh)"

section \<open>The document\<close>

text \<open>\<^verbatim>\<open>personalLine\<close>: where this client's next join goes.\<close>

definition personal_line ::
  "router_config \<Rightarrow> time \<Rightarrow> registry \<Rightarrow> string \<Rightarrow> kv_store \<Rightarrow> text_comp option \<times> kv_store" where
  "personal_line cfg now reg client_ip st =
     (if \<not> rc_personalized cfg then (None, st)
      else case ip_player now client_ip st of
             (None, st) \<Rightarrow> (None, st)
           | (Some player, st) \<Rightarrow>
               (case pending_get now player st of
                  (p, st) \<Rightarrow>
                    (case (case p of None \<Rightarrow> None | Some i \<Rightarrow> reg_get now reg i) of
                       Some srv \<Rightarrow> (Some (Join [C ''Next join: '' ''gray'', C (sv_name srv) ''green'']), st)
                     | None \<Rightarrow>
                         if rc_sticky_ttl cfg > 0
                         then (case sticky now player st of
                                 (p, st) \<Rightarrow>
                                   (case (case p of None \<Rightarrow> None | Some i \<Rightarrow> reg_get now reg i) of
                                      Some srv \<Rightarrow>
                                        if sv_online srv
                                        then (Some (Join [C ''Back to '' ''gray'', C (sv_name srv) ''green'',
                                                C (if rc_domain cfg = [] then []
                                                   else '' '' @ str [0xC2, 0xB7] @ '' lobby.'' @ rc_domain cfg @ '' to switch'')
                                                  ''dark_gray'']), st)
                                        else (None, st)
                                    | None \<Rightarrow> (None, st)))
                         else (None, st))))"

text \<open>\<^verbatim>\<open>statusDoc\<close>; \<^verbatim>\<open>json.Marshal\<close> sorts the keys of a map. Nil samples are \<^verbatim>\<open>null\<close>.\<close>

definition sample_json :: "string \<Rightarrow> json" where
  "sample_json name = J_obj [(''name'', J_str name), (''id'', J_str ''00000000-0000-0000-0000-000000000000'')]"

definition status_doc ::
  "router_config \<Rightarrow> time \<Rightarrow> registry \<Rightarrow> int \<Rightarrow> string \<Rightarrow> status_cache \<Rightarrow> kv_store \<Rightarrow> json \<times> status_cache \<times> kv_store" where
  "status_doc cfg now reg protocol client_ip cache st =
     (let (s, cache) = summary now reg protocol cache;
          motd = (if rc_motd cfg = [] then ''vecta gateway'' else rc_motd cfg);
          (line, st) = personal_line cfg now reg client_ip st;
          second = (case line of
             Some line \<Rightarrow> line
           | None \<Rightarrow> C (itoa (int (length (ss_samples s))) @ '' servers online, '' @ itoa (int (ss_compatible s))
                        @ '' for '' @ version_name protocol) ''gray'')
      in (J_obj [(''description'', struct_json (Join [C (motd @ [CHR 0x0A]) ''gold'', second])),
                 (''players'', J_obj [(''max'', J_int (ss_max_players s)), (''online'', J_int (ss_players s)),
                    (''sample'', if ss_samples s = [] then J_null else J_arr (map sample_json (ss_samples s)))]),
                 (''version'', J_obj [(''name'', J_str ''vecta''), (''protocol'', J_int protocol)])],
          cache, st))"

section \<open>The handlers\<close>

text \<open>\<^verbatim>\<open>handleStatus\<close>: the connection is piped to a server, or answered with the frames given.\<close>

datatype status_out = ST_pipe server | ST_answer "byte list"

definition status_target :: "router_config \<Rightarrow> time \<Rightarrow> registry \<Rightarrow> handshake \<Rightarrow> server option" where
  "status_target cfg now reg hs =
     (let i = subdomain_server cfg (hs_host hs) in
      if i = [] then None
      else case reg_get now reg i of
             None \<Rightarrow> None
           | Some srv \<Rightarrow> if sv_online srv then Some srv else None)"

definition pong_frame :: "byte list \<Rightarrow> byte list" where
  "pong_frame payload = append_varint [] (to_int32 (int (length payload))) @ payload"

definition handle_status ::
  "router_config \<Rightarrow> time \<Rightarrow> registry \<Rightarrow> string \<Rightarrow> handshake \<Rightarrow> byte list \<Rightarrow> status_cache \<Rightarrow> kv_store
    \<Rightarrow> status_out \<times> status_cache \<times> kv_store" where
  "handle_status cfg now reg client_ip hs input cache st =
     (case status_target cfg now reg hs of
        Some srv \<Rightarrow> (ST_pipe srv, cache, st)
      | None \<Rightarrow>
          (case read_frame input of
             Inl _ \<Rightarrow> (ST_answer [], cache, st)
           | Inr ((_, payload), input) \<Rightarrow>
               if length payload \<noteq> 1 then (ST_answer [], cache, st)
               else let (doc, cache, st) = status_doc cfg now reg (hs_protocol hs) client_ip cache st;
                        out = status_response doc
                    in (ST_answer (case read_frame input of
                                     Inl _ \<Rightarrow> out
                                   | Inr ((_, payload), _) \<Rightarrow>
                                       if payload = [] \<or> hd payload \<noteq> 1 then out else out @ pong_frame payload),
                        cache, st)))"

text \<open>\<^verbatim>\<open>handle\<close>: the whole of a connection. The limiter slot is given back when the handler returns.\<close>

record gateway =
  gw_cache :: status_cache
  gw_store :: kv_store
  gw_limiter :: limiter

datatype handled =
    H_closed
  | H_answer "byte list"
  | H_status server piped
  | H_login served

definition handle ::
  "hmac \<Rightarrow> (server \<Rightarrow> byte list option) option \<Rightarrow> (server \<Rightarrow> net_addr option) \<Rightarrow> byte list
    \<Rightarrow> (string \<Rightarrow> ip option) \<Rightarrow> (net_addr \<Rightarrow> string) \<Rightarrow> router_config \<Rightarrow> time \<Rightarrow> registry \<Rightarrow> net_addr \<Rightarrow> byte list
    \<Rightarrow> gateway \<Rightarrow> handled \<times> gateway" where
  "handle hmac keys dialer nonce parse_ip ip_string cfg now reg remote input g =
     (case handle_open cfg parse_ip ip_string now remote input (gw_limiter g) of
        (None, l) \<Rightarrow> (H_closed, g\<lparr>gw_limiter := l\<rparr>)
      | (Some op, l) \<Rightarrow>
          let client_ip = ip_string (op_client op); hs = op_hs op; done_l = release_slot (op_release op) l in
          if hs_intent hs = IntentStatus
          then (case handle_status cfg now reg client_ip hs (op_input op) (gw_cache g) (gw_store g) of
                  (out, cache, st) \<Rightarrow>
                    (case out of
                       ST_answer bs \<Rightarrow> H_answer bs
                     | ST_pipe srv \<Rightarrow>
                         H_status srv (pipe hmac keys (dialer srv) now nonce (op_client op) (hs_intent hs) srv [op_hs_raw op]),
                     \<lparr>gw_cache = cache, gw_store = st, gw_limiter = done_l\<rparr>))
          else if hs_intent hs = IntentLogin \<or> hs_intent hs = IntentTransfer
          then (case serve_login hmac keys dialer nonce cfg now reg client_ip op (gw_store g) of
                  (r, st) \<Rightarrow> (H_login r, \<lparr>gw_cache = gw_cache g, gw_store = st, gw_limiter = done_l\<rparr>))
          else (H_closed, g\<lparr>gw_limiter := done_l\<rparr>))"

section \<open>Lemmas\<close>

definition shown :: "server list \<Rightarrow> server list" where
  "shown ss = filter (\<lambda>s. \<not> sv_hidden s) ss"

lemma summary_loop_eq:
  "summary_loop p ss s =
     s\<lparr>ss_players := ss_players s + sum_list (map sv_players (shown ss)),
       ss_max_players := ss_max_players s + sum_list (map sv_max_players (shown ss)),
       ss_compatible := ss_compatible s + length (filter (\<lambda>srv. accepts srv p) (shown ss)),
       ss_samples := ss_samples s @ map (sample_name p) (shown ss)\<rparr>"
  by (induction ss arbitrary: s) (simp_all add: shown_def)

lemma build_summary_eq:
  "build_summary now reg p =
     \<lparr>ss_built = now, ss_players = sum_list (map sv_players (visible_online now reg)),
      ss_max_players = sum_list (map sv_max_players (visible_online now reg)),
      ss_compatible = length (open_to now reg p), ss_samples = map (sample_name p) (visible_online now reg)\<rparr>"
  by (simp add: build_summary_def summary_loop_eq shown_def visible_online_def open_to_def)

text \<open>A cache in which every entry is the summary of the registry at the time it was built.\<close>

definition cached :: "(time \<Rightarrow> registry) \<Rightarrow> int \<times> status_summary \<Rightarrow> bool" where
  "cached hist e \<longleftrightarrow> (case e of (p, s) \<Rightarrow> s = build_summary (ss_built s) (hist (ss_built s)) p)"

definition cache_ok :: "(time \<Rightarrow> registry) \<Rightarrow> status_cache \<Rightarrow> bool" where
  "cache_ok hist cache \<longleftrightarrow> list_all (cached hist) cache \<and> length cache \<le> 257"

lemma built_now [simp]: "ss_built (build_summary now reg p) = now"
  by (simp add: build_summary_eq)

lemma cached_build: "cached hist (p, build_summary now (hist now) p)"
  by (simp add: cached_def)

lemma length_update_le: "length (AList.update k v xs) \<le> Suc (length xs)"
  by (induction xs) auto

lemma length_update_same: "map_of xs k = Some v' \<Longrightarrow> length (AList.update k v xs) = length xs"
  by (induction xs) (auto split: if_splits)

section \<open>Properties\<close>

text \<open>C33: a server list entry is at most two seconds old: whatever the cache holds, the summary a client
  is shown is the one of the registry at its build time, less than two seconds ago, for the client's
  own protocol; and the cache never grows beyond 257 protocols, whatever clients claim.\<close>

theorem summary_fresh:
  assumes "cache_ok hist cache"
  shows "cache_ok hist (snd (summary now (hist now) p cache))
    \<and> now - ss_built (fst (summary now (hist now) p cache)) < 2000000000
    \<and> fst (summary now (hist now) p cache)
      = build_summary (ss_built (fst (summary now (hist now) p cache)))
          (hist (ss_built (fst (summary now (hist now) p cache)))) p"
proof (cases "\<exists>s. map_of cache p = Some s \<and> now - ss_built s < statusCacheTTL")
  case True
  then obtain s where s: "map_of cache p = Some s" "now - ss_built s < statusCacheTTL" by blast
  have "cached hist (p, s)"
    using assms map_of_list_all [OF _ s(1)] by (auto simp: cache_ok_def)
  with s assms show ?thesis by (simp add: summary_def cached_def statusCacheTTL_def)
next
  case False
  define c where "c = (if length cache > 256 then [] else cache)"
  have "summary now (hist now) p cache = (build_summary now (hist now) p, AList.update p (build_summary now (hist now) p) c)"
    using False by (auto simp: summary_def c_def Let_def split: option.splits)
  moreover have "cache_ok hist (AList.update p (build_summary now (hist now) p) c)"
    using assms length_update_le [of p "build_summary now (hist now) p" c] cached_build [of hist p now]
    by (auto simp: cache_ok_def c_def intro!: list_all_update)
  ultimately show ?thesis by simp
qed

definition demo_cache :: status_cache where
  "demo_cache = snd (summary 5000000000 demo_reg 767 [])"

theorem summary_fresh_witness:
  "6000000000 - ss_built (fst (summary 6000000000 demo_reg 767 demo_cache)) < 2000000000"
proof -
  have "cache_ok (\<lambda>_. demo_reg) demo_cache" by code_simp
  from summary_fresh [OF this, of 6000000000 767] show ?thesis by simp
qed

text \<open>The numbers of a server list entry are those of the servers that players can be sent to:
  online and not hidden, each listed once by name in the order of the ids; as compatible count exactly
  those that accept the client's protocol.\<close>

theorem summary_counts:
  assumes "reg_inv reg"
  shows "ss_players (build_summary now reg p) = sum_list (map sv_players (visible_online now reg))
    \<and> ss_max_players (build_summary now reg p) = sum_list (map sv_max_players (visible_online now reg))
    \<and> ss_compatible (build_summary now reg p)
      = card {srv. reg_get now reg (sv_id srv) = Some srv \<and> sv_online srv \<and> \<not> sv_hidden srv \<and> accepts srv p}
    \<and> length (ss_samples (build_summary now reg p))
      = card {srv. reg_get now reg (sv_id srv) = Some srv \<and> sv_online srv \<and> \<not> sv_hidden srv}"
proof -
  have d: "distinct (visible_online now reg)"
    using registry_dir.listing_distinct [OF assms, of now] by (simp add: visible_online_def reg_online_def distinct_map)
  have "set (visible_online now reg) = {srv. reg_get now reg (sv_id srv) = Some srv \<and> sv_online srv \<and> \<not> sv_hidden srv}"
    "set (open_to now reg p) = {srv. reg_get now reg (sv_id srv) = Some srv \<and> sv_online srv \<and> \<not> sv_hidden srv \<and> accepts srv p}"
    using set_visible_online [OF assms] by (auto simp: open_to_def)
  moreover have "card (set (visible_online now reg)) = length (visible_online now reg)"
    "card (set (open_to now reg p)) = length (open_to now reg p)"
    using d by (auto intro!: distinct_card simp: open_to_def simp del: set_filter)
  ultimately show ?thesis by (simp add: build_summary_eq)
qed

theorem summary_counts_witness:
  "ss_compatible (build_summary 5000000000 demo_reg 767)
     = card {srv. reg_get 5000000000 demo_reg (sv_id srv) = Some srv \<and> sv_online srv \<and> \<not> sv_hidden srv \<and> accepts srv 767}"
proof -
  have "reg_inv demo_reg" by code_simp
  from summary_counts [OF this, of 5000000000 767] show ?thesis by simp
qed

lemma pong_frame_eq: "pong_frame payload = frame_of payload"
  by (simp add: pong_frame_def frame_of_def)

text \<open>A client that asks for the status and then pings is answered with the document and with its
  own ping: the second frame is a well-formed one that carries exactly the bytes it sent.\<close>

theorem status_ping:
  assumes "status_target cfg now reg hs = None"
    and "read_frame input = Inr ((raw, [b]), input')"
    and "read_frame input' = Inr ((raw', 1 # ping), input'')"
  shows "\<exists>doc. fst (handle_status cfg now reg ip hs input cache st) = ST_answer (status_response doc @ pong_frame (1 # ping))
     \<and> doc = fst (status_doc cfg now reg (hs_protocol hs) ip cache st)
     \<and> read_frame (pong_frame (1 # ping) @ rest) = Inr ((pong_frame (1 # ping), 1 # ping), rest)"
proof -
  have "length (1 # ping) \<le> MaxFrameLen" using read_frame_Inr(3) [OF assms(3)] by simp
  then have "read_frame (pong_frame (1 # ping) @ rest) = Inr ((pong_frame (1 # ping), 1 # ping), rest)"
    unfolding pong_frame_eq by (intro read_frame_put) simp_all
  then show ?thesis
    using assms by (simp add: handle_status_def split: prod.splits)
qed

theorem status_ping_witness:
  "\<exists>doc. fst (handle_status demo_cfg 5000000000 demo_reg ''203.0.113.9'' demo_hs [1, 0, 3, 1, 8, 9] [] demo_choice)
      = ST_answer (status_response doc @ pong_frame [1, 8, 9])
     \<and> doc = fst (status_doc demo_cfg 5000000000 demo_reg (hs_protocol demo_hs) ''203.0.113.9'' [] demo_choice)
     \<and> read_frame (pong_frame [1, 8, 9] @ [5]) = Inr ((pong_frame [1, 8, 9], [1, 8, 9]), [5])"
proof (rule status_ping)
  show "status_target demo_cfg 5000000000 demo_reg demo_hs = None" by code_simp
  show "read_frame [1, 0, 3, 1, 8, 9] = Inr (([1, 0], [0]), [3, 1, 8, 9])" by code_simp
  show "read_frame [3, 1, 8, 9] = Inr (([3, 1, 8, 9], [1, 8, 9]), [])" by code_simp
qed

text \<open>The description of the document is the plain encoding of the Go struct, so it has no field
  that a Minecraft client looks for: neither \<^verbatim>\<open>text\<close> nor \<^verbatim>\<open>extra\<close>, but \<^verbatim>\<open>Text\<close> and \<^verbatim>\<open>Extra\<close>.\<close>

theorem status_description_fields:
  "\<exists>fs rest. fst (status_doc cfg now reg p ip cache st) = J_obj ((''description'', J_obj fs) # rest)
     \<and> map fst fs = [''Text'', ''Color'', ''Bold'', ''Italic'', ''Click'', ''Hover'', ''Extra'']
     \<and> ''text'' \<notin> fst ` set fs \<and> ''extra'' \<notin> fst ` set fs"
  by (simp add: status_doc_def Join_def Let_def split: prod.splits)

end
