(* ===== verification/Limbo_Packets.thy ===== *)
theory Limbo_Packets
  imports Base
begin

text \<open>
  \<^verbatim>\<open>internal/limbo/zz_packets_gen.go\<close>: the packet IDs of every protocol version that the limbo speaks, in the
  order of the fields of \<^verbatim>\<open>packetIDs\<close> (-1 is a packet the version does not have), and the names of the
  embedded registry data.
\<close>

record packet_ids =
  pi_login :: int
  pi_position :: int
  pi_spawn_position :: int
  pi_keep_alive :: int
  pi_chat :: int
  pi_system_chat :: int
  pi_abilities :: int
  pi_game_event :: int
  pi_center_chunk :: int
  pi_chunk_data :: int
  pi_commands :: int
  pi_disconnect :: int
  pi_plugin_message :: int
  pi_in_keep_alive :: int
  pi_in_chat :: int
  pi_in_chat_command :: int
  pi_in_teleport_confirm :: int
  pi_in_plugin_message :: int
  pi_cfg_registry_data :: int
  pi_cfg_feature_flags :: int
  pi_cfg_finish :: int
  pi_cfg_keep_alive :: int
  pi_cfg_plugin_message :: int
  pi_cfg_disconnect :: int
  pi_in_cfg_finish :: int
  pi_in_cfg_keep_alive :: int
  pi_in_cfg_plugin_message :: int

definition packet_table :: "(int \<times> packet_ids) list" where
  "packet_table =
    [(5, packet_ids.make 1 8 5 0 2 (-1) 57 43 (-1) 33 (-1) 64 63 0 1 (-1) (-1) 23 (-1) (-1) (-1) (-1) (-1) (-1) (-1) (-1) (-1)),
     (47, packet_ids.make 1 8 5 0 2 (-1) 57 43 (-1) 33 (-1) 64 63 0 1 (-1) (-1) 23 (-1) (-1) (-1) (-1) (-1) (-1) (-1) (-1) (-1)),
     (107, packet_ids.make 35 46 67 31 15 (-1) 43 30 (-1) 32 (-1) 26 24 11 2 (-1) 0 9 (-1) (-1) (-1) (-1) (-1) (-1) (-1) (-1) (-1)),
     (108, packet_ids.make 35 46 67 31 15 (-1) 43 30 (-1) 32 (-1) 26 24 11 2 (-1) 0 9 (-1) (-1) (-1) (-1) (-1) (-1) (-1) (-1) (-1)),
     (109, packet_ids.make 35 46 67 31 15 (-1) 43 30 (-1) 32 (-1) 26 24 11 2 (-1) 0 9 (-1) (-1) (-1) (-1) (-1) (-1) (-1) (-1) (-1)),
     (110, packet_ids.make 35 46 67 31 15 (-1) 43 30 (-1) 32 (-1) 26 24 11 2 (-1) 0 9 (-1) (-1) (-1) (-1) (-1) (-1) (-1) (-1) (-1)),
     (210, packet_ids.make 35 46 67 31 15 (-1) 43 30 (-1) 32 (-1) 26 24 11 2 (-1) 0 9 (-1) (-1) (-1) (-1) (-1) (-1) (-1) (-1) (-1)),
     (315, packet_ids.make 35 46 67 31 15 (-1) 43 30 (-1) 32 (-1) 26 24 11 2 (-1) 0 9 (-1) (-1) (-1) (-1) (-1) (-1) (-1) (-1) (-1)),
     (316, packet_ids.make 35 46 67 31 15 (-1) 43 30 (-1) 32 (-1) 26 24 11 2 (-1) 0 9 (-1) (-1) (-1) (-1) (-1) (-1) (-1) (-1) (-1)),
     (335, packet_ids.make 35 46 69 31 15 (-1) 43 30 (-1) 32 (-1) 26 24 12 3 (-1) 0 10 (-1) (-1) (-1) (-1) (-1) (-1) (-1) (-1) (-1)),
     (338, packet_ids.make 35 47 70 31 15 (-1) 44 30 (-1) 32 (-1) 26 24 11 2 (-1) 0 9 (-1) (-1) (-1) (-1) (-1) (-1) (-1) (-1) (-1)),
     (340, packet_ids.make 35 47 70 31 15 (-1) 44 30 (-1) 32 (-1) 26 24 11 2 (-1) 0 9 (-1) (-1) (-1) (-1) (-1) (-1) (-1) (-1) (-1)),
     (393, packet_ids.make 37 50 73 33 14 (-1) 46 32 (-1) 34 17 27 25 14 2 (-1) 0 10 (-1) (-1) (-1) (-1) (-1) (-1) (-1) (-1) (-1)),
     (401, packet_ids.make 37 50 73 33 14 (-1) 46 32 (-1) 34 17 27 25 14 2 (-1) 0 10 (-1) (-1) (-1) (-1) (-1) (-1) (-1) (-1) (-1)),
     (404, packet_ids.make 37 50 73 33 14 (-1) 46 32 (-1) 34 17 27 25 14 2 (-1) 0 10 (-1) (-1) (-1) (-1) (-1) (-1) (-1) (-1) (-1)),
     (477, packet_ids.make 37 53 77 32 14 (-1) 49 30 64 33 17 26 24 15 3 (-1) 0 11 (-1) (-1) (-1) (-1) (-1) (-1) (-1) (-1) (-1)),
     (480, packet_ids.make 37 53 77 32 14 (-1) 49 30 64 33 17 26 24 15 3 (-1) 0 11 (-1) (-1) (-1) (-1) (-1) (-1) (-1) (-1) (-1)),
     (485, packet_ids.make 37 53 77 32 14 (-1) 49 30 64 33 17 26 24 15 3 (-1) 0 11 (-1) (-1) (-1) (-1) (-1) (-1) (-1) (-1) (-1)),
     (490, packet_ids.make 37 53 77 32 14 (-1) 49 30 64 33 17 26 24 15 3 (-1) 0 11 (-1) (-1) (-1) (-1) (-1) (-1) (-1) (-1) (-1)),
     (498, packet_ids.make 37 53 77 32 14 (-1) 49 30 64 33 17 26 24 15 3 (-1) 0 11 (-1) (-1) (-1) (-1) (-1) (-1) (-1) (-1) (-1)),
     (573, packet_ids.make 38 54 78 33 15 (-1) 50 31 65 34 18 27 25 15 3 (-1) 0 11 (-1) (-1) (-1) (-1) (-1) (-1) (-1) (-1) (-1)),
     (575, packet_ids.make 38 54 78 33 15 (-1) 50 31 65 34 18 27 25 15 3 (-1) 0 11 (-1) (-1) (-1) (-1) (-1) (-1) (-1) (-1) (-1)),
     (578, packet_ids.make 38 54 78 33 15 (-1) 50 31 65 34 18 27 25 15 3 (-1) 0 11 (-1) (-1) (-1) (-1) (-1) (-1) (-1) (-1) (-1)),
     (735, packet_ids.make 37 53 66 32 14 (-1) 49 30 64 33 17 26 24 16 3 (-1) 0 11 (-1) (-1) (-1) (-1) (-1) (-1) (-1) (-1) (-1)),
     (736, packet_ids.make 37 53 66 32 14 (-1) 49 30 64 33 17 26 24 16 3 (-1) 0 11 (-1) (-1) (-1) (-1) (-1) (-1) (-1) (-1) (-1)),
     (751, packet_ids.make 36 52 66 31 14 (-1) 48 29 64 32 16 25 23 16 3 (-1) 0 11 (-1) (-1) (-1) (-1) (-1) (-1) (-1) (-1) (-1)),
     (753, packet_ids.make 36 52 66 31 14 (-1) 48 29 64 32 16 25 23 16 3 (-1) 0 11 (-1) (-1) (-1) (-1) (-1) (-1) (-1) (-1) (-1)),
     (754, packet_ids.make 36 52 66 31 14 (-1) 48 29 64 32 16 25 23 16 3 (-1) 0 11 (-1) (-1) (-1) (-1) (-1) (-1) (-1) (-1) (-1)),
     (755, packet_ids.make 38 56 75 33 15 (-1) 50 30 73 34 18 26 24 15 3 (-1) 0 10 (-1) (-1) (-1) (-1) (-1) (-1) (-1) (-1) (-1)),
     (756, packet_ids.make 38 56 75 33 15 (-1) 50 30 73 34 18 26 24 15 3 (-1) 0 10 (-1) (-1) (-1) (-1) (-1) (-1) (-1) (-1) (-1)),
     (757, packet_ids.make 38 56 75 33 15 (-1) 50 30 73 34 18 26 24 15 3 (-1) 0 10 (-1) (-1) (-1) (-1) (-1) (-1) (-1) (-1) (-1)),
     (758, packet_ids.make 38 56 75 33 15 (-1) 50 30 73 34 18 26 24 15 3 (-1) 0 10 (-1) (-1) (-1) (-1) (-1) (-1) (-1) (-1) (-1)),
     (759, packet_ids.make 35 54 74 30 (-1) 95 47 27 72 31 15 23 21 17 4 3 0 12 (-1) (-1) (-1) (-1) (-1) (-1) (-1) (-1) (-1)),
     (760, packet_ids.make 37 57 77 32 (-1) 98 49 29 75 33 15 25 22 18 5 4 0 13 (-1) (-1) (-1) (-1) (-1) (-1) (-1) (-1) (-1)),
     (761, packet_ids.make 36 56 76 31 (-1) 96 48 28 74 32 14 23 21 17 5 4 0 12 (-1) (-1) (-1) (-1) (-1) (-1) (-1) (-1) (-1)),
     (762, packet_ids.make 40 60 80 35 (-1) 100 52 31 78 36 16 26 23 18 5 4 0 13 (-1) (-1) (-1) (-1) (-1) (-1) (-1) (-1) (-1)),
     (763, packet_ids.make 40 60 80 35 (-1) 100 52 31 78 36 16 26 23 18 5 4 0 13 (-1) (-1) (-1) (-1) (-1) (-1) (-1) (-1) (-1)),
     (764, packet_ids.make 41 62 82 36 (-1) 103 54 32 80 37 17 27 24 20 5 4 0 15 5 7 2 3 0 1 2 3 1),
     (765, packet_ids.make 41 62 84 36 (-1) 105 54 32 82 37 17 27 24 21 5 4 0 16 5 8 2 3 0 1 2 3 1)]"

definition codec_files :: "(int \<times> string) list" where
  "codec_files =
    [(735, ''data/codec_1.16.nbt.gz''),
     (736, ''data/codec_1.16.nbt.gz''),
     (751, ''data/codec_1.16.2.nbt.gz''),
     (753, ''data/codec_1.16.2.nbt.gz''),
     (754, ''data/codec_1.16.2.nbt.gz''),
     (755, ''data/codec_1.17.nbt.gz''),
     (756, ''data/codec_1.17.nbt.gz''),
     (757, ''data/codec_1.18.nbt.gz''),
     (758, ''data/codec_1.18.2.nbt.gz''),
     (759, ''data/codec_1.19.nbt.gz''),
     (760, ''data/codec_1.19.2.nbt.gz''),
     (761, ''data/codec_1.19.2.nbt.gz''),
     (762, ''data/codec_1.19.4.nbt.gz''),
     (763, ''data/codec_1.20.nbt.gz''),
     (764, ''data/codec_1.20.2.nbt.gz''),
     (765, ''data/codec_1.20.2.nbt.gz'')]"

definition dimension_files :: "(int \<times> string) list" where
  "dimension_files =
    [(751, ''data/dim_1.16.2.nbt.gz''),
     (753, ''data/dim_1.16.2.nbt.gz''),
     (754, ''data/dim_1.16.2.nbt.gz''),
     (755, ''data/dim_1.17.nbt.gz''),
     (756, ''data/dim_1.17.nbt.gz''),
     (757, ''data/dim_1.18.nbt.gz''),
     (758, ''data/dim_1.18.2.nbt.gz'')]"

text \<open>\<^verbatim>\<open>Supported\<close>.\<close>

definition supported :: "int \<Rightarrow> bool" where
  "supported protocol \<longleftrightarrow> map_of packet_table protocol \<noteq> None"

end
