(* ===== verification/Limbo.thy ===== *)
theory Limbo
  imports Limbo_Packets Lobby_Probe Chat_Text Kv_Store Registry
begin

text \<open>
  \<^verbatim>\<open>internal/limbo/limbo.go\<close>: the empty world in which clients before 1.20.5 choose a server from a chat
  menu. A packet is built by the sequence of appends that the Go code chains. Floating-point fields are
  their IEEE bit patterns. The state \<open>'s\<close> is what the callbacks \<^verbatim>\<open>Entries\<close> and \<^verbatim>\<open>Choose\<close> of the caller work on.

  Parameters: the MD5 sum, and \<open>load\<close>, the uncompressed contents of the embedded data files. Writes to the
  client succeed; the session's overall deadline is the end of its events. The sleep for 1.7 clients is
  not modelled.

  The lemmas show that a click on a menu line, in every supported version, makes the caller choose that
  server, that nothing else ends the session but a choice and the end of the connection, and what UUID
  a player gets.
\<close>

section \<open>Building packets\<close>

definition build :: "int \<Rightarrow> (byte list \<Rightarrow> byte list) list \<Rightarrow> byte list" where
  "build i fs = frame_of (fold (\<lambda>f p. f p) fs (new_packet i))"

text \<open>\<^verbatim>\<open>Float32\<close> and \<^verbatim>\<open>Float64\<close>, given the bits of the number.\<close>

definition b_float32 :: "nat \<Rightarrow> byte list \<Rightarrow> byte list" where
  "b_float32 bits p = p @ be_enc 4 bits"

definition b_float64 :: "nat \<Rightarrow> byte list \<Rightarrow> byte list" where
  "b_float64 bits p = p @ be_enc 8 bits"

section \<open>Options\<close>

record limbo_entry =
  le_id :: string
  le_name :: string
  le_detail :: string
  le_recommended :: bool

record limbo_opts =
  lo_protocol :: int
  lo_name :: string
  lo_uuid :: "byte list"
  lo_title :: string

definition set_version :: "byte list \<Rightarrow> byte list" where
  "set_version u = u[6 := (u ! 6 AND 0x0f) OR 0x30, 8 := (u ! 8 AND 0x3f) OR 0x80]"

definition offline_uuid :: "(byte list \<Rightarrow> byte list) \<Rightarrow> string \<Rightarrow> byte list" where
  "offline_uuid md5 name = set_version (md5 (bytes (''OfflinePlayer:'' @ name)))"

definition hex_string :: "byte list \<Rightarrow> string" where
  "hex_string bs = str (concat (map (\<lambda>b. [hex_digit (unat b div 16), hex_digit (unat b mod 16)]) bs))"

definition uuid_string :: "byte list \<Rightarrow> string" where
  "uuid_string u =
     (let h = hex_string u in
      take 8 h @ ''-'' @ take 4 (drop 8 h) @ ''-'' @ take 4 (drop 12 h) @ ''-'' @ take 4 (drop 16 h) @ ''-'' @ drop 20 h)"

section \<open>Login and configuration\<close>

fun wait_for :: "(byte list \<Rightarrow> bool) \<Rightarrow> client_event list \<Rightarrow> client_event list option" where
  "wait_for found [] = None"
| "wait_for found (Packet pl # es) = (if pl \<noteq> [] \<and> found pl then Some es else wait_for found es)"
| "wait_for found (Timeout # es) = None"
| "wait_for found (Tick t # es) = wait_for found es"

definition packet_id :: "byte list \<Rightarrow> int" where
  "packet_id pl = (case read_varint pl of Inl _ \<Rightarrow> -1 | Inr (i, _) \<Rightarrow> i)"

text \<open>\<^verbatim>\<open>loadCompound\<close>: the embedded file for a version, if there is one.\<close>

definition load_compound :: "(string \<Rightarrow> byte list option) \<Rightarrow> (int \<times> string) list \<Rightarrow> int \<Rightarrow> byte list option" where
  "load_compound load files p = (case map_of files p of None \<Rightarrow> None | Some path \<Rightarrow> load path)"

definition limbo_success :: "limbo_opts \<Rightarrow> byte list" where
  "limbo_success o' =
     build LoginSuccessID
       ([if lo_protocol o' < 735 then b_string (uuid_string (lo_uuid o')) else b_raw (lo_uuid o'), b_string (lo_name o')]
        @ (if lo_protocol o' \<ge> 759 then [b_varint 0] else []))"

definition config_frames :: "packet_ids \<Rightarrow> byte list \<Rightarrow> byte list" where
  "config_frames ids codec =
     build (pi_cfg_plugin_message ids) [b_string ''neoforge:register'', b_varint 0, b_varint 0]
     @ build (pi_cfg_plugin_message ids) [b_string ''minecraft:brand'', b_string ''vecta'']
     @ build (pi_cfg_registry_data ids) [b_raw (compound_payload_nbt codec False)]
     @ build (pi_cfg_feature_flags ids) [b_varint 1, b_string ''minecraft:vanilla'']
     @ build (pi_cfg_finish ids) []"

text \<open>\<^verbatim>\<open>login\<close>: what is written, and the remaining events unless it fails.\<close>

definition limbo_login ::
  "(string \<Rightarrow> byte list option) \<Rightarrow> packet_ids \<Rightarrow> limbo_opts \<Rightarrow> client_event list \<Rightarrow> byte list \<times> client_event list option" where
  "limbo_login load ids o' es =
     (let out = limbo_success o' in
      if lo_protocol o' < 764 then (out, Some es)
      else case wait_for (\<lambda>pl. uint (hd pl) = LoginAcknowledgedID) es of
             None \<Rightarrow> (out, None)
           | Some es \<Rightarrow>
               (case load_compound load codec_files (lo_protocol o') of
                  None \<Rightarrow> (out, None)
                | Some codec \<Rightarrow>
                    (out @ config_frames ids codec, wait_for (\<lambda>pl. packet_id pl = pi_in_cfg_finish ids) es)))"

section \<open>The world\<close>

definition overworld :: string where
  "overworld = ''minecraft:overworld''"

definition join_game :: "(string \<Rightarrow> byte list option) \<Rightarrow> packet_ids \<Rightarrow> int \<Rightarrow> byte list option" where
  "join_game load ids p =
     map_option (\<lambda>fs. build (pi_login ids) (b_int32 1 # fs))
      (if p < 477
       then Some ([b_byte 2, if p < 108 then b_byte 0 else b_int32 0, b_byte 0, b_byte 20, b_string ''flat'']
                  @ (if p \<ge> 47 then [b_bool False] else []))
       else if p < 573
       then Some [b_byte 2, b_int32 0, b_byte 20, b_string ''flat'', b_varint 2, b_bool False]
       else if p < 735
       then Some [b_byte 2, b_int32 0, b_int64 0, b_byte 20, b_string ''flat'', b_varint 2, b_bool False, b_bool True]
       else if p < 751
       then (case load_compound load codec_files p of
               None \<Rightarrow> None
             | Some codec \<Rightarrow>
                 Some [b_byte 2, b_byte 0xFF, b_varint 1, b_string overworld, b_raw (compound_payload_nbt codec True),
                       b_string overworld, b_string overworld, b_int64 0, b_byte 20, b_varint 2,
                       b_bool False, b_bool True, b_bool False, b_bool True])
       else if p < 764
       then (case load_compound load codec_files p of
               None \<Rightarrow> None
             | Some codec \<Rightarrow>
                 map_option (\<lambda>dim.
                     [b_bool False, b_byte 2, b_byte 0xFF, b_varint 1, b_string overworld,
                      b_raw (compound_payload_nbt codec True), dim, b_string overworld, b_int64 0, b_varint 20, b_varint 2]
                     @ (if p \<ge> 757 then [b_varint 2] else [])
                     @ [b_bool False, b_bool True, b_bool False, b_bool True]
                     @ (if p \<ge> 759 then [b_bool False] else [])
                     @ (if p \<ge> 763 then [b_varint 0] else []))
                   (if p < 759
                    then map_option (\<lambda>dim. b_raw (compound_payload_nbt dim True)) (load_compound load dimension_files p)
                    else Some (b_string overworld)))
       else Some [b_bool False, b_varint 1, b_string overworld, b_varint 20, b_varint 2, b_varint 2,
                  b_bool False, b_bool True, b_bool False,
                  b_string overworld, b_string overworld, b_int64 0, b_byte 2, b_byte 0xFF,
                  b_bool False, b_bool True, b_bool False, b_varint 0])"

definition spawnY :: int where
  "spawnY = 400"

definition spawn_position :: "packet_ids \<Rightarrow> int \<Rightarrow> byte list" where
  "spawn_position ids p =
     build (pi_spawn_position ids)
       ((if p < 47 then [b_int32 0, b_int32 spawnY, b_int32 0]
         else if p < 477 then [b_int64 (push_bit 26 (spawnY AND 0xFFF))]
         else [b_int64 (spawnY AND 0xFFF)])
        @ (if p \<ge> 755 then [b_float32 0] else []))"

text \<open>The bits of 0.5, 400 and 401.62.\<close>

definition position :: "packet_ids \<Rightarrow> int \<Rightarrow> byte list" where
  "position ids p =
     (let half = b_float64 0x3FE0000000000000 in
      if p < 47
      then build (pi_position ids) [half, b_float64 0x407919EB851EB852, half, b_float32 0, b_float32 0, b_bool False]
      else build (pi_position ids)
        ([half, b_float64 0x4079000000000000, half, b_float32 0, b_float32 0, b_byte 0]
         @ (if p \<ge> 107 then [b_varint 1] else [])
         @ (if p \<ge> 755 \<and> p < 762 then [b_bool False] else [])))"

definition commands :: "packet_ids \<Rightarrow> int \<Rightarrow> byte list" where
  "commands ids p =
     build (pi_commands ids)
       ([b_varint 4,
         b_byte 0, b_varint 2, b_varint 1, b_varint 2,
         b_byte 1, b_varint 1, b_varint 3, b_string ''join'',
         b_byte (0x01 OR 0x04), b_varint 0, b_string ''servers'',
         b_byte (0x02 OR 0x04), b_varint 0, b_string ''server'']
        @ (if p < 759 then [b_string ''brigadier:string''] else [b_varint 5])
        @ [b_varint 0, b_varint 0])"

definition empty_chunk :: "packet_ids \<Rightarrow> byte list" where
  "empty_chunk ids =
     (let data = concat (replicate 24 [0, 0, 0, 0, 0, 0, 0, 0]); light = 2 ^ 26 - 1 in
      build (pi_chunk_data ids)
        [b_int32 0, b_int32 0, b_raw (network_nbt (N_compound [(''MOTION_BLOCKING'', N_longs (replicate 37 0))])),
         b_byte_array data, b_varint 0, b_varint 0, b_varint 0, b_varint 1, b_int64 light, b_varint 1, b_int64 light,
         b_varint 0, b_varint 0])"

text \<open>The bits of 0.05 and 0.1 as \<^verbatim>\<open>float32\<close>.\<close>

definition spawn :: "(string \<Rightarrow> byte list option) \<Rightarrow> packet_ids \<Rightarrow> int \<Rightarrow> byte list option" where
  "spawn load ids p =
     map_option (\<lambda>join.
        join
        @ (if p \<ge> 393 \<and> p < 764
           then build (pi_plugin_message ids) [b_string ''minecraft:brand'', b_string ''vecta''] else [])
        @ build (pi_abilities ids) [b_byte (0x01 OR 0x02 OR 0x04), b_float32 0x3D4CCCCD, b_float32 0x3DCCCCCD]
        @ spawn_position ids p @ position ids p
        @ (if p \<ge> 393 then commands ids p else [])
        @ (if p \<ge> 765 then build (pi_game_event ids) [b_byte 13, b_float32 0] else [])
        @ (if p \<ge> 764 then build (pi_center_chunk ids) [b_varint 0, b_varint 0] @ empty_chunk ids else []))
      (join_game load ids p)"

section \<open>The chat menu\<close>

definition limbo_chat :: "packet_ids \<Rightarrow> int \<Rightarrow> text_comp \<Rightarrow> byte list" where
  "limbo_chat ids p t =
     (if p < 47 then build (pi_chat ids) [b_string (text_json t)]
      else if p < 735 then build (pi_chat ids) [b_string (text_json t), b_byte 1]
      else if p < 759 then build (pi_chat ids) [b_string (text_json t), b_byte 1, b_raw (replicate 16 0)]
      else if p = 759 then build (pi_system_chat ids) [b_string (text_json t), b_varint 1]
      else if p < 765 then build (pi_system_chat ids) [b_string (text_json t), b_bool False]
      else build (pi_system_chat ids) [b_raw (network_nbt (text_nbt t)), b_bool False])"

definition limbo_disconnect :: "packet_ids \<Rightarrow> int \<Rightarrow> text_comp \<Rightarrow> byte list" where
  "limbo_disconnect ids p t =
     (if p \<ge> 765 then build (pi_disconnect ids) [b_raw (network_nbt (text_nbt t))]
      else build (pi_disconnect ids) [b_string (text_json t)])"

definition menu_line :: "limbo_entry \<Rightarrow> text_comp" where
  "menu_line e =
     (let hover = T (''Click to join '' @ le_name e);
          click = ''/join '' @ le_id e;
          name = Text (le_name e) (if le_recommended e then ''green'' else ''aqua'') (le_recommended e) False click
                   (Some hover) [];
          arrow = Text ''  [Join] '' ''yellow'' False False click (Some hover) []
      in Join [arrow, name, C (''  '' @ le_detail e) ''gray''])"

definition menu_lines :: "string \<Rightarrow> limbo_entry list \<Rightarrow> text_comp list" where
  "menu_lines title entries =
     [C [] ''white'', Text (str [0xC2, 0xBB] @ '' '' @ (if title = [] then ''Choose a server'' else title)) ''gold'' True False []
        None []]
     @ (if entries = [] then [C ''  No server accepts your version right now.'' ''red''] else [])
     @ map menu_line entries
     @ [C ''Click a server, or type /join <id>. /servers refreshes the list.'' ''dark_gray'']"

definition send_menu :: "packet_ids \<Rightarrow> limbo_opts \<Rightarrow> limbo_entry list \<Rightarrow> byte list" where
  "send_menu ids o' entries =
     concat (map (limbo_chat ids (lo_protocol o')) (menu_lines (lo_title o') entries))"

text \<open>\<^verbatim>\<open>command\<close>: the slash command in a chat packet.\<close>

definition limbo_command :: "packet_ids \<Rightarrow> int \<Rightarrow> byte list \<Rightarrow> string option" where
  "limbo_command ids p pl =
     (case read_varint pl of
        Inl _ \<Rightarrow> None
      | Inr (i, b) \<Rightarrow>
          if p \<ge> 759 \<and> i = pi_in_chat_command ids
          then (case read_string 32767 b of Inl _ \<Rightarrow> None | Inr (cmd, _) \<Rightarrow> Some cmd)
          else if p < 759 \<and> i = pi_in_chat ids
          then (case read_string 32767 b of
                  Inl _ \<Rightarrow> None
                | Inr (msg, _) \<Rightarrow> if has_prefix msg ''/'' then Some (tl msg) else None)
          else None)"

text \<open>\<^verbatim>\<open>handleCommand\<close>: what is written, whether the session ends, and the caller's state. \<open>choice\<close> returns the
  disconnect message or the text of the error.\<close>

definition handle_command ::
  "packet_ids \<Rightarrow> limbo_opts \<Rightarrow> ('s \<Rightarrow> limbo_entry list) \<Rightarrow> (string \<Rightarrow> 's \<Rightarrow> (text_comp + string) \<times> 's) \<Rightarrow> string \<Rightarrow> 's
    \<Rightarrow> byte list \<times> bool \<times> 's" where
  "handle_command ids o' entries choice cmd s =
     (let say = (\<lambda>t. limbo_chat ids (lo_protocol o') (C t ''red'')) in
      case Strs.fields cmd of
        [] \<Rightarrow> ([], False, s)
      | f # args \<Rightarrow>
          (let c = to_lower f in
           if c = ''join'' \<or> c = ''server''
           then (case args of
                   [] \<Rightarrow> (say ''Usage: /join <server>'', False, s)
                 | a # _ \<Rightarrow>
                     (case choice (to_lower a) s of
                        (Inl msg, s) \<Rightarrow> (limbo_disconnect ids (lo_protocol o') msg, True, s)
                      | (Inr err, s) \<Rightarrow> (say err, False, s)))
           else if c = ''servers'' \<or> c = ''menu'' \<or> c = ''list'' then (send_menu ids o' (entries s), False, s)
           else (say ''Unknown command. Use /join <server> or /servers.'', False, s)))"

definition keep_alive :: "packet_ids \<Rightarrow> int \<Rightarrow> time \<Rightarrow> byte list" where
  "keep_alive ids p now =
     (let i = unix_sec now in
      build (pi_keep_alive ids)
        [if p < 47 then b_int32 i else if p < 340 then b_varint (i AND 0x7FFFFFFF) else b_int64 i])"

text \<open>\<^verbatim>\<open>loop\<close>: what is written, whether it ended by a choice, and the state.\<close>

fun limbo_loop ::
  "packet_ids \<Rightarrow> limbo_opts \<Rightarrow> ('s \<Rightarrow> limbo_entry list) \<Rightarrow> (string \<Rightarrow> 's \<Rightarrow> (text_comp + string) \<times> 's)
    \<Rightarrow> client_event list \<Rightarrow> 's \<Rightarrow> byte list \<times> bool \<times> 's" where
  "limbo_loop ids o' entries choice [] s = ([], False, s)"
| "limbo_loop ids o' entries choice (Packet pl # es) s =
     (case limbo_command ids (lo_protocol o') pl of
        None \<Rightarrow> limbo_loop ids o' entries choice es s
      | Some cmd \<Rightarrow>
          (case handle_command ids o' entries choice cmd s of
             (out, True, s) \<Rightarrow> (out, True, s)
           | (out, False, s) \<Rightarrow>
               (case limbo_loop ids o' entries choice es s of (rest, r) \<Rightarrow> (out @ rest, r))))"
| "limbo_loop ids o' entries choice (Tick t # es) s =
     (case limbo_loop ids o' entries choice es s of (rest, r) \<Rightarrow> (keep_alive ids (lo_protocol o') t @ rest, r))"
| "limbo_loop ids o' entries choice (Timeout # es) s = limbo_loop ids o' entries choice es s"

text \<open>\<^verbatim>\<open>Serve\<close>; \<open>None\<close> is an unsupported version, to which nothing is written.\<close>

definition limbo_serve ::
  "(byte list \<Rightarrow> byte list) \<Rightarrow> (string \<Rightarrow> byte list option) \<Rightarrow> limbo_opts \<Rightarrow> ('s \<Rightarrow> limbo_entry list)
    \<Rightarrow> (string \<Rightarrow> 's \<Rightarrow> (text_comp + string) \<times> 's) \<Rightarrow> client_event list \<Rightarrow> 's \<Rightarrow> (byte list \<times> bool \<times> 's) option" where
  "limbo_serve md5 load o' entries choice es s =
     (case map_of packet_table (lo_protocol o') of
        None \<Rightarrow> None
      | Some ids \<Rightarrow>
          let o' = (if lo_uuid o' = zero_uuid then o'\<lparr>lo_uuid := offline_uuid md5 (lo_name o')\<rparr> else o') in
          Some (case limbo_login load ids o' es of
                  (out, None) \<Rightarrow> (out, False, s)
                | (out, Some es) \<Rightarrow>
                    (case spawn load ids (lo_protocol o') of
                       None \<Rightarrow> (out, False, s)
                     | Some world \<Rightarrow>
                         (case limbo_loop ids o' entries choice es s of
                            (rest, r) \<Rightarrow> (out @ world @ send_menu ids o' (entries s) @ rest, r)))))"

section \<open>The tables fit the code\<close>

text \<open>What the branches on the version assume of the packet table and of the data files.\<close>

definition row_ok :: "int \<times> packet_ids \<Rightarrow> bool" where
  "row_ok = (\<lambda>(p, ids).
     list_all (\<lambda>i. 0 \<le> i \<and> i < 2 ^ 31)
       ([pi_login ids, pi_position ids, pi_spawn_position ids, pi_keep_alive ids, pi_abilities ids, pi_disconnect ids]
        @ (if p < 759 then [pi_chat ids, pi_in_chat ids] else [pi_system_chat ids, pi_in_chat_command ids])
        @ (if p \<ge> 393 then [pi_commands ids] else [])
        @ (if p \<ge> 393 \<and> p < 764 then [pi_plugin_message ids] else [])
        @ (if p \<ge> 764 then [pi_center_chunk ids, pi_chunk_data ids, pi_cfg_plugin_message ids, pi_cfg_registry_data ids,
             pi_cfg_feature_flags ids, pi_cfg_finish ids, pi_in_cfg_finish ids] else [])
        @ (if p \<ge> 765 then [pi_game_event ids] else []))
     \<and> (p \<ge> 735 \<longrightarrow> map_of codec_files p \<noteq> None)
     \<and> (p \<ge> 751 \<and> p < 759 \<longrightarrow> map_of dimension_files p \<noteq> None))"

lemma table_rows: "list_all row_ok packet_table"
  by code_simp

lemma table_row: "map_of packet_table p = Some ids \<Longrightarrow> row_ok (p, ids)"
  using table_rows by (rule map_of_list_all)

lemma chat_ids:
  assumes "map_of packet_table p = Some ids"
  shows "p < 759 \<Longrightarrow> int32_range (pi_in_chat ids)" "p \<ge> 759 \<Longrightarrow> int32_range (pi_in_chat_command ids)"
  using table_row [OF assms] by (auto simp: row_ok_def int32_range_def)

section \<open>Clicking\<close>

text \<open>What a client sends when its player clicks a text: the command as a chat message, or, since 1.19, as a
  command without the slash.\<close>

definition clicked :: "packet_ids \<Rightarrow> int \<Rightarrow> text_comp \<Rightarrow> byte list" where
  "clicked ids p t =
     (if p \<ge> 759 then b_string (tl (t_click t)) (new_packet (pi_in_chat_command ids))
      else b_string (t_click t) (new_packet (pi_in_chat ids)))"

lemma ascii_ok: "\<forall>c \<in> set s. (of_char c :: nat) < 128 \<Longrightarrow> length s \<le> mx \<Longrightarrow> length s < 2 ^ 31 \<Longrightarrow> string_ok mx s"
proof -
  assume a: "\<forall>c \<in> set s. (of_char c :: nat) < 128" and l: "length s \<le> mx" "length s < 2 ^ 31"
  have "ascii (bytes s)" using a by (auto simp: ascii_def bytes_def byte_of_char_def unat_of_nat list_all_iff)
  then show "string_ok mx s"
    using l by (simp add: string_ok_def ascii_valid ascii_rune_count)
qed

lemma id_pattern_ascii:
  assumes "id_pattern s"
  shows "\<forall>c \<in> set s. (of_char c :: nat) < 128"
proof
  fix c assume "c \<in> set s"
  then have "id_char c" using id_pattern_chars [OF assms] by (auto simp: list_all_iff)
  then show "(of_char c :: nat) < 128" by (auto simp: id_char_def alnum_lower_def Let_def)
qed

lemma fields_word: "w \<noteq> [] \<Longrightarrow> \<forall>c \<in> set w. \<not> is_space c \<Longrightarrow> Strs.fields w = [w]"
proof -
  assume w: "w \<noteq> []" "\<forall>c \<in> set w. \<not> is_space c"
  obtain c cs where c: "w = c # cs" using w(1) by (cases w) auto
  have "dropWhile is_space w = w" using w c by simp
  moreover have "takeWhile (\<lambda>x. \<not> is_space x) w = w" "dropWhile (\<lambda>x. \<not> is_space x) w = []"
    using w(2) by (simp_all add: takeWhile_eq_all_conv dropWhile_eq_Nil_conv)
  moreover have "Strs.fields [] = []" by (simp add: Strs.fields.simps)
  ultimately show ?thesis using c by (subst Strs.fields.simps) simp
qed

lemma fields_join: "id_pattern i \<Longrightarrow> Strs.fields (''join '' @ i) = [''join'', i]"
proof -
  assume i: "id_pattern i"
  have "\<forall>c \<in> set i. \<not> is_space c" "i \<noteq> []"
    using id_pattern_chars [OF i] id_char_fix(2) by (auto simp: list_all_iff)
  then have "Strs.fields (CHR '' '' # i) = [i]"
    using fields_word [of i] by (subst Strs.fields.simps, subst (asm) Strs.fields.simps)
      (auto simp: is_space_def split: list.splits)
  then show ?thesis
    by (subst Strs.fields.simps) (simp add: is_space_def)
qed

lemma command_clicked:
  assumes "map_of packet_table p = Some ids" "id_pattern (le_id e)" "t_click t = ''/join '' @ le_id e"
  shows "limbo_command ids p (clicked ids p t) = Some (''join '' @ le_id e)"
proof -
  have len: "length (le_id e) \<le> 32" using id_pattern_chars [OF assms(2)] by simp
  have a: "\<forall>c \<in> set (le_id e). (of_char c :: nat) < 128" by (rule id_pattern_ascii [OF assms(2)])
  have ok: "string_ok 32767 (''join '' @ le_id e)" "string_ok 32767 (''/join '' @ le_id e)"
    using a len by (intro ascii_ok; auto)+
  have get: "read_string 32767 (b_string s [] @ []) = Inr (s, [])" if "string_ok 32767 s" for s
    by (rule read_string_put [OF that])
  have split: "b_string s (new_packet i) = b_varint i [] @ b_string s []" for s i
    unfolding new_packet_varint by (rule string_field.put_append)
  show ?thesis
    using chat_ids [OF assms(1)] get [OF ok(1)] get [OF ok(2)]
    by (cases "p \<ge> 759") (simp_all add: limbo_command_def clicked_def assms(3) split get_put has_prefix_def)
qed

lemma handle_join:
  assumes "id_pattern i"
  shows "handle_command ids o' entries choice (''join '' @ i) s =
     (case choice i s of
        (Inl msg, s') \<Rightarrow> (limbo_disconnect ids (lo_protocol o') msg, True, s')
      | (Inr err, s') \<Rightarrow> (limbo_chat ids (lo_protocol o') (C err ''red''), False, s'))"
proof -
  have "to_lower ''join'' = ''join''" by code_simp
  then show ?thesis
    unfolding handle_command_def Let_def fields_join [OF assms] by (simp add: id_pattern_fix(1) [OF assms])
qed

section \<open>Properties\<close>

text \<open>C40: In every version that the limbo speaks, a click on either button of a menu line makes the gateway
  choose exactly that line's server: if the choice succeeds the player is disconnected with its message
  and the session ends, otherwise the error is shown and the session goes on.\<close>

theorem menu_click_chooses:
  assumes "map_of packet_table p = Some ids" and "lo_protocol o' = p" and "id_pattern (le_id e)"
    and "t \<in> set (take 2 (t_extra (menu_line e)))"
  shows "limbo_loop ids o' entries choice (Packet (clicked ids p t) # es) s =
     (case choice (le_id e) s of
        (Inl msg, s') \<Rightarrow> (limbo_disconnect ids p msg, True, s')
      | (Inr err, s') \<Rightarrow>
          (case limbo_loop ids o' entries choice es s' of
             (out, r) \<Rightarrow> (limbo_chat ids p (C err ''red'') @ out, r)))"
proof -
  have "t_click t = ''/join '' @ le_id e"
    using assms(4) by (auto simp: menu_line_def Let_def Join_def)
  from command_clicked [OF assms(1,3) this]
  have "limbo_command ids (lo_protocol o') (clicked ids p t) = Some (''join '' @ le_id e)"
    by (simp add: assms(2))
  from this have "limbo_loop ids o' entries choice (Packet (clicked ids p t) # es) s =
     (case handle_command ids o' entries choice (''join '' @ le_id e) s of
        (out, True, s) \<Rightarrow> (out, True, s)
      | (out, False, s) \<Rightarrow> (case limbo_loop ids o' entries choice es s of (rest, r) \<Rightarrow> (out @ rest, r)))"
    unfolding limbo_loop.simps(2) by (simp only: option.case)
  then show ?thesis
    unfolding handle_join [OF assms(3)] assms(2) by (simp split: sum.splits prod.splits)
qed

definition demo_entry :: limbo_entry where
  "demo_entry = \<lparr>le_id = ''survival'', le_name = ''Survival'', le_detail = [], le_recommended = True\<rparr>"

definition demo_opts :: limbo_opts where
  "demo_opts = \<lparr>lo_protocol = 763, lo_name = ''Steve'', lo_uuid = zero_uuid, lo_title = []\<rparr>"

theorem menu_click_chooses_witness:
  "\<exists>ids. map_of packet_table 763 = Some ids
     \<and> snd (limbo_loop ids demo_opts (\<lambda>s. [demo_entry]) (\<lambda>i s. (Inl (T i), s @ [i]))
              (Packet (clicked ids 763 (t_extra (menu_line demo_entry) ! 1)) # []) []) = (True, [''survival''])"
proof -
  obtain ids where ids: "map_of packet_table 763 = Some ids"
    by (cases "map_of packet_table 763") (simp_all add: packet_table_def)
  have o': "lo_protocol demo_opts = 763" by (simp add: demo_opts_def)
  have i: "id_pattern (le_id demo_entry)" by code_simp
  have t: "t_extra (menu_line demo_entry) ! 1 \<in> set (take 2 (t_extra (menu_line demo_entry)))"
    by (simp add: menu_line_def Let_def Join_def)
  have "snd (limbo_loop ids demo_opts (\<lambda>s. [demo_entry]) (\<lambda>i s. (Inl (T i), s @ [i]))
      (Packet (clicked ids 763 (t_extra (menu_line demo_entry) ! 1)) # []) []) = (True, [''survival''])"
    by (subst menu_click_chooses [OF ids o' i t]) (simp add: demo_entry_def)
  then show ?thesis using ids by blast
qed

text \<open>The generated tables fit the code: for every version that the limbo speaks, the client gets the
  complete sequence of packets (no registry data is missing), each with an ID that the version has, and
  the packets that the limbo waits for have one too.\<close>

theorem limbo_serves_supported:
  assumes "supported p" and "\<forall>path. load path \<noteq> None"
  shows "\<exists>ids. map_of packet_table p = Some ids \<and> row_ok (p, ids) \<and> spawn load ids p \<noteq> None
     \<and> (p \<ge> 764 \<longrightarrow> load_compound load codec_files p \<noteq> None)"
proof -
  obtain ids where ids: "map_of packet_table p = Some ids" using assms(1) by (auto simp: supported_def)
  note row = table_row [OF ids]
  have codec: "p \<ge> 735 \<longrightarrow> load_compound load codec_files p \<noteq> None"
    using row assms(2) by (auto simp: row_ok_def load_compound_def split: option.splits)
  have dim: "p \<ge> 751 \<and> p < 759 \<longrightarrow> load_compound load dimension_files p \<noteq> None"
    using row assms(2) by (auto simp: row_ok_def load_compound_def split: option.splits)
  have "join_game load ids p \<noteq> None"
    using codec dim by (auto simp: join_game_def split: option.splits)
  then show ?thesis
    using ids row codec by (auto simp: spawn_def)
qed

theorem limbo_serves_supported_witness: "\<exists>ids. map_of packet_table 765 = Some ids \<and> row_ok (765, ids)"
proof -
  have "supported 765" by code_simp
  from limbo_serves_supported [OF this, of "\<lambda>_. Some []"] show ?thesis by auto
qed

lemma version_bits: "unat ((b AND 0x0f) OR 0x30 :: byte) div 16 = 3" "unat ((b AND 0x3f) OR 0x80 :: byte) div 64 = 2"
proof -
  have u: "unat w div 2 ^ n = unat (drop_bit n w)" for n and w :: byte
    by (subst unat_drop_bit_eq, subst drop_bit_eq_div, rule refl)
  have "drop_bit 4 (0x0f :: byte) = 0" "drop_bit 4 (0x30 :: byte) = 3" "drop_bit 6 (0x3f :: byte) = 0" "drop_bit 6 (0x80 :: byte) = 2"
    by simp_all
  then show "unat ((b AND 0x0f) OR 0x30 :: byte) div 16 = 3" "unat ((b AND 0x3f) OR 0x80 :: byte) div 64 = 2"
    using u [of _ 4] u [of _ 6] by (simp_all add: drop_bit_and drop_bit_or)
qed

lemma length_hex_string: "length (hex_string bs) = 2 * length bs"
  by (induction bs) (simp_all add: hex_string_def)

text \<open>A player without a UUID gets the offline UUID of its name: 16 bytes with the version (3) and the
  variant of RFC 4122, whatever the hash, written as 36 characters in five groups.\<close>

theorem offline_uuid_valid:
  assumes "length (md5 (bytes (''OfflinePlayer:'' @ name))) = 16"
  shows "length (offline_uuid md5 name) = 16
     \<and> unat (offline_uuid md5 name ! 6) div 16 = 3 \<and> unat (offline_uuid md5 name ! 8) div 64 = 2
     \<and> length (uuid_string (offline_uuid md5 name)) = 36
     \<and> filter (\<lambda>i. uuid_string (offline_uuid md5 name) ! i = CHR ''-'') [8, 13, 18, 23] = [8, 13, 18, 23]"
proof -
  let ?u = "md5 (bytes (''OfflinePlayer:'' @ name))"
  have u: "offline_uuid md5 name ! 6 = (?u ! 6 AND 0x0f) OR 0x30" "offline_uuid md5 name ! 8 = (?u ! 8 AND 0x3f) OR 0x80"
    "length (offline_uuid md5 name) = 16"
    using assms by (simp_all add: offline_uuid_def set_version_def)
  have h: "length (hex_string (offline_uuid md5 name)) = 32" by (simp add: length_hex_string u(3))
  then show ?thesis
    unfolding u(1,2) version_bits by (simp add: u(3) uuid_string_def Let_def nth_append)
qed

definition zero_md5 :: "byte list \<Rightarrow> byte list" where
  "zero_md5 bs = replicate 16 0xFF"

theorem offline_uuid_valid_witness:
  "unat (offline_uuid zero_md5 ''Steve'' ! 6) div 16 = 3
   \<and> uuid_string (offline_uuid zero_md5 ''Steve'') = ''ffffffff-ffff-3fff-bfff-ffffffffffff''"
proof
  show "unat (offline_uuid zero_md5 ''Steve'' ! 6) div 16 = 3"
    using offline_uuid_valid [of zero_md5 "''Steve''"] by (simp add: zero_md5_def)
  show "uuid_string (offline_uuid zero_md5 ''Steve'') = ''ffffffff-ffff-3fff-bfff-ffffffffffff''" by code_simp
qed

end
