(* ===== verification/Lobby.thy ===== *)
theory Lobby
  imports Tickets Limbo
begin

text \<open>
  \<^verbatim>\<open>internal/router/lobby.go\<close>: what the gateway does with a player it cannot route yet. Clients of 1.20.5 or
  later are probed in the configuration phase and transferred, or choose from a dialog (\<^verbatim>\<open>lobbyConfig\<close>,
  \<^verbatim>\<open>dialogLoop\<close>); older ones are told to reconnect, or choose in the limbo (\<^verbatim>\<open>lobbyLogin\<close>, \<^verbatim>\<open>limboLobby\<close>).

  One time and one registry stand for a pass through the matching; the lookup of the server that a
  player chooses later is a parameter of its own. Writes to the client succeed. What is sent is given
  with how the session ends.

  The lemmas show that the lobby sends a player only to servers that are online and fit, that its
  transfers, remembered choices and dialog buttons are honoured, that a Forge client is not sent back to
  a server whose mods it refused, and how long lists of addresses are cut.
\<close>

section \<open>Texts\<close>

definition version_part :: "server \<Rightarrow> string" where
  "version_part srv = sv_loader srv @ '' '' @ sv_version_name srv"

definition dot_sep :: string where
  "dot_sep = '' '' @ str [0xC2, 0xB7] @ '' ''"

definition load_part :: "server \<Rightarrow> string" where
  "load_part srv = version_part srv @ dot_sep @ itoa (sv_players srv) @ ''/'' @ itoa (sv_max_players srv)"

definition newline :: string where
  "newline = [CHR 0x0A]"

definition server_address :: "router_config \<Rightarrow> server \<Rightarrow> string" where
  "server_address cfg srv = (if rc_domain cfg = [] then [] else sv_id srv @ ''.'' @ rc_domain cfg)"

text \<open>The loop of \<^verbatim>\<open>addressLines\<close>: \<open>len\<close> is the number of candidates, \<open>n\<close> that of lines written.\<close>

fun address_loop :: "router_config \<Rightarrow> string \<Rightarrow> nat \<Rightarrow> nat \<Rightarrow> candidate list \<Rightarrow> text_comp list" where
  "address_loop cfg skip len n [] = []"
| "address_loop cfg skip len n (c # cs) =
     (let srv = ca_server c in
      if sv_id srv = skip then address_loop cfg skip len n cs
      else if n = 10 then [C (''... and '' @ itoa (int len - int n) @ '' more'' @ newline) ''dark_gray'']
      else [C (sv_name srv) ''green'', C ('' ('' @ version_part srv @ ''): '') ''gray'',
            C (server_address cfg srv @ newline) ''aqua''] @ address_loop cfg skip len (n + 1) cs)"

definition address_lines :: "router_config \<Rightarrow> candidate list \<Rightarrow> string \<Rightarrow> text_comp list" where
  "address_lines cfg cands skip = address_loop cfg skip (length cands) 0 cands"

definition reconnect_text :: "router_config \<Rightarrow> server \<Rightarrow> candidate list \<Rightarrow> bool \<Rightarrow> text_comp" where
  "reconnect_text cfg chosen cands sure =
     Join ([C (if sure then ''Matched you with '' else ''Several servers fit. Best guess: '') ''gray'',
            C (sv_name chosen) ''green'',
            C ('' ('' @ version_part chosen @ '').'' @ newline) ''gray'',
            C (''Reconnect within a few minutes to join.'' @ newline) ''white'']
           @ (if length cands > 1 \<and> rc_domain cfg \<noteq> []
              then C (newline @ ''Or join another server directly:'' @ newline) ''gray''
                   # address_lines cfg cands (sv_id chosen)
              else []))"

fun online_lines :: "nat \<Rightarrow> nat \<Rightarrow> server list \<Rightarrow> text_comp list" where
  "online_lines len i [] = []"
| "online_lines len i (srv # ss) =
     (if i = 12 then [C (''... and '' @ itoa (int len - int i) @ '' more'') ''dark_gray'']
      else C (sv_name srv @ '': '' @ version_part srv @ newline) ''white'' # online_lines len (i + 1) ss)"

definition list_text :: "router_config \<Rightarrow> time \<Rightarrow> registry \<Rightarrow> handshake \<Rightarrow> candidate list \<Rightarrow> text_comp" where
  "list_text cfg now reg hs cands =
     (if cands = []
      then let loader = cl_loader (handshake_client hs); online = visible_online now reg in
        Join ([C (''No online server accepts '' @ version_name (hs_protocol hs)) ''red'']
              @ (if loader \<noteq> ''unknown'' then [C ('' with '' @ loader) ''red''] else [])
              @ [C (''.'' @ newline @ newline @ ''Online servers:'' @ newline) ''gray'']
              @ (if online = [] then [C ''none'' ''dark_gray''] else [])
              @ online_lines (length online) 0 online)
      else if rc_domain cfg = []
      then Join [C ''Several servers fit your client. '' ''gold'',
                 C (''Ask an admin to configure a domain for direct joins.'' @ newline) ''gray'']
      else Join ([C ''Several servers fit your client. '' ''gold'',
                  C (''Join one by its address:'' @ newline @ newline) ''gray'']
                 @ address_lines cfg cands []))"

definition cfg_disconnect :: "text_comp \<Rightarrow> byte list" where
  "cfg_disconnect t = frame_of (b_raw (network_nbt (text_nbt t)) (new_packet CfgDisconnectID))"

section \<open>The dialog\<close>

definition actionJoinPrefix :: string where
  "actionJoinPrefix = ''vecta:join/''"

definition actionLeave :: string where
  "actionLeave = ''vecta:leave''"

definition maxDialogServers :: nat where
  "maxDialogServers = 30"

definition custom_action :: "string \<Rightarrow> nbt" where
  "custom_action i = N_compound [(''type'', N_str ''custom''), (''id'', N_str i)]"

definition dialog_button :: "candidate \<Rightarrow> nbt" where
  "dialog_button c =
     (let srv = ca_server c;
          tip = load_part srv @ '' players'';
          tip = (if sv_description srv \<noteq> [] then sv_description srv @ newline @ tip else tip)
      in N_compound [(''label'', text_nbt (C (sv_name srv) ''green'')), (''tooltip'', text_nbt (T tip)),
           (''width'', N_int 200), (''action'', custom_action (actionJoinPrefix @ sv_id srv))])"

definition dialog :: "string \<Rightarrow> int \<Rightarrow> candidate list \<Rightarrow> nbt" where
  "dialog player protocol cands =
     (let cands = take maxDialogServers cands in
      N_compound
        [(''type'', N_str ''minecraft:multi_action''),
         (''title'', text_nbt (C ''Choose a server'' ''gold'')),
         (''body'', N_list [N_compound
            [(''type'', N_str ''minecraft:plain_message''),
             (''contents'', text_nbt (T (''Hi '' @ player @ ''! These servers accept '' @ version_name protocol
                @ ''. Best matches for your client come first.''))),
             (''width'', N_int 300)]]),
         (''actions'', N_list (map dialog_button cands)),
         (''columns'', N_int (if length cands > 5 then 2 else 1)),
         (''can_close_with_escape'', N_bool False),
         (''exit_action'', N_compound [(''label'', text_nbt (T ''Disconnect'')), (''action'', custom_action actionLeave)])])"

definition show_dialog :: "string \<Rightarrow> int \<Rightarrow> candidate list \<Rightarrow> byte list" where
  "show_dialog player protocol cands =
     frame_of (b_raw (network_nbt (dialog player protocol cands)) (new_packet CfgShowDialogID))"

datatype dialog_end = D_gone | D_left | D_timeout | D_unavailable string | D_chosen server

definition dialog_action :: "byte list \<Rightarrow> string option" where
  "dialog_action p =
     (case sum_bind (read_varint p) (\<lambda>(i, b).
             if i \<noteq> CfgCustomClickActionID then Inl (E_unexpected_packet i) else read_string 32767 b) of
        Inl _ \<Rightarrow> None | Inr (action, _) \<Rightarrow> Some action)"

definition cfg_keep_alive :: "time \<Rightarrow> byte list" where
  "cfg_keep_alive now = frame_of (b_int64 (now div 1000000) (new_packet CfgKeepAliveOutID))"

text \<open>\<^verbatim>\<open>dialogLoop\<close> after the dialog is shown; \<open>look\<close> finds a server in the registry.\<close>

fun dialog_loop :: "(string \<Rightarrow> server option) \<Rightarrow> int \<Rightarrow> client_event list \<Rightarrow> byte list \<times> dialog_end" where
  "dialog_loop look protocol [] = ([], D_gone)"
| "dialog_loop look protocol (Packet p # es) =
     (case dialog_action p of
        None \<Rightarrow> dialog_loop look protocol es
      | Some action \<Rightarrow>
          if action = actionLeave then ([], D_left)
          else case cut_prefix action actionJoinPrefix of
                 (_, False) \<Rightarrow> dialog_loop look protocol es
               | (i, True) \<Rightarrow>
                   (case look i of
                      None \<Rightarrow> ([], D_unavailable i)
                    | Some srv \<Rightarrow>
                        if sv_online srv \<and> accepts srv protocol then ([], D_chosen srv) else ([], D_unavailable i)))"
| "dialog_loop look protocol (Tick t # es) =
     (case dialog_loop look protocol es of (out, r) \<Rightarrow> (cfg_keep_alive t @ out, r))"
| "dialog_loop look protocol (Timeout # es) = ([], D_timeout)"

section \<open>Configuration phase\<close>

datatype lobby_end = L_gone | L_disconnect text_comp | L_transfer server | L_limbo client

text \<open>The packets of \<^verbatim>\<open>transfer\<close>; then the client is left to close the connection.\<close>

definition transfer_frames :: "hmac \<Rightarrow> router_config \<Rightarrow> time \<Rightarrow> handshake \<Rightarrow> string \<Rightarrow> server \<Rightarrow> byte list" where
  "transfer_frames hmac cfg now hs player srv =
     (let host = (if rc_transfer_host cfg = [] then rc_domain cfg else rc_transfer_host cfg);
          host = (if host = [] then hs_host hs else host);
          port = (if rc_transfer_port cfg = 0 then int (hs_port hs) else rc_transfer_port cfg);
          cookie = sign_route hmac (rc_cookie_secret cfg) (sv_id srv) player (now + 120 * 1000000000)
      in frame_of (b_byte_array cookie (b_string CookieKey (new_packet CfgStoreCookieID)))
         @ frame_of (b_varint (to_int32 port) (b_string host (new_packet CfgTransferID))))"

definition end_frames :: "hmac \<Rightarrow> router_config \<Rightarrow> time \<Rightarrow> handshake \<Rightarrow> string \<Rightarrow> lobby_end \<Rightarrow> byte list" where
  "end_frames hmac cfg now hs player e =
     (case e of
        L_disconnect t \<Rightarrow> cfg_disconnect t
      | L_transfer srv \<Rightarrow> transfer_frames hmac cfg now hs player srv
      | _ \<Rightarrow> [])"

definition dialog_result :: "dialog_end \<Rightarrow> lobby_end" where
  "dialog_result d =
     (case d of
        D_gone \<Rightarrow> L_gone
      | D_left \<Rightarrow> L_disconnect (C ''See you!'' ''gray'')
      | D_timeout \<Rightarrow> L_disconnect (C ''Timed out choosing a server.'' ''red'')
      | D_unavailable i \<Rightarrow>
          L_disconnect (Join [C i ''yellow'', C '' is no longer available. Reconnect to pick again.'' ''red''])
      | D_chosen srv \<Rightarrow> L_transfer srv)"

text \<open>\<^verbatim>\<open>lobbyConfig\<close> once the client is known: what is sent before the end, the end, and the store.\<close>

definition config_match ::
  "router_config \<Rightarrow> time \<Rightarrow> registry \<Rightarrow> (string \<Rightarrow> server option) \<Rightarrow> handshake \<Rightarrow> string \<Rightarrow> bool \<Rightarrow> client
    \<Rightarrow> client_event list \<Rightarrow> kv_store \<Rightarrow> (byte list \<times> lobby_end) \<times> kv_store" where
  "config_match cfg now reg look hs player force client es st =
     (let cands = rank client (visible_online now reg);
          menu = (hs_protocol hs \<ge> Proto1_21_6);
          picked = pick cands (rc_auto_min_score cfg) (rc_auto_margin cfg)
      in if picked \<noteq> None \<and> \<not> (force \<and> menu) then (([], L_transfer (ca_server (the picked))), st)
         else if cands = [] then (([], L_disconnect (list_text cfg now reg hs cands)), st)
         else if \<not> menu
         then let best = ca_server (hd cands) in
           (([], L_disconnect (reconnect_text cfg best cands False)),
            pending_set now player (sv_id best) (rc_pending_ttl cfg) st)
         else case dialog_loop look (hs_protocol hs) es of
                (out, d) \<Rightarrow> ((show_dialog player (hs_protocol hs) cands @ out, dialog_result d), st))"

definition lobby_config ::
  "hmac \<Rightarrow> router_config \<Rightarrow> time \<Rightarrow> registry \<Rightarrow> (string \<Rightarrow> server option) \<Rightarrow> handshake \<Rightarrow> login_start \<Rightarrow> bool
    \<Rightarrow> client_event list \<Rightarrow> kv_store \<Rightarrow> (byte list \<times> lobby_end) \<times> kv_store" where
  "lobby_config hmac cfg now reg look hs login force es st =
     (let out = login_success (hs_protocol hs) (ls_uuid login) (ls_name login) in
      case wait_login_ack es of
        (False, _) \<Rightarrow> ((out, L_gone), st)
      | (True, es) \<Rightarrow>
          (case probe_twice es of
             (pr, query, es) \<Rightarrow>
               (case config_match cfg now reg look hs (ls_name login) force
                       (probed_client pr (handshake_client hs)) es st of
                  ((shown, e), st) \<Rightarrow>
                    ((out @ neoforge_query @ query @ shown @ end_frames hmac cfg now hs (ls_name login) e, e), st))))"

section \<open>Login phase\<close>

text \<open>The candidates that the player's client has not refused; the store forgets expired refusals.\<close>

fun not_rejected :: "time \<Rightarrow> string \<Rightarrow> candidate list \<Rightarrow> kv_store \<Rightarrow> candidate list \<times> kv_store" where
  "not_rejected now player [] st = ([], st)"
| "not_rejected now player (c # cs) st =
     (case pending_rejected now player (sv_id (ca_server c)) st of
        (r, st) \<Rightarrow> (case not_rejected now player cs st of (ks, st) \<Rightarrow> (if r then ks else c # ks, st)))"

text \<open>The Forge backend whose channels are presented: the best candidate with a complete list.\<close>

fun find_probe :: "time \<Rightarrow> string \<Rightarrow> candidate list \<Rightarrow> kv_store \<Rightarrow> server option \<times> kv_store" where
  "find_probe now player [] st = (None, st)"
| "find_probe now player (c # cs) st =
     (let srv = ca_server c in
      if sv_forge_channels srv \<noteq> [] \<and> \<not> sv_forge_truncated srv
      then (case pending_rejected now player (sv_id srv) st of
              (r, st) \<Rightarrow> if r then find_probe now player cs st else (Some srv, st))
      else find_probe now player cs st)"

datatype forge_query = FQ_none | FQ_failed | FQ_mods "string list"

text \<open>\<^verbatim>\<open>forgeModQuery\<close>: the request sent, its outcome, the rest of the input and the store.\<close>

definition forge_mod_query ::
  "router_config \<Rightarrow> time \<Rightarrow> registry \<Rightarrow> string \<Rightarrow> client \<Rightarrow> bool \<Rightarrow> byte list \<Rightarrow> kv_store
    \<Rightarrow> (byte list \<times> forge_query \<times> byte list) \<times> kv_store" where
  "forge_mod_query cfg now reg player client fml3 input st =
     (case find_probe now player (rank client (visible_online now reg)) st of
        (probe, st) \<Rightarrow>
          if probe = None \<and> \<not> rc_forge_query cfg then (([], FQ_none, input), st)
          else let mods = (case probe of None \<Rightarrow> [] | Some s \<Rightarrow> sv_mods s);
                   channels = (case probe of None \<Rightarrow> [] | Some s \<Rightarrow> sv_forge_channels s);
                   (got, input) = query_forge_mods input
               in ((query_request fml3 mods channels, case got of Inl _ \<Rightarrow> FQ_failed | Inr ms \<Rightarrow> FQ_mods ms, input),
                   case (got, probe) of
                     (Inl _, Some s) \<Rightarrow> pending_reject now player (sv_id s) (600 * 1000000000) st
                   | _ \<Rightarrow> st))"

definition login_match ::
  "router_config \<Rightarrow> time \<Rightarrow> registry \<Rightarrow> handshake \<Rightarrow> string \<Rightarrow> bool \<Rightarrow> client \<Rightarrow> kv_store
    \<Rightarrow> lobby_end \<times> kv_store" where
  "login_match cfg now reg hs player force client st =
     (case not_rejected now player (rank client (visible_online now reg)) st of
        (cands, st) \<Rightarrow>
          let picked = pick cands (rc_auto_min_score cfg) (rc_auto_margin cfg) in
          if picked \<noteq> None \<and> \<not> (force \<and> supported (hs_protocol hs))
          then let srv = ca_server (the picked) in
            (L_disconnect (reconnect_text cfg srv cands True), pending_set now player (sv_id srv) (rc_pending_ttl cfg) st)
          else if cands = [] \<or> \<not> supported (hs_protocol hs) then (L_disconnect (list_text cfg now reg hs cands), st)
          else (L_limbo client, st))"

text \<open>\<^verbatim>\<open>lobbyLogin\<close>; a client that refuses the mod list has closed the connection.\<close>

definition lobby_login ::
  "router_config \<Rightarrow> time \<Rightarrow> registry \<Rightarrow> handshake \<Rightarrow> string \<Rightarrow> bool \<Rightarrow> byte list \<Rightarrow> kv_store
    \<Rightarrow> (byte list \<times> lobby_end \<times> byte list) \<times> kv_store" where
  "lobby_login cfg now reg hs player force input st =
     (let client = handshake_client hs; marker = hs_marker hs in
      case (if marker = ''FML2'' \<or> marker = ''FML3''
            then forge_mod_query cfg now reg player client (marker = ''FML3'') input st
            else (([], FQ_none, input), st)) of
        ((out, FQ_failed, input), st) \<Rightarrow> ((out, L_gone, input), st)
      | ((out, q, input), st) \<Rightarrow>
          (case login_match cfg now reg hs player force
                  (case q of FQ_mods ms \<Rightarrow> client\<lparr>cl_mods := Some ms\<rparr> | _ \<Rightarrow> client) st of
             (e, st) \<Rightarrow> ((out @ (case e of L_disconnect t \<Rightarrow> login_disconnect t | _ \<Rightarrow> []), e, input), st)))"

section \<open>Limbo\<close>

fun limbo_entries_loop :: "nat \<Rightarrow> candidate list \<Rightarrow> limbo_entry list" where
  "limbo_entries_loop i [] = []"
| "limbo_entries_loop i (c # cs) =
     (let srv = ca_server c in
      \<lparr>le_id = sv_id srv, le_name = sv_name srv, le_detail = load_part srv,
       le_recommended = (i = 0 \<and> ca_certain c)\<rparr> # limbo_entries_loop (i + 1) cs)"

definition limbo_entries :: "time \<Rightarrow> registry \<Rightarrow> client \<Rightarrow> limbo_entry list" where
  "limbo_entries now reg client = limbo_entries_loop 0 (rank client (visible_online now reg))"

definition limbo_choose ::
  "router_config \<Rightarrow> time \<Rightarrow> registry \<Rightarrow> int \<Rightarrow> string \<Rightarrow> string \<Rightarrow> kv_store \<Rightarrow> (text_comp + string) \<times> kv_store" where
  "limbo_choose cfg now reg protocol player i st =
     (case (case reg_get now reg i of
              None \<Rightarrow> None | Some srv \<Rightarrow> if sv_online srv \<and> accepts srv protocol then Some srv else None) of
        None \<Rightarrow> (Inr ''That server is not available right now.'', st)
      | Some srv \<Rightarrow>
          (Inl (Join [C ''You picked '' ''gray'', C (sv_name srv) ''green'', C (''.'' @ newline @ newline) ''gray'',
                      C ''Reconnect now to join it.'' ''white'']),
           pending_set now player (sv_id srv) (rc_pending_ttl cfg) st))"

definition limbo_lobby ::
  "(byte list \<Rightarrow> byte list) \<Rightarrow> (string \<Rightarrow> byte list option) \<Rightarrow> router_config \<Rightarrow> time \<Rightarrow> registry \<Rightarrow> handshake
    \<Rightarrow> login_start \<Rightarrow> client \<Rightarrow> client_event list \<Rightarrow> kv_store \<Rightarrow> (byte list \<times> bool \<times> kv_store) option" where
  "limbo_lobby md5 load cfg now reg hs login client es st =
     limbo_serve md5 load
       \<lparr>lo_protocol = hs_protocol hs, lo_name = ls_name login,
        lo_uuid = (if ls_has_uuid login then ls_uuid login else zero_uuid), lo_title = ''Choose a server''\<rparr>
       (\<lambda>st. limbo_entries now reg client) (limbo_choose cfg now reg (hs_protocol hs) (ls_name login)) es st"

section \<open>The lobby\<close>

text \<open>\<^verbatim>\<open>lobby\<close>: the part of the input that is read as frames in the configuration phase or in the limbo is
  the events \<open>es\<close>. \<open>None\<close> is a release of a slot that blocks, which does not happen.\<close>

definition lobby ::
  "hmac \<Rightarrow> router_config \<Rightarrow> time \<Rightarrow> registry \<Rightarrow> (string \<Rightarrow> server option) \<Rightarrow> handshake \<Rightarrow> login_start \<Rightarrow> bool
    \<Rightarrow> byte list \<Rightarrow> client_event list \<Rightarrow> semaphore \<times> kv_store
    \<Rightarrow> ((byte list \<times> lobby_end) \<times> semaphore \<times> kv_store) option" where
  "lobby hmac cfg now reg look hs login force input es s =
     (case s of (slots, st) \<Rightarrow>
        (case try_acquire slots of
           (False, slots) \<Rightarrow>
             (let t = C ''The lobby is full right now. Please try again in a moment.'' ''red''
              in Some ((login_disconnect t, L_disconnect t), slots, st))
         | (True, slots) \<Rightarrow>
             (let (r, st) =
                (if hs_protocol hs \<ge> Proto1_20_5 then lobby_config hmac cfg now reg look hs login force es st
                 else case lobby_login cfg now reg hs (ls_name login) force input st of
                        ((out, e, _), st) \<Rightarrow> ((out, e), st))
              in map_option (\<lambda>slots. (r, slots, st)) (sem_release slots))))"

section \<open>Lemmas\<close>

lemma rank_online:
  assumes "reg_inv reg" "c \<in> set (rank client (visible_online now reg))"
  shows "reg_get now reg (sv_id (ca_server c)) = Some (ca_server c) \<and> sv_online (ca_server c)
    \<and> \<not> sv_hidden (ca_server c) \<and> joinable client (ca_server c)"
  using assms set_visible_online [OF assms(1)] registry_dir.lookup_id [OF assms(1)]
  by (auto simp: set_rank)

lemma pick_in: "pick ks m d = Some k \<Longrightarrow> k \<in> set ks"
  by (auto simp: pick_def split: list.splits if_splits)

lemma probed_protocol [simp]: "cl_protocol (probed_client pr c) = cl_protocol c"
  by (simp add: probed_client_def Let_def)

lemma joinable_protocol: "joinable c s \<Longrightarrow> accepts s (cl_protocol c)"
  by (simp add: joinable_def)

lemma dialog_chosen:
  "dialog_loop look protocol es = (out, D_chosen srv) \<Longrightarrow> (\<exists>i. look i = Some srv) \<and> sv_online srv \<and> accepts srv protocol"
  by (induction look protocol es arbitrary: out rule: dialog_loop.induct)
    (auto split: option.splits if_splits prod.splits bool.splits)

lemma dialog_result_transfer [simp]: "dialog_result d = L_transfer srv \<longleftrightarrow> d = D_chosen srv"
  by (cases d) (simp_all add: dialog_result_def)

text \<open>Where a session of the lobby sends the player: to a candidate of the matching, or to the server of its
  choice, as the registry has it at that moment.\<close>

lemma config_match_transfer:
  assumes "reg_inv reg" "cl_protocol client = hs_protocol hs"
    and "config_match cfg now reg look hs player force client es st = ((out, L_transfer srv), st')"
  shows "sv_online srv \<and> accepts srv (hs_protocol hs)
    \<and> (reg_get now reg (sv_id srv) = Some srv \<or> (\<exists>i. look i = Some srv))"
proof -
  let ?k = "rank client (visible_online now reg)"
  have "(\<exists>c. pick ?k (rc_auto_min_score cfg) (rc_auto_margin cfg) = Some c \<and> ca_server c = srv)
      \<or> (\<exists>out. dialog_loop look (hs_protocol hs) es = (out, D_chosen srv))"
    using assms(3) by (auto simp: config_match_def Let_def split: if_splits prod.splits)
  then show ?thesis
  proof (elim disjE exE conjE)
    fix c assume c: "pick ?k (rc_auto_min_score cfg) (rc_auto_margin cfg) = Some c" "ca_server c = srv"
    show ?thesis
      using rank_online [OF assms(1) pick_in [OF c(1)]] joinable_protocol [of client srv] assms(2) c(2) by simp
  qed (use dialog_chosen in blast)
qed

section \<open>Refused backends\<close>

lemma snd_pending_rejected:
  "snd (pending_rejected now q y st) = snd (store_get now bucketRejected (rejected_key q y) st)"
  by (simp add: pending_rejected_def split: prod.splits)

lemma rejected_inv: "kv_inv st \<Longrightarrow> kv_inv (snd (pending_rejected now q y st))"
  unfolding snd_pending_rejected by (rule kv.inv_get)

lemma rejected_after_read:
  "kv_inv st \<Longrightarrow> now \<le> t \<Longrightarrow>
   fst (pending_rejected t p x (snd (pending_rejected now q y st))) = fst (pending_rejected t p x st)"
  unfolding snd_pending_rejected by (simp add: fst_pending_rejected kv.get_get)

lemma not_rejected_eq:
  "kv_inv st \<Longrightarrow> fst (not_rejected now p cs st) = filter (\<lambda>c. \<not> fst (pending_rejected now p (sv_id (ca_server c)) st)) cs"
proof (induction cs arbitrary: st)
  case (Cons c cs)
  let ?r = "pending_rejected now p (sv_id (ca_server c)) st"
  have "fst (not_rejected now p cs (snd ?r)) = filter (\<lambda>c. \<not> fst (pending_rejected now p (sv_id (ca_server c)) st)) cs"
    using Cons.IH [OF rejected_inv [OF Cons.prems]] rejected_after_read [OF Cons.prems order.refl] by simp
  then show ?case by (auto split: prod.splits)
qed simp

lemma not_rejected_state:
  "kv_inv st \<Longrightarrow> kv_inv (snd (not_rejected now p cs st))"
proof (induction cs arbitrary: st)
  case (Cons c cs)
  then show ?case using rejected_inv [OF Cons.prems, of now p] by (auto split: prod.splits) (metis snd_conv)+
qed simp

lemma find_probe_state:
  "kv_inv st \<Longrightarrow> now \<le> t \<Longrightarrow> kv_inv (snd (find_probe now p cs st))
    \<and> fst (pending_rejected t q x (snd (find_probe now p cs st))) = fst (pending_rejected t q x st)"
proof (induction cs arbitrary: st)
  case (Cons c cs)
  let ?r = "pending_rejected now p (sv_id (ca_server c)) st"
  have r: "kv_inv (snd ?r)" "fst (pending_rejected t q x (snd ?r)) = fst (pending_rejected t q x st)"
    using rejected_inv [OF Cons.prems(1)] rejected_after_read [OF Cons.prems] by blast+
  show ?case
    using Cons.IH [OF Cons.prems] Cons.IH [OF r(1) Cons.prems(2)] r by (cases ?r) (auto simp: Let_def)
qed simp

lemma find_probe_fresh:
  "kv_inv st \<Longrightarrow> fst (find_probe now p cs st) = Some srv \<Longrightarrow>
   (\<exists>c \<in> set cs. ca_server c = srv) \<and> \<not> fst (pending_rejected now p (sv_id srv) st)"
proof (induction cs arbitrary: st)
  case (Cons c cs)
  let ?r = "pending_rejected now p (sv_id (ca_server c)) st"
  have r: "kv_inv (snd ?r)" "fst (pending_rejected now p i (snd ?r)) = fst (pending_rejected now p i st)" for i
    using rejected_inv [OF Cons.prems(1)] rejected_after_read [OF Cons.prems(1) order.refl] by blast+
  show ?case
    using Cons.prems(2) Cons.IH [OF Cons.prems(1)] Cons.IH [OF r(1)] r(2)
    by (cases ?r) (auto simp: Let_def split: if_splits)
qed simp

section \<open>Properties\<close>


text \<open>A Forge client is not asked again for what it refused: when it rejects the mod list of a backend, then
  for ten minutes that backend is no candidate in the login phase for this player, and is not used to
  probe the player again; other refusals stay as they were.\<close>

theorem refused_backend_skipped:
  assumes "kv_inv st" and "kv_lasts now (600 * 1000000000) now'" and "now \<le> now'"
    and "forge_mod_query cfg now reg player client fml3 input st = ((out, FQ_failed, rest), st1)"
    and "fst (find_probe now player (rank client (visible_online now reg)) st) = Some srv" and "id_pattern (sv_id srv)"
  shows "(\<forall>c \<in> set (fst (not_rejected now' player cands st1)). sv_id (ca_server c) \<noteq> sv_id srv)
     \<and> (\<forall>srv'. fst (find_probe now' player cands st1) = Some srv' \<longrightarrow> sv_id srv' \<noteq> sv_id srv)
     \<and> (\<forall>q y. id_pattern y \<longrightarrow> \<not> (to_lower q = to_lower player \<and> y = sv_id srv) \<longrightarrow>
           fst (pending_rejected now' q y st1) = fst (pending_rejected now' q y st))"
proof -
  let ?f = "find_probe now player (rank client (visible_online now reg)) st"
  have st1: "st1 = pending_reject now player (sv_id srv) (600 * 1000000000) (snd ?f)"
    using assms(4,5) by (cases ?f) (auto simp: forge_mod_query_def Let_def split: prod.splits sum.splits if_splits)
  have inv: "kv_inv (snd ?f)" and same: "fst (pending_rejected now' q y (snd ?f)) = fst (pending_rejected now' q y st)" for q y
    using find_probe_state [OF assms(1,3)] by blast+
  have inv1: "kv_inv st1" unfolding st1 by (simp add: pending_reject_def kv.inv_put [OF inv])
  have rejected: "fst (pending_rejected now' q y st1) \<longleftrightarrow>
      (to_lower q = to_lower player \<and> y = sv_id srv) \<or> fst (pending_rejected now' q y st)" if "id_pattern y" for q y
    unfolding st1 using assms(2) rejected_key_inject [OF that assms(6), of q player] same [of q y]
    by (auto simp: fst_pending_rejected pending_reject_def kv.get_put [OF inv])
  have "fst (pending_rejected now' player (sv_id srv) st1)" using rejected [OF assms(6)] by simp
  then show ?thesis
    using not_rejected_eq [OF inv1, of now' player cands] find_probe_fresh [OF inv1, of now' player cands] rejected
    by auto
qed

definition button_click :: "string \<Rightarrow> byte list" where
  "button_click action = b_string action (new_packet CfgCustomClickActionID)"

lemma dialog_action_click: "string_ok 32767 action \<Longrightarrow> dialog_action (button_click action) = Some action"
proof -
  assume a: "string_ok 32767 action"
  have "button_click action = b_varint 8 [] @ b_string action []"
    by (simp add: button_click_def new_packet_varint string_field.put_append [of action "b_varint 8 []"])
  then show ?thesis
    using a read_string_put [OF a, of "[]"] by (simp add: dialog_action_def get_put int32_range_def)
qed

text \<open>Every button of the dialog does what it says: a click on the button of a candidate is answered by
  a transfer to that server, if the registry still has it online and of a fitting version, and by the
  message that it is gone otherwise; the dialog has the first thirty candidates.\<close>

theorem dialog_button_honoured:
  assumes "c \<in> set (take maxDialogServers cands)" and "id_pattern (sv_id (ca_server c))"
  shows "(\<exists>label tooltip. N_compound [(''label'', label), (''tooltip'', tooltip), (''width'', N_int 200),
             (''action'', custom_action (actionJoinPrefix @ sv_id (ca_server c)))] \<in> set (map dialog_button (take maxDialogServers cands)))
     \<and> dialog_loop look protocol (Packet (button_click (actionJoinPrefix @ sv_id (ca_server c))) # es) =
         ([], case look (sv_id (ca_server c)) of
                None \<Rightarrow> D_unavailable (sv_id (ca_server c))
              | Some srv \<Rightarrow> if sv_online srv \<and> accepts srv protocol then D_chosen srv
                            else D_unavailable (sv_id (ca_server c)))"
proof -
  let ?i = "sv_id (ca_server c)"
  have "\<forall>x \<in> set (actionJoinPrefix @ ?i). (of_char x :: nat) < 128" "length (actionJoinPrefix @ ?i) \<le> 32767"
    using id_pattern_ascii [OF assms(2)] id_pattern_chars [OF assms(2)] by (auto simp: actionJoinPrefix_def)
  then have "string_ok 32767 (actionJoinPrefix @ ?i)" by (intro ascii_ok) simp_all
  note a = dialog_action_click [OF this]
  have "actionJoinPrefix @ ?i \<noteq> actionLeave" by (simp add: actionJoinPrefix_def actionLeave_def)
  then have "dialog_loop look protocol (Packet (button_click (actionJoinPrefix @ ?i)) # es) =
         ([], case look ?i of None \<Rightarrow> D_unavailable ?i
              | Some srv \<Rightarrow> if sv_online srv \<and> accepts srv protocol then D_chosen srv else D_unavailable ?i)"
    by (simp add: a split: option.splits)
  moreover have "dialog_button c \<in> set (map dialog_button (take maxDialogServers cands))" using assms(1) by simp
  ultimately show ?thesis by (auto simp: dialog_button_def Let_def)
qed

text \<open>A choice that the lobby remembers for a player is honoured: after the gateway told a player that it
  matched a server, or guessed one, or let the player choose one in the limbo, the next plain login of
  that player within the time configured goes to that server, if it is still online and fits.\<close>

theorem remembered_choice_honoured:
  assumes "kv_inv st" and "reg_inv reg" and "kv_lasts now (rc_pending_ttl cfg) now'"
    and "hs_intent hs' \<noteq> IntentTransfer" and "\<not> is_lobby_host cfg (hs_host hs')"
    and "subdomain_server cfg (hs_host hs') = []"
    and "reg_get now' reg' i = Some srv'" and "sv_online srv'" and "accepts srv' (hs_protocol hs')"
  shows "(\<forall>srv. map_option ca_server (pick (fst (not_rejected now player (rank client (visible_online now reg)) st))
              (rc_auto_min_score cfg) (rc_auto_margin cfg)) = Some srv \<and> sv_id srv = i \<longrightarrow>
          \<not> (force \<and> supported (hs_protocol hs)) \<longrightarrow>
          fst (route_login hmac cfg now' reg' hs' player input (snd (login_match cfg now reg hs player force client st)))
            = R_connect i ''pending'')
     \<and> (\<forall>c cs. rank client (visible_online now reg) = c # cs \<and> sv_id (ca_server c) = i \<longrightarrow>
          pick (c # cs) (rc_auto_min_score cfg) (rc_auto_margin cfg) = None \<and> hs_protocol hs < Proto1_21_6 \<longrightarrow>
          fst (route_login hmac cfg now' reg' hs' player input (snd (config_match cfg now reg look hs player force client es st)))
            = R_connect i ''pending'')
     \<and> (\<forall>msg. fst (limbo_choose cfg now reg (hs_protocol hs) player i st) = Inl msg \<longrightarrow>
          fst (route_login hmac cfg now' reg' hs' player input (snd (limbo_choose cfg now reg (hs_protocol hs) player i st)))
            = R_connect i ''pending'')"
proof -
  have go: "fst (route_login hmac cfg now' reg' hs' player input (pending_set now player i (rc_pending_ttl cfg) st0)) = R_connect i ''pending''"
    if "kv_inv st0" for st0
    using pending_login_honoured [OF that assms(3) refl _ assms(5-9)] assms(4) by blast
  show ?thesis
  proof (intro conjI allI impI)
    fix srv
    assume "map_option ca_server (pick (fst (not_rejected now player (rank client (visible_online now reg)) st))
              (rc_auto_min_score cfg) (rc_auto_margin cfg)) = Some srv \<and> sv_id srv = i"
      "\<not> (force \<and> supported (hs_protocol hs))"
    then have "snd (login_match cfg now reg hs player force client st)
        = pending_set now player i (rc_pending_ttl cfg) (snd (not_rejected now player (rank client (visible_online now reg)) st))"
      by (auto simp: login_match_def Let_def split: prod.splits)
    then show "fst (route_login hmac cfg now' reg' hs' player input (snd (login_match cfg now reg hs player force client st)))
        = R_connect i ''pending''"
      using go [OF not_rejected_state [OF assms(1)]] by simp
  next
    fix c cs
    assume "rank client (visible_online now reg) = c # cs \<and> sv_id (ca_server c) = i"
      "pick (c # cs) (rc_auto_min_score cfg) (rc_auto_margin cfg) = None \<and> hs_protocol hs < Proto1_21_6"
    then have "snd (config_match cfg now reg look hs player force client es st) = pending_set now player i (rc_pending_ttl cfg) st"
      by (simp add: config_match_def)
    then show "fst (route_login hmac cfg now' reg' hs' player input (snd (config_match cfg now reg look hs player force client es st)))
        = R_connect i ''pending''"
      using go [OF assms(1)] by simp
  next
    fix msg
    assume "fst (limbo_choose cfg now reg (hs_protocol hs) player i st) = Inl msg"
    then have "snd (limbo_choose cfg now reg (hs_protocol hs) player i st) = pending_set now player i (rc_pending_ttl cfg) st"
      using registry_dir.lookup_id [OF assms(2), of now i] by (auto simp: limbo_choose_def split: option.splits if_splits)
    then show "fst (route_login hmac cfg now' reg' hs' player input (snd (limbo_choose cfg now reg (hs_protocol hs) player i st)))
        = R_connect i ''pending''"
      using go [OF assms(1)] by simp
  qed
qed

text \<open>The lines of one candidate.\<close>

definition address_line :: "router_config \<Rightarrow> candidate \<Rightarrow> text_comp list" where
  "address_line cfg c =
     [C (sv_name (ca_server c)) ''green'', C ('' ('' @ version_part (ca_server c) @ ''): '') ''gray'',
      C (server_address cfg (ca_server c) @ newline) ''aqua'']"

lemma address_loop_eq:
  "n \<le> 10 \<Longrightarrow> address_loop cfg skip len n cs =
     (let others = filter (\<lambda>c. sv_id (ca_server c) \<noteq> skip) cs in
      concat (map (address_line cfg) (take (10 - n) others))
      @ (if length others > 10 - n then [C (''... and '' @ itoa (int len - 10) @ '' more'' @ newline) ''dark_gray''] else []))"
proof (induction cs arbitrary: n)
  case (Cons c cs)
  show ?case
  proof (cases "sv_id (ca_server c) = skip \<or> n = 10")
    case True
    then show ?thesis using Cons by (auto simp: Let_def)
  next
    case False
    then have "10 - n = Suc (10 - (n + 1))" "n + 1 \<le> 10" using Cons.prems by auto
    then show ?thesis using False Cons.IH [of "n + 1"] by (simp add: Let_def address_line_def)
  qed
qed (simp add: Let_def)

text \<open>The list of addresses has the first ten candidates other than the one left out, and a last line if
  there are more. The number in that line counts the candidate left out as well: if it is one of the
  candidates, the line promises one server more than there are.\<close>

theorem address_lines_cut:
  "(let others = filter (\<lambda>c. sv_id (ca_server c) \<noteq> skip) cands in
    address_lines cfg cands skip =
      concat (map (address_line cfg) (take 10 others))
      @ (if length others > 10
         then [C (''... and '' @ itoa (int (length others - 10) + int (length cands - length others)) @ '' more'' @ newline) ''dark_gray'']
         else []))"
proof -
  have "length (filter (\<lambda>c. sv_id (ca_server c) \<noteq> skip) cands) \<le> length cands" by simp
  then show ?thesis
    by (auto simp: address_lines_def address_loop_eq Let_def)
qed

section \<open>Witnesses\<close>

definition demo_login_start :: login_start where
  "demo_login_start = \<lparr>ls_name = ''Alex'', ls_uuid = zero_uuid, ls_has_uuid = False\<rparr>"

lemma demo_lobby_match:
  "config_match demo_cfg 5000000000 demo_reg (\<lambda>_. None) demo_hs ''Alex'' False
     (probed_client no_probe (handshake_client demo_hs)) [] demo_store = (([], L_transfer demo_backend), demo_store)"
proof -
  have "map ca_server (rank (probed_client no_probe (handshake_client demo_hs)) (visible_online 5000000000 demo_reg)) = [demo_backend]"
    "map_option ca_server (pick (rank (probed_client no_probe (handshake_client demo_hs)) (visible_online 5000000000 demo_reg))
       (rc_auto_min_score demo_cfg) (rc_auto_margin demo_cfg)) = Some demo_backend"
    by code_simp+
  then show ?thesis by (auto simp: config_match_def)
qed


definition demo_forge :: server where
  "demo_forge = demo_backend\<lparr>sv_loader := ''forge'', sv_protocol := 757, sv_forge_channels :=
     [\<lparr>fc_name = ''create:main'', fc_version = ''1'', fc_accepts_absent = False\<rparr>]\<rparr>"

definition demo_forge_client :: client where
  "demo_forge_client = \<lparr>cl_protocol = 757, cl_loader = ''forge'', cl_mods = None\<rparr>"

theorem refused_backend_skipped_witness:
  "''survival'' \<notin> (\<lambda>c. sv_id (ca_server c)) `
     set (fst (not_rejected 65000000000 ''Alex'' [\<lparr>ca_server = demo_forge, ca_score = 90, ca_certain = True\<rparr>]
       (snd (forge_mod_query demo_cfg 5000000000 [(''survival'', demo_forge)] ''Alex'' demo_forge_client False [] demo_store))))"
proof -
  let ?q = "forge_mod_query demo_cfg 5000000000 [(''survival'', demo_forge)] ''Alex'' demo_forge_client False [] demo_store"
  let ?cands = "[\<lparr>ca_server = demo_forge, ca_score = 90, ca_certain = True\<rparr>]"
  have f: "kv_inv demo_store" "kv_lasts 5000000000 (600 * 1000000000) 65000000000" "(5000000000 :: time) \<le> 65000000000"
    "fst (find_probe 5000000000 ''Alex'' (rank demo_forge_client (visible_online 5000000000 [(''survival'', demo_forge)])) demo_store)
       = Some demo_forge" "id_pattern (sv_id demo_forge)" "sv_id demo_forge = ''survival''"
    "query_forge_mods [] = (Inl (Q_frame E_eof), [])"
    by code_simp+
  have "\<exists>out rest. ?q = ((out, FQ_failed, rest), snd ?q)"
    using f(4,7) by (auto simp: forge_mod_query_def Let_def split: prod.splits)
  then obtain out rest where "?q = ((out, FQ_failed, rest), snd ?q)" by blast
  from refused_backend_skipped [OF f(1-3) this f(4,5), of ?cands] show ?thesis using f(6) by auto
qed

theorem dialog_button_honoured_witness:
  "dialog_loop (\<lambda>_. Some demo_backend) 767 (Packet (button_click (actionJoinPrefix @ ''survival'')) # []) = ([], D_chosen demo_backend)"
proof -
  have f: "\<lparr>ca_server = demo_backend, ca_score = 90, ca_certain = True\<rparr>
      \<in> set (take maxDialogServers [\<lparr>ca_server = demo_backend, ca_score = 90, ca_certain = True\<rparr>])"
    by (simp add: maxDialogServers_def)
  have g: "id_pattern (sv_id demo_backend)" "sv_id demo_backend = ''survival''" "sv_online demo_backend" "accepts demo_backend 767"
    by code_simp+
  show ?thesis
    using dialog_button_honoured [OF f, of "\<lambda>_. Some demo_backend" 767 "[]"] g by simp
qed

theorem remembered_choice_honoured_witness:
  "fst (route_login no_hmac demo_cfg 65000000000 demo_old_reg demo_old_hs ''Alex'' []
     (snd (limbo_choose demo_cfg 5000000000 demo_old_reg 758 ''Alex'' ''survival'' demo_store))) = R_connect ''survival'' ''pending''"
proof -
  let ?srv = "demo_backend\<lparr>sv_protocol := 758\<rparr>"
  have f: "kv_inv demo_store" "reg_inv demo_old_reg" "kv_lasts 5000000000 (rc_pending_ttl demo_cfg) 65000000000"
    "hs_intent demo_old_hs \<noteq> IntentTransfer" "\<not> is_lobby_host demo_cfg (hs_host demo_old_hs)"
    "subdomain_server demo_cfg (hs_host demo_old_hs) = []" "reg_get 65000000000 demo_old_reg ''survival'' = Some ?srv"
    "sv_online ?srv" "accepts ?srv (hs_protocol demo_old_hs)" "hs_protocol demo_old_hs = 758"
    "reg_get 5000000000 demo_old_reg ''survival'' = Some ?srv"
    by code_simp+
  have "\<exists>msg. fst (limbo_choose demo_cfg 5000000000 demo_old_reg 758 ''Alex'' ''survival'' demo_store) = Inl msg"
    using f(8-11) by (simp add: limbo_choose_def)
  then show ?thesis
    using remembered_choice_honoured [OF f(1-9), where hs = demo_old_hs and player = "''Alex''"
        and hmac = no_hmac and input = "[]", THEN conjunct2, THEN conjunct2] f(10) by auto
qed

end
