(* ===== verification/Sessions.thy ===== *)
theory Sessions
  imports Exposition Status_Page Lobby
begin

text \<open>
  \<^verbatim>\<open>internal/router/router.go\<close>, \<^verbatim>\<open>ServeListener\<close>: the accept loop, the ticker goroutine and one goroutine per
  connection, on the state they share with the rest of the gateway: registry and store, the limiter, the
  semaphore of the lobby, the number of players in it and the status cache. A session is the point that its
  goroutine has reached; the sections under a mutex and the operations on the semaphore and on the atomic
  counter are one step each. What a login, a status request or a stay in the lobby does to the store is one
  step of the session too, and the counters of the metrics are left out; requests of owners, health checks and other sessions come between the steps in any
  order. A read ends when the environment ends it, as the deadlines of the connection do. A panic ends the
  process, so a step that would panic does not lead to a state.

  The lemmas show that the handlers do to the shared state nothing but operations of the store, so that what is
  proved of \<open>gateway_reach\<close> holds while sessions run; that limits are kept for the sessions really open; that
  a release never blocks; that every session ends and gives back what it holds; and that a session that nothing
  interrupts does what \<^verbatim>\<open>handle\<close> of Status_Page says.
\<close>

section \<open>State\<close>

text \<open>
  What the goroutine of a session does next: read the handshake, dispatch, copy bytes, call \<^verbatim>\<open>lobby\<close>, count itself,
  stay in the lobby, give back its slot there, or give back its connection to the limiter.
\<close>

type_synonym visitor = "handshake \<times> login_start \<times> bool"

datatype stage =
    G_admitted net_addr "byte list"
  | G_opened opened
  | G_piping
  | G_entering visitor
  | G_slot visitor
  | G_lobby visitor
  | G_left
  | G_closing

text \<open>\<open>N_held\<close>: admitted by the limiter for an IP, with the release function it returned.\<close>

datatype session =
    N_accepted net_addr "byte list"
  | N_held string "nat option" stage
  | N_closed

record running =
  rn_now :: time
  rn_state :: api_state
  rn_limiter :: limiter
  rn_slots :: semaphore
  rn_active :: int
  rn_cache :: status_cache
  rn_listening :: bool
  rn_sessions :: "session list"

definition start_running :: "time \<Rightarrow> started_gateway \<Rightarrow> running" where
  "start_running now gw =
     \<lparr>rn_now = now, rn_state = gw_state gw, rn_limiter = started_gateway.gw_limiter gw, rn_slots = gw_lobby_slots gw,
      rn_active = 0, rn_cache = [], rn_listening = True, rn_sessions = []\<rparr>"

section \<open>The steps of a session\<close>

definition set_session :: "nat \<Rightarrow> session \<Rightarrow> running \<Rightarrow> running" where
  "set_session i s r = r\<lparr>rn_sessions := (rn_sessions r)[i := s]\<rparr>"

definition set_store :: "kv_store \<Rightarrow> running \<Rightarrow> running" where
  "set_store kv r = r\<lparr>rn_state := (rn_state r)\<lparr>as_store := kv\<rparr>\<rparr>"

text \<open>\<^verbatim>\<open>handle\<close> before and after the call of \<^verbatim>\<open>acquire\<close>.\<close>

definition client_of ::
  "router_config \<Rightarrow> (string \<Rightarrow> ip option) \<Rightarrow> net_addr \<Rightarrow> byte list \<Rightarrow> (net_addr \<times> byte list) option" where
  "client_of cfg parse_ip remote input =
     (case (if rc_accept_proxy cfg then read_proxy_header parse_ip input else Inr (None, input)) of
        Inl _ \<Rightarrow> None
      | Inr (addr, input) \<Rightarrow> Some (case addr of Some a \<Rightarrow> Tcp a | None \<Rightarrow> remote, input))"

definition read_open :: "net_addr \<Rightarrow> nat option \<Rightarrow> byte list \<Rightarrow> opened option" where
  "read_open client r input =
     (if input = [] \<or> hd input = 0xFE then None
      else case read_frame input of
             Inl _ \<Rightarrow> None
           | Inr ((raw, payload), input) \<Rightarrow>
               (case parse_handshake payload of
                  Inl _ \<Rightarrow> None
                | Inr hs \<Rightarrow> Some \<lparr>op_client = client, op_hs = hs, op_hs_raw = raw, op_input = input, op_release = r\<rparr>))"

definition session_admit ::
  "router_config \<Rightarrow> (string \<Rightarrow> ip option) \<Rightarrow> (net_addr \<Rightarrow> string) \<Rightarrow> nat \<Rightarrow> net_addr \<Rightarrow> byte list \<Rightarrow> running \<Rightarrow> running" where
  "session_admit cfg parse_ip ip_string i remote input r =
     (case client_of cfg parse_ip remote input of
        None \<Rightarrow> set_session i N_closed r
      | Some (client, input) \<Rightarrow>
          (case acquire (rn_now r) (ip_string client) (rn_limiter r) of
             (Refused _, l) \<Rightarrow> set_session i N_closed (r\<lparr>rn_limiter := l\<rparr>)
           | (Admitted rel, l) \<Rightarrow>
               set_session i (N_held (ip_string client) rel (G_admitted client input)) (r\<lparr>rn_limiter := l\<rparr>)))"

definition session_open :: "nat \<Rightarrow> string \<Rightarrow> nat option \<Rightarrow> net_addr \<Rightarrow> byte list \<Rightarrow> running \<Rightarrow> running" where
  "session_open i ip rel client input r =
     set_session i (N_held ip rel (case read_open client rel input of None \<Rightarrow> G_closing | Some op \<Rightarrow> G_opened op)) r"

text \<open>The dispatch on the intent, up to the call of \<^verbatim>\<open>lobby\<close> or to the copying; \<open>None\<close> is a panic.\<close>

definition dispatch ::
  "hmac \<Rightarrow> (server \<Rightarrow> byte list option) option \<Rightarrow> (server \<Rightarrow> net_addr option) \<Rightarrow> byte list \<Rightarrow> router_config \<Rightarrow> time
    \<Rightarrow> registry \<Rightarrow> string \<Rightarrow> opened \<Rightarrow> status_cache \<times> kv_store \<Rightarrow> (stage \<times> status_cache \<times> kv_store) option" where
  "dispatch hmac keys dialer nonce cfg now reg ip op s =
     (case s of (cache, kv) \<Rightarrow>
      let hs = op_hs op in
      if hs_intent hs = IntentStatus
      then (case handle_status cfg now reg ip hs (op_input op) cache kv of
              (ST_answer _, s) \<Rightarrow> Some (G_closing, s)
            | (ST_pipe srv, s) \<Rightarrow>
                (case pipe hmac keys (dialer srv) now nonce (op_client op) (hs_intent hs) srv [op_hs_raw op] of
                   P_panic \<Rightarrow> None
                 | P_refused _ \<Rightarrow> Some (G_closing, s)
                 | P_sent _ \<Rightarrow> Some (G_piping, s)))
      else if hs_intent hs = IntentLogin \<or> hs_intent hs = IntentTransfer
      then (case serve_login hmac keys dialer nonce cfg now reg ip op kv of
              (S_panic, kv) \<Rightarrow> None
            | (S_lobby force login, kv) \<Rightarrow> Some (G_entering (hs, login, force), cache, kv)
            | (S_backend _ _, kv) \<Rightarrow> Some (G_piping, cache, kv)
            | (_, kv) \<Rightarrow> Some (G_closing, cache, kv))
      else Some (G_closing, s))"

definition session_serve ::
  "hmac \<Rightarrow> (server \<Rightarrow> byte list option) option \<Rightarrow> (server \<Rightarrow> net_addr option) \<Rightarrow> byte list \<Rightarrow> router_config
    \<Rightarrow> nat \<Rightarrow> string \<Rightarrow> nat option \<Rightarrow> opened \<Rightarrow> running \<Rightarrow> running option" where
  "session_serve hmac keys dialer nonce cfg i ip rel op r =
     map_option (\<lambda>(g, cache, kv). set_session i (N_held ip rel g) (set_store kv (r\<lparr>rn_cache := cache\<rparr>)))
       (dispatch hmac keys dialer nonce cfg (rn_now r) (as_reg (rn_state r)) ip op (rn_cache r, as_store (rn_state r)))"

text \<open>\<^verbatim>\<open>lobby\<close>: its first lines, what it does with the player, and its deferred calls.\<close>

definition session_enter :: "nat \<Rightarrow> string \<Rightarrow> nat option \<Rightarrow> visitor \<Rightarrow> running \<Rightarrow> running" where
  "session_enter i ip rel v r =
     (case try_acquire (rn_slots r) of
        (ok, slots) \<Rightarrow> set_session i (N_held ip rel (if ok then G_slot v else G_closing)) (r\<lparr>rn_slots := slots\<rparr>))"

definition session_count :: "nat \<Rightarrow> string \<Rightarrow> nat option \<Rightarrow> visitor \<Rightarrow> running \<Rightarrow> running" where
  "session_count i ip rel v r = set_session i (N_held ip rel (G_lobby v)) (r\<lparr>rn_active := rn_active r + 1\<rparr>)"

definition lobby_stay ::
  "hmac \<Rightarrow> (byte list \<Rightarrow> byte list) \<Rightarrow> (string \<Rightarrow> byte list option) \<Rightarrow> router_config \<Rightarrow> time \<Rightarrow> registry
    \<Rightarrow> (string \<Rightarrow> server option) \<Rightarrow> visitor \<Rightarrow> byte list \<Rightarrow> client_event list \<Rightarrow> kv_store \<Rightarrow> lobby_end \<times> kv_store" where
  "lobby_stay hmac md5 load cfg now reg look v input es kv =
     (case v of (hs, login, force) \<Rightarrow>
        if hs_protocol hs \<ge> Proto1_20_5
        then (case lobby_config hmac cfg now reg look hs login force es kv of ((_, e), kv) \<Rightarrow> (e, kv))
        else case lobby_login cfg now reg hs (ls_name login) force input kv of
               ((_, L_limbo client, _), kv) \<Rightarrow>
                 (L_limbo client,
                  case limbo_lobby md5 load cfg now reg hs login client es kv of None \<Rightarrow> kv | Some (_, _, kv) \<Rightarrow> kv)
             | ((_, e, _), kv) \<Rightarrow> (e, kv))"

definition session_leave ::
  "hmac \<Rightarrow> (byte list \<Rightarrow> byte list) \<Rightarrow> (string \<Rightarrow> byte list option) \<Rightarrow> router_config
    \<Rightarrow> (string \<Rightarrow> server option) \<Rightarrow> byte list \<Rightarrow> client_event list
    \<Rightarrow> nat \<Rightarrow> string \<Rightarrow> nat option \<Rightarrow> visitor \<Rightarrow> running \<Rightarrow> running" where
  "session_leave hmac md5 load cfg look input es i ip rel v r =
     (case lobby_stay hmac md5 load cfg (rn_now r) (as_reg (rn_state r)) look v input es (as_store (rn_state r)) of
        (_, kv) \<Rightarrow> set_session i (N_held ip rel G_left) (set_store kv (r\<lparr>rn_active := rn_active r - 1\<rparr>)))"

text \<open>\<open>None\<close>: the goroutine blocks on the empty semaphore.\<close>

definition session_free :: "nat \<Rightarrow> string \<Rightarrow> nat option \<Rightarrow> running \<Rightarrow> running option" where
  "session_free i ip rel r =
     map_option (\<lambda>slots. set_session i (N_held ip rel G_closing) (r\<lparr>rn_slots := slots\<rparr>)) (sem_release (rn_slots r))"

definition session_close :: "nat \<Rightarrow> nat option \<Rightarrow> running \<Rightarrow> running" where
  "session_close i rel r = set_session i N_closed (r\<lparr>rn_limiter := release_slot rel (rn_limiter r)\<rparr>)"

section \<open>Interleavings\<close>

text \<open>The session \<open>i\<close> is at the point \<open>s\<close>.\<close>

definition at_point :: "nat \<Rightarrow> session \<Rightarrow> running \<Rightarrow> bool" where
  "at_point i s r \<longleftrightarrow> i < length (rn_sessions r) \<and> rn_sessions r ! i = s"

inductive session_step :: "router_config \<Rightarrow> nat \<Rightarrow> running \<Rightarrow> running \<Rightarrow> bool" for cfg i where
  admit: "at_point i (N_accepted remote input) r \<Longrightarrow>
    session_step cfg i r (session_admit cfg parse_ip ip_string i remote input r)"
| read: "at_point i (N_held ip rel (G_admitted client input)) r \<Longrightarrow>
    session_step cfg i r (session_open i ip rel client input r)"
| serve: "at_point i (N_held ip rel (G_opened op)) r \<Longrightarrow>
    session_serve hmac keys dialer nonce cfg i ip rel op r = Some r' \<Longrightarrow> session_step cfg i r r'"
| piped: "at_point i (N_held ip rel G_piping) r \<Longrightarrow> session_step cfg i r (set_session i (N_held ip rel G_closing) r)"
| enter: "at_point i (N_held ip rel (G_entering v)) r \<Longrightarrow> session_step cfg i r (session_enter i ip rel v r)"
| counted: "at_point i (N_held ip rel (G_slot v)) r \<Longrightarrow> session_step cfg i r (session_count i ip rel v r)"
| leave: "at_point i (N_held ip rel (G_lobby v)) r \<Longrightarrow>
    session_step cfg i r (session_leave hmac md5 load cfg look input es i ip rel v r)"
| free: "at_point i (N_held ip rel G_left) r \<Longrightarrow> session_free i ip rel r = Some r' \<Longrightarrow> session_step cfg i r r'"
| close: "at_point i (N_held ip rel G_closing) r \<Longrightarrow> session_step cfg i r (session_close i rel r)"

text \<open>The clock is monotone; the ticker runs while the gateway does, its two calls are two steps.\<close>

inductive router_step :: "started_gateway \<Rightarrow> running \<Rightarrow> running \<Rightarrow> bool" for gw where
  outside: "gateway_step gw (rn_state r) st' \<Longrightarrow> router_step gw r (r\<lparr>rn_state := st'\<rparr>)"
| clock: "rn_now r \<le> now \<Longrightarrow> router_step gw r (r\<lparr>rn_now := now\<rparr>)"
| accept: "rn_listening r \<Longrightarrow> router_step gw r (r\<lparr>rn_sessions := rn_sessions r @ [N_accepted remote input]\<rparr>)"
| shutdown: "router_step gw r (r\<lparr>rn_listening := False\<rparr>)"
| prune: "rn_listening r \<Longrightarrow> router_step gw r (set_store (pending_prune (rn_now r) (as_store (rn_state r))) r)"
| sweep: "rn_listening r \<Longrightarrow> router_step gw r (r\<lparr>rn_limiter := limiter_sweep (rn_now r) (rn_limiter r)\<rparr>)"
| session: "session_step (gw_router gw) i r r' \<Longrightarrow> router_step gw r r'"

inductive running_reach :: "started_gateway \<Rightarrow> running \<Rightarrow> bool" for gw where
  start: "running_reach gw (start_running now gw)"
| step: "running_reach gw r \<Longrightarrow> router_step gw r r' \<Longrightarrow> running_reach gw r'"

section \<open>The handlers on the store\<close>

text \<open>What any sequence of operations makes of the store.\<close>

inductive store_runs :: "kv_store \<Rightarrow> kv_store \<Rightarrow> bool" for kv where
  none: "store_runs kv kv"
| more: "store_runs kv kv' \<Longrightarrow> store_runs kv (store_step now op kv')"

lemma store_runs_ops:
  assumes "store_runs kv st"
  shows "store_runs kv (snd (store_get now b k st))" "store_runs kv (store_set now b k v ttl st)"
    "store_runs kv (store_delete b k st)" "store_runs kv (store_prune now st)"
  using store_runs.more [OF assms, of now "S_get b k"] store_runs.more [OF assms, of now "S_set b k v ttl"]
    store_runs.more [OF assms, of now "S_delete b k"] store_runs.more [OF assms, of now S_prune] by simp_all

lemma store_runs_pending:
  assumes "store_runs kv st"
  shows "store_runs kv (snd (pending_get now player st))" "store_runs kv (snd (sticky now player st))"
    "store_runs kv (snd (ip_player now ip st))" "store_runs kv (snd (pending_rejected now player i st))"
    "store_runs kv (pending_set now player i ttl st)" "store_runs kv (set_sticky now player i ttl st)"
    "store_runs kv (set_ip_player now ip player ttl st)" "store_runs kv (pending_reject now player i ttl st)"
    "store_runs kv (pending_clear player st)" "store_runs kv (pending_prune now st)"
  using store_runs_ops [OF assms] by (simp_all add: pending_defs pending_prune_def split: prod.splits) (metis snd_conv)

text \<open>The same for a result that is already taken apart.\<close>

lemma store_runs_read:
  assumes "store_runs kv st"
  shows "pending_get now player st = (x, st') \<Longrightarrow> store_runs kv st'" "sticky now player st = (x, st') \<Longrightarrow> store_runs kv st'"
    "ip_player now ip st = (x, st') \<Longrightarrow> store_runs kv st'" "pending_rejected now player i st = (b, st') \<Longrightarrow> store_runs kv st'"
  using store_runs_pending(1-4) [OF assms] by (metis snd_conv)+

lemma store_runs_choice: "store_runs kv st \<Longrightarrow> store_runs kv (snd (pending_choice now reg hs player st))"
  by (simp add: pending_choice_def case_prod_beta store_runs_pending split: option.splits)

lemma store_runs_sticky: "store_runs kv st \<Longrightarrow> store_runs kv (snd (sticky_server cfg now reg hs player st))"
  by (simp add: sticky_server_def case_prod_beta store_runs_pending split: option.splits)

lemma store_runs_plain: "store_runs kv st \<Longrightarrow> store_runs kv (snd (plain_login cfg now reg hs player st))"
  by (simp add: plain_login_def case_prod_beta store_runs_choice store_runs_sticky split: option.splits)

lemma store_runs_route: "store_runs kv st \<Longrightarrow> store_runs kv (snd (route_login hmac cfg now reg hs player input st))"
  by (simp add: route_login_def Let_def store_runs_plain split: option.splits)

lemma store_runs_login: "store_runs kv st \<Longrightarrow> store_runs kv (snd (handle_login hmac cfg now reg ip hs input st))"
  by (simp add: handle_login_def Let_def case_prod_beta store_runs_route store_runs_pending split: sum.splits)

lemma store_runs_connect: "store_runs kv st \<Longrightarrow> store_runs kv (snd (connect cfg now reg hs raw player i st))"
  by (simp add: connect_def Let_def store_runs_pending split: option.splits)

lemma store_runs_serve:
  "store_runs kv (snd (serve_login hmac keys dialer nonce cfg now reg ip op kv))"
  using store_runs_login [OF store_runs.none, of kv hmac cfg now reg ip "op_hs op" "op_input op"]
  by (simp add: serve_login_def case_prod_beta store_runs_connect
      split: option.splits sum.splits route.splits piped.splits)

text \<open>A status request and a stay in the lobby.\<close>

lemma store_runs_personal: "store_runs kv st \<Longrightarrow> store_runs kv (snd (personal_line cfg now reg ip st))"
  by (simp add: personal_line_def case_prod_beta store_runs_pending split: option.splits)

lemma store_runs_status: "store_runs kv (snd (snd (handle_status cfg now reg ip hs input cache kv)))"
  using store_runs_personal [OF store_runs.none, of kv cfg now reg ip]
  by (simp add: handle_status_def status_doc_def Let_def case_prod_beta store_runs.none split: option.splits sum.splits)

lemma store_runs_config_match:
  "store_runs kv (snd (config_match cfg now reg look hs player force client es kv))"
  by (simp add: config_match_def Let_def case_prod_beta store_runs.none store_runs_pending)

lemma store_runs_config:
  "store_runs kv (snd (lobby_config hmac cfg now reg look hs login force es kv))"
  by (simp add: lobby_config_def Let_def case_prod_beta store_runs_config_match store_runs.none split: bool.splits)

lemma store_runs_not_rejected: "store_runs kv st \<Longrightarrow> store_runs kv (snd (not_rejected now player cs st))"
  by (induction cs arbitrary: st) (simp_all add: case_prod_beta store_runs_pending)

lemma store_runs_probe: "store_runs kv st \<Longrightarrow> store_runs kv (snd (find_probe now player cs st))"
  by (induction cs arbitrary: st) (simp_all add: Let_def case_prod_beta store_runs_pending)

lemma store_runs_forge:
  "store_runs kv st \<Longrightarrow> store_runs kv (snd (forge_mod_query cfg now reg player client fml3 input st))"
  by (simp add: forge_mod_query_def Let_def case_prod_beta store_runs_probe store_runs_pending split: option.splits sum.splits)

lemma store_runs_match:
  "store_runs kv st \<Longrightarrow> store_runs kv (snd (login_match cfg now reg hs player force client st))"
  by (simp add: login_match_def Let_def case_prod_beta store_runs_not_rejected store_runs_pending)

lemma store_runs_lobby_login: "store_runs kv (snd (lobby_login cfg now reg hs player force input kv))"
  by (simp add: lobby_login_def Let_def case_prod_beta store_runs_match store_runs_forge store_runs.none split: forge_query.splits)

lemma store_runs_limbo_choose: "store_runs kv st \<Longrightarrow> store_runs kv (snd (limbo_choose cfg now reg p player i st))"
  by (simp add: limbo_choose_def store_runs_pending split: option.splits)

text \<open>Of any state of the caller: what a choice keeps, the limbo keeps.\<close>

lemma command_keeps:
  assumes "\<And>i s. P s \<Longrightarrow> P (snd (choice i s))" and "P s"
  shows "P (snd (snd (handle_command ids o' entries choice cmd s)))"
proof -
  have "P (snd (choice i s))" for i by (rule assms(1) [OF assms(2)])
  then show ?thesis using assms(2)
    by (simp add: handle_command_def Let_def case_prod_beta split: list.splits sum.splits)
qed

lemma limbo_loop_keeps:
  assumes "\<And>i s. P s \<Longrightarrow> P (snd (choice i s))" and "P s"
  shows "P (snd (snd (limbo_loop ids o' entries choice es s)))"
  using assms(2)
proof (induction es arbitrary: s)
  case (Cons e es)
  have "P (snd (snd (handle_command ids o' entries choice cmd s)))" for cmd
    by (rule command_keeps [OF assms(1) Cons.prems])
  then show ?case using Cons by (cases e) (simp_all add: case_prod_beta split: option.splits bool.splits)
qed simp

lemma limbo_serve_keeps:
  assumes "\<And>i s. P s \<Longrightarrow> P (snd (choice i s))" and "P s"
    and "limbo_serve md5 load o' entries choice es s = Some res"
  shows "P (snd (snd res))"
proof -
  have "P (snd (snd (limbo_loop ids o' entries choice es s)))" for ids o' es
    by (rule limbo_loop_keeps [OF assms(1,2)])
  then show ?thesis using assms(2,3)
    by (auto simp: limbo_serve_def Let_def case_prod_beta split: option.splits)
qed

lemma store_runs_limbo:
  assumes "store_runs kv st" and "limbo_lobby md5 load cfg now reg hs login client es st = Some res"
  shows "store_runs kv (snd (snd res))"
  by (rule limbo_serve_keeps [where P = "store_runs kv", OF _ assms(1) assms(2) [unfolded limbo_lobby_def]])
    (rule store_runs_limbo_choose)

lemma store_runs_stay: "store_runs kv (snd (lobby_stay hmac md5 load cfg now reg look v input es kv))"
proof -
  obtain hs login force where v: "v = (hs, login, force)" by (cases v)
  have l: "store_runs kv (snd (lobby_login cfg now reg hs (ls_name login) force input kv))" by (rule store_runs_lobby_login)
  show ?thesis using store_runs_limbo [OF l]
    by (simp add: v lobby_stay_def case_prod_beta store_runs_config l split: lobby_end.splits option.splits)
qed

section \<open>Sessions as steps of the gateway\<close>

lemma gateway_reach_store:
  assumes "store_runs (as_store st) kv" and "gateway_reach gw st"
  shows "gateway_reach gw (st\<lparr>as_store := kv\<rparr>)"
  using assms(1)
proof induction
  case (more kv' now op)
  from gateway_reach.step [OF more.IH gateway_step.session, of now op] show ?case by simp
qed (use assms(2) in simp)

lemma set_session_sel [simp]:
  "rn_now (set_session i s r) = rn_now r" "rn_state (set_session i s r) = rn_state r"
  "rn_limiter (set_session i s r) = rn_limiter r" "rn_slots (set_session i s r) = rn_slots r"
  "rn_active (set_session i s r) = rn_active r" "rn_listening (set_session i s r) = rn_listening r"
  "rn_cache (set_session i s r) = rn_cache r" "rn_sessions (set_session i s r) = (rn_sessions r)[i := s]"
  by (simp_all add: set_session_def)

lemma set_store_sel [simp]:
  "rn_now (set_store kv r) = rn_now r" "rn_state (set_store kv r) = (rn_state r)\<lparr>as_store := kv\<rparr>"
  "rn_limiter (set_store kv r) = rn_limiter r" "rn_slots (set_store kv r) = rn_slots r"
  "rn_active (set_store kv r) = rn_active r" "rn_listening (set_store kv r) = rn_listening r"
  "rn_cache (set_store kv r) = rn_cache r" "rn_sessions (set_store kv r) = rn_sessions r"
  by (simp_all add: set_store_def)

text \<open>What a dispatch can lead to.\<close>

lemma dispatch_Some:
  assumes "dispatch hmac keys dialer nonce cfg now reg ip op (cache, kv) = Some (g, cache', kv')"
  shows "g \<in> {G_closing, G_piping} \<union> range G_entering" "store_runs kv kv'"
proof -
  have "g \<in> {G_closing, G_piping} \<union> range G_entering \<and> store_runs kv kv'"
  proof (cases "hs_intent (op_hs op) = IntentStatus")
    case True
    then show ?thesis using assms store_runs_status [of kv cfg now reg ip "op_hs op" "op_input op" cache]
      by (auto simp: dispatch_def Let_def split: prod.splits status_out.splits piped.splits)
  next
    case False
    then show ?thesis using assms store_runs_serve [of kv hmac keys dialer nonce cfg now reg ip op] store_runs.none [of kv]
      by (auto simp: dispatch_def Let_def split: if_splits prod.splits served.splits)
  qed
  then show "g \<in> {G_closing, G_piping} \<union> range G_entering" "store_runs kv kv'" by simp_all
qed

definition touched :: "api_state \<Rightarrow> api_state \<Rightarrow> bool" where
  "touched st st' \<longleftrightarrow> (\<exists>kv. st' = st\<lparr>as_store := kv\<rparr> \<and> store_runs (as_store st) kv)"

lemma touched_store: "store_runs (as_store st) kv \<Longrightarrow> touched st (st\<lparr>as_store := kv\<rparr>)"
  by (auto simp: touched_def)

lemma touched_refl: "touched st st"
  using touched_store [OF store_runs.none, of st] by simp

lemma session_step_state: "session_step cfg i r r' \<Longrightarrow> touched (rn_state r) (rn_state r')"
proof (induction rule: session_step.induct)
  case (serve ip rel op r hmac keys dialer nonce r')
  then show ?case by (auto simp: session_serve_def intro!: touched_store dest: dispatch_Some(2))
next
  case (leave ip rel v r hmac md5 load look input es)
  then show ?case by (auto simp: session_leave_def case_prod_beta intro!: touched_store store_runs_stay)
qed (auto simp: touched_refl session_admit_def session_open_def session_enter_def session_count_def session_free_def
      session_close_def case_prod_beta split: option.splits admission.splits)

text \<open>Whatever is proved of the states in \<open>gateway_reach\<close> holds while sessions run.\<close>

lemma running_gateway: "running_reach gw r \<Longrightarrow> gateway_reach gw (rn_state r)"
proof (induction rule: running_reach.induct)
  case (start now)
  then show ?case by (simp add: start_running_def gateway_reach.start)
next
  case (step r r')
  from step(2) show ?case
  proof cases
    case (outside st')
    then show ?thesis using gateway_reach.step [OF step.IH] by simp
  next
    case prune
    then show ?thesis
      using gateway_reach_store [OF store_runs_pending(10) [OF store_runs.none] step.IH] by simp
  next
    case (session i)
    then show ?thesis using session_step_state [OF session] gateway_reach_store [OF _ step.IH] by (auto simp: touched_def)
  qed (use step.IH in simp_all)
qed

section \<open>The invariant\<close>

text \<open>The connections that the limiter counts, the sessions with a slot of the lobby and those in it.\<close>

fun counted :: "session \<Rightarrow> (string \<times> nat) list" where
  "counted (N_held ip (Some p) g) = [(ip, p)]"
| "counted s = []"

fun in_slot :: "session \<Rightarrow> bool" where
  "in_slot (N_held ip rel (G_slot v)) = True"
| "in_slot (N_held ip rel (G_lobby v)) = True"
| "in_slot (N_held ip rel G_left) = True"
| "in_slot s = False"

fun in_lobby :: "session \<Rightarrow> bool" where
  "in_lobby (N_held ip rel (G_lobby v)) = True"
| "in_lobby s = False"

text \<open>The open sessions of an IP: admitted and not yet given back.\<close>

fun open_for :: "string \<Rightarrow> session \<Rightarrow> bool" where
  "open_for ip (N_held ip' rel g) = (ip' = ip)"
| "open_for ip s = False"

definition conns :: "running \<Rightarrow> (string \<times> nat) list" where
  "conns r = concat (map counted (rn_sessions r))"

definition number :: "(session \<Rightarrow> bool) \<Rightarrow> running \<Rightarrow> nat" where
  "number P r = length (filter P (rn_sessions r))"

definition slots_ok :: "semaphore \<Rightarrow> nat \<Rightarrow> bool" where
  "slots_ok s n \<longleftrightarrow> (case s of None \<Rightarrow> True | Some (cap, k) \<Rightarrow> k = n \<and> n \<le> cap)"

definition same_limits :: "limiter \<Rightarrow> limiter \<Rightarrow> bool" where
  "same_limits l l' \<longleftrightarrow> lm_rate l = lm_rate l' \<and> lm_max_concurrent l = lm_max_concurrent l'"

definition run_inv :: "started_gateway \<Rightarrow> running \<Rightarrow> bool" where
  "run_inv gw r \<longleftrightarrow>
     lim_inv (rn_now r) (conns r, rn_limiter r) \<and> same_limits (rn_limiter r) (started_gateway.gw_limiter gw)
     \<and> (\<forall>ip g. N_held ip None g \<in> set (rn_sessions r) \<longrightarrow> \<not> enabled (started_gateway.gw_limiter gw))
     \<and> slots_ok (rn_slots r) (number in_slot r) \<and> map_option fst (rn_slots r) = map_option fst (gw_lobby_slots gw)
     \<and> rn_active r = int (number in_lobby r)"

lemma lim_inv_mset:
  assumes "mset cs = mset cs'"
  shows "lim_inv t (cs, l) = lim_inv t (cs', l)"
proof -
  have "set cs = set cs'" by (rule mset_eq_setD [OF assms])
  moreover have "conns_at p cs = conns_at p cs'" for p
    unfolding conns_at_def by (metis assms mset_filter size_mset)
  ultimately show ?thesis by (simp add: lim_inv_def)
qed

lemma concat_update:
  assumes "i < length ss"
  shows "mset (concat (map f (ss[i := s]))) + mset (f (ss ! i)) = mset (concat (map f ss)) + mset (f s)"
proof -
  obtain ys zs where e: "ss = ys @ ss ! i # zs" "\<And>s. ss[i := s] = ys @ s # zs" by (rule split_update [OF assms]) (rule that)
  have "mset (concat (map f ss)) = mset (concat (map f (ys @ ss ! i # zs)))" using e(1) by simp
  then show ?thesis by (simp add: e(2))
qed

text \<open>One session moves from \<open>s\<close> to \<open>s'\<close>.\<close>

lemma conns_step:
  assumes "at_point i s r" and "rn_sessions r' = (rn_sessions r)[i := s']"
  shows "mset (conns r') + mset (counted s) = mset (conns r) + mset (counted s')"
  using assms concat_update [of i "rn_sessions r" counted s'] by (simp add: conns_def at_point_def)

lemma number_step:
  assumes "at_point i s r" and "rn_sessions r' = (rn_sessions r)[i := s']"
  shows "number P r' + (if P s then 1 else 0) = number P r + (if P s' then 1 else 0)"
  using assms count_update [of i "rn_sessions r" P s'] by (auto simp: number_def at_point_def)

lemma run_inv_step:
  assumes inv: "run_inv gw r" and at: "at_point i s r" "rn_sessions r' = (rn_sessions r)[i := s']"
    and now: "rn_now r' = rn_now r"
    and lim: "lim_inv (rn_now r) (conns r', rn_limiter r')" "same_limits (rn_limiter r') (rn_limiter r)"
    and rel: "\<And>ip g. s' = N_held ip None g \<Longrightarrow> (\<exists>g'. s = N_held ip None g') \<or> \<not> enabled (started_gateway.gw_limiter gw)"
    and slots: "slots_ok (rn_slots r') (number in_slot r')" "map_option fst (rn_slots r') = map_option fst (rn_slots r)"
    and active: "rn_active r' - rn_active r = (if in_lobby s' then 1 else 0) - (if in_lobby s then 1 else 0)"
  shows "run_inv gw r'"
proof -
  have "rn_active r' = int (number in_lobby r')"
    using active number_step [OF at, of in_lobby] inv by (simp add: run_inv_def split: if_splits)
  moreover have "\<not> enabled (started_gateway.gw_limiter gw)" if "N_held ip None g \<in> set (rn_sessions r')" for ip g
  proof -
    have "N_held ip None g \<in> set (rn_sessions r) \<or> s' = N_held ip None g"
      using that set_update_subset_insert [of "rn_sessions r" i s'] by (auto simp: at(2))
    then show ?thesis using inv rel at(1) nth_mem [of i "rn_sessions r"] by (fastforce simp: run_inv_def at_point_def)
  qed
  ultimately show ?thesis using inv lim slots by (auto simp: run_inv_def same_limits_def now)
qed

text \<open>A step that touches neither the limiter nor the connections it counts.\<close>

lemma run_inv_stage:
  assumes inv: "run_inv gw r" and at: "at_point i (N_held ip rel g) r" "rn_sessions r' = (rn_sessions r)[i := N_held ip rel g']"
    and same: "rn_now r' = rn_now r" "rn_limiter r' = rn_limiter r" "map_option fst (rn_slots r') = map_option fst (rn_slots r)"
    and slots: "slots_ok (rn_slots r') (number in_slot r')"
    and active: "rn_active r' - rn_active r
      = (if in_lobby (N_held ip rel g') then 1 else 0) - (if in_lobby (N_held ip rel g) then 1 else 0)"
  shows "run_inv gw r'"
proof (rule run_inv_step [OF inv at same(1)])
  have "counted (N_held ip rel g') = counted (N_held ip rel g)" by (cases rel) simp_all
  then have "mset (conns r') = mset (conns r)" using conns_step [OF at] by simp
  then have "lim_inv t (conns r', l) = lim_inv t (conns r, l)" for t l by (rule lim_inv_mset)
  then show "lim_inv (rn_now r) (conns r', rn_limiter r')" using inv by (simp add: run_inv_def same)
  show "same_limits (rn_limiter r') (rn_limiter r)" by (simp add: same same_limits_def)
qed (use same slots active in auto)

text \<open>A step that leaves the lobby alone as well.\<close>

lemma run_inv_quiet:
  assumes "run_inv gw r" and "at_point i (N_held ip rel g) r" and "rn_sessions r' = (rn_sessions r)[i := N_held ip rel g']"
    and "rn_now r' = rn_now r" "rn_limiter r' = rn_limiter r" "rn_slots r' = rn_slots r" "rn_active r' = rn_active r"
    and "in_slot (N_held ip rel g') = in_slot (N_held ip rel g)" "in_lobby (N_held ip rel g') = in_lobby (N_held ip rel g)"
  shows "run_inv gw r'"
proof (rule run_inv_stage [OF assms(1-5)])
  have "number in_slot r' = number in_slot r" using number_step [OF assms(2,3), of in_slot] assms(8) by simp
  then show "slots_ok (rn_slots r') (number in_slot r')" using assms(1,6) by (simp add: run_inv_def)
qed (use assms in simp_all)

text \<open>The limiter.\<close>

lemma acquire_cases:
  assumes inv: "lim_inv now (cs, l)" and a: "acquire now ip l = (res, l')"
  shows "res = Refused x \<Longrightarrow> lim_inv now (cs, l')" "res = Admitted (Some p) \<Longrightarrow> lim_inv now ((ip, p) # cs, l')"
    "res = Admitted None \<Longrightarrow> l' = l \<and> \<not> enabled l" "same_limits l' l"
proof -
  have step: "lim_inv now (lim_step (now, L_acquire ip) (cs, l))" by (rule acquire_inv [OF inv])
  then show "res = Refused x \<Longrightarrow> lim_inv now (cs, l')" "res = Admitted (Some p) \<Longrightarrow> lim_inv now ((ip, p) # cs, l')"
    by (simp_all add: a)
  have "res \<noteq> Admitted None" if "enabled l"
    using that a by (auto simp: acquire_def Let_def case_prod_beta simp del: split_paired_All split_paired_Ex split: if_split_asm)
  moreover have "l' = l" if "\<not> enabled l" using that a by (simp add: acquire_def)
  ultimately show "res = Admitted None \<Longrightarrow> l' = l \<and> \<not> enabled l" by blast
  have "snd (lim_step (now, L_acquire ip) (cs, l)) = l'"
    by (simp add: a split: admission.splits option.splits)
  then show "same_limits l' l"
    using lim_step_sel(1,3) [of "(now, L_acquire ip)" "(cs, l)"] by (simp add: same_limits_def)
qed

lemma release_mset:
  assumes inv: "lim_inv now (cs, l)" and cs: "mset cs = add_mset (ip, p) (mset cs')"
  shows "lim_inv now (cs', release p l)" "same_limits (release p l) l"
proof -
  have "(ip, p) \<in> set cs" using cs by (metis set_mset_mset union_single_eq_member)
  then obtain k where k: "k < length cs" "cs ! k = (ip, p)" by (auto simp: in_set_conv_nth)
  have "mset (take k cs @ cs ! k # drop (Suc k) cs) = mset cs" by (rule arg_cong [OF id_take_nth_drop [OF k(1), symmetric]])
  then have "mset (take k cs @ drop (Suc k) cs) = mset cs'" using cs k(2) by simp
  then have "lim_inv now (take k cs @ drop (Suc k) cs, release p l) = lim_inv now (cs', release p l)" by (rule lim_inv_mset)
  then show "lim_inv now (cs', release p l)" using release_inv [OF inv k(1)] by (simp add: k(2))
  show "same_limits (release p l) l" by (simp add: same_limits_def release_def put_state_def)
qed

lemma same_enabled: "same_limits l l' \<Longrightarrow> enabled l = enabled l'"
  by (simp add: same_limits_def enabled_def)

lemma admit_inv:
  assumes inv: "run_inv gw r" and at: "at_point i (N_accepted remote input) r"
  shows "run_inv gw (session_admit cfg parse_ip ip_string i remote input r)"
proof -
  have l: "lim_inv (rn_now r) (conns r, rn_limiter r)" "same_limits (rn_limiter r) (started_gateway.gw_limiter gw)"
    "slots_ok (rn_slots r) (number in_slot r)"
    using inv by (simp_all add: run_inv_def)
  have goes: "run_inv gw (set_session i s (r\<lparr>rn_limiter := l'\<rparr>))"
    if "\<And>ip g. s = N_held ip None g \<Longrightarrow> \<not> enabled (rn_limiter r)" "\<not> in_slot s" "\<not> in_lobby s"
      and "\<And>cs. mset cs = mset (conns r) + mset (counted s) \<Longrightarrow> lim_inv (rn_now r) (cs, l')" "same_limits l' (rn_limiter r)" for s l'
  proof (rule run_inv_step [OF inv at])
    let ?r = "set_session i s (r\<lparr>rn_limiter := l'\<rparr>)"
    have ss: "rn_sessions ?r = (rn_sessions r)[i := s]" by simp
    show "lim_inv (rn_now r) (conns ?r, rn_limiter ?r)" using conns_step [OF at ss] that(4) by simp
    show "slots_ok (rn_slots ?r) (number in_slot ?r)" using number_step [OF at ss, of in_slot] that(2) l(3) by simp
    show "\<And>ip g. s = N_held ip None g \<Longrightarrow> (\<exists>g'. N_accepted remote input = N_held ip None g') \<or> \<not> enabled (started_gateway.gw_limiter gw)"
      using that(1) same_enabled [OF l(2)] by blast
  qed (use that in simp_all)
  have closed: "run_inv gw (set_session i N_closed (r\<lparr>rn_limiter := l'\<rparr>))"
    if "lim_inv (rn_now r) (conns r, l')" "same_limits l' (rn_limiter r)" for l'
  proof (rule goes)
    show "lim_inv (rn_now r) (cs, l')" if "mset cs = mset (conns r) + mset (counted N_closed)" for cs
      using lim_inv_mset [of cs "conns r" "rn_now r" l'] that \<open>lim_inv (rn_now r) (conns r, l')\<close> by simp
  qed (use that in simp_all)
  show ?thesis
  proof (cases "client_of cfg parse_ip remote input")
    case None
    then show ?thesis using closed [OF l(1)] by (simp add: session_admit_def same_limits_def)
  next
    case (Some c)
    obtain client input' where c: "c = (client, input')" by (cases c)
    obtain res l' where a: "acquire (rn_now r) (ip_string client) (rn_limiter r) = (res, l')" by fastforce
    note facts = acquire_cases [OF l(1) a]
    show ?thesis
    proof (cases res)
      case (Refused x)
      then show ?thesis using closed facts(1,4) by (simp add: session_admit_def Some c a)
    next
      case (Admitted rel)
      have "run_inv gw (set_session i (N_held (ip_string client) rel (G_admitted client input')) (r\<lparr>rn_limiter := l'\<rparr>))"
      proof (rule goes)
        show "lim_inv (rn_now r) (cs, l')" if "mset cs = mset (conns r) + mset (counted (N_held (ip_string client) rel (G_admitted client input')))" for cs
        proof (cases rel)
          case None
          then show ?thesis using that facts(3) Admitted l(1) lim_inv_mset [of cs "conns r"] by simp
        next
          case (Some p)
          then show ?thesis
            using that facts(2) Admitted lim_inv_mset [of cs "(ip_string client, p) # conns r"] by simp
        qed
      qed (use facts(3,4) Admitted in auto)
      then show ?thesis by (simp add: session_admit_def Some c a Admitted)
    qed
  qed
qed

text \<open>The semaphore.\<close>

lemma try_acquire_ok:
  assumes "slots_ok s n" and "try_acquire s = (ok, s')"
  shows "slots_ok s' (if ok then Suc n else n)" "map_option fst s' = map_option fst s"
  using assms by (auto simp: slots_ok_def try_acquire_def split: option.splits if_splits)

lemma sem_release_ok:
  assumes "slots_ok s (Suc n)"
  shows "\<exists>s'. sem_release s = Some s' \<and> slots_ok s' n \<and> map_option fst s' = map_option fst s"
  using assms by (auto simp: slots_ok_def sem_release_def split: option.splits)

lemma enter_inv:
  assumes inv: "run_inv gw r" and at: "at_point i (N_held ip rel (G_entering v)) r"
  shows "run_inv gw (session_enter i ip rel v r)"
proof -
  obtain ok s' where a: "try_acquire (rn_slots r) = (ok, s')" by fastforce
  let ?g = "if ok then G_slot v else G_closing"
  let ?r = "set_session i (N_held ip rel ?g) (r\<lparr>rn_slots := s'\<rparr>)"
  have ss: "rn_sessions ?r = (rn_sessions r)[i := N_held ip rel ?g]" by simp
  have "slots_ok (rn_slots r) (number in_slot r)" using inv by (simp add: run_inv_def)
  note t = try_acquire_ok [OF this a]
  have "run_inv gw ?r"
  proof (rule run_inv_stage [OF inv at ss])
    show "slots_ok (rn_slots ?r) (number in_slot ?r)" using t(1) number_step [OF at ss, of in_slot] by (cases ok) simp_all
  qed (use t(2) in auto)
  then show ?thesis by (simp add: session_enter_def a)
qed

lemma free_inv:
  assumes inv: "run_inv gw r" and at: "at_point i (N_held ip rel G_left) r"
  shows "\<exists>r'. session_free i ip rel r = Some r' \<and> run_inv gw r'"
proof -
  let ?s = "N_held ip rel G_closing"
  have n: "number in_slot r = Suc (number in_slot (set_session i ?s r))"
    using number_step [OF at, of "set_session i ?s r" ?s in_slot] by simp
  have "slots_ok (rn_slots r) (number in_slot r)" using inv by (simp add: run_inv_def)
  then obtain s' where s': "sem_release (rn_slots r) = Some s'" "slots_ok s' (number in_slot (set_session i ?s r))"
    "map_option fst s' = map_option fst (rn_slots r)"
    using sem_release_ok by (auto simp: n)
  have "run_inv gw (set_session i ?s (r\<lparr>rn_slots := s'\<rparr>))"
    by (rule run_inv_stage [OF inv at, where g' = G_closing]) (use s' in \<open>simp_all add: number_def\<close>)
  then show ?thesis by (simp add: session_free_def s'(1))
qed

lemma close_inv:
  assumes inv: "run_inv gw r" and at: "at_point i (N_held ip rel G_closing) r"
  shows "run_inv gw (session_close i rel r)"
proof (rule run_inv_step [OF inv at])
  let ?r = "session_close i rel r"
  show ss: "rn_sessions ?r = (rn_sessions r)[i := N_closed]" by (simp add: session_close_def)
  have l: "lim_inv (rn_now r) (conns r, rn_limiter r)" using inv by (simp add: run_inv_def)
  note m = conns_step [OF at ss]
  have "lim_inv (rn_now r) (conns ?r, release_slot rel (rn_limiter r)) \<and> same_limits (release_slot rel (rn_limiter r)) (rn_limiter r)"
  proof (cases rel)
    case None
    then have "mset (conns ?r) = mset (conns r)" using m by simp
    from lim_inv_mset [OF this] show ?thesis using l by (simp add: None release_slot_def same_limits_def)
  next
    case (Some p)
    then have "mset (conns r) = add_mset (ip, p) (mset (conns ?r))" using m by simp
    from release_mset [OF l this] show ?thesis by (simp add: Some release_slot_def)
  qed
  then show "lim_inv (rn_now r) (conns ?r, rn_limiter ?r)" "same_limits (rn_limiter ?r) (rn_limiter r)"
    by (simp_all add: session_close_def)
  show "slots_ok (rn_slots ?r) (number in_slot ?r)"
    using inv number_step [OF at ss, of in_slot] by (simp add: run_inv_def session_close_def)
qed (simp_all add: session_close_def)

lemma session_step_inv: "session_step cfg i r r' \<Longrightarrow> run_inv gw r \<Longrightarrow> run_inv gw r'"
proof (induction rule: session_step.induct)
  case (admit remote input r parse_ip ip_string)
  then show ?case by (rule admit_inv [rotated])
next
  case (read ip rel client input r)
  show ?case
    by (rule run_inv_quiet [OF read(2,1), where g' = "case read_open client rel input of None \<Rightarrow> G_closing | Some op \<Rightarrow> G_opened op"])
      (simp_all add: session_open_def split: option.splits)
next
  case (serve ip rel op r hmac keys dialer nonce r')
  obtain g cache kv where d: "dispatch hmac keys dialer nonce cfg (rn_now r) (as_reg (rn_state r)) ip op
      (rn_cache r, as_store (rn_state r)) = Some (g, cache, kv)"
    and r': "r' = set_session i (N_held ip rel g) (set_store kv (r\<lparr>rn_cache := cache\<rparr>))"
    using serve(2) by (auto simp: session_serve_def)
  show ?case by (rule run_inv_quiet [OF serve(3,1), where g' = g]) (use dispatch_Some(1) [OF d] in \<open>auto simp: r'\<close>)
next
  case (piped ip rel r)
  show ?case by (rule run_inv_quiet [OF piped(2,1), where g' = G_closing]) simp_all
next
  case (enter ip rel v r)
  then show ?case by (rule enter_inv [rotated])
next
  case (counted ip rel v r)
  have ss: "rn_sessions (session_count i ip rel v r) = (rn_sessions r)[i := N_held ip rel (G_lobby v)]"
    by (simp add: session_count_def)
  show ?case
    by (rule run_inv_stage [OF counted(2,1) ss])
      (use counted(2) number_step [OF counted(1) ss, of in_slot] in \<open>simp_all add: session_count_def run_inv_def\<close>)
next
  case (leave ip rel v r hmac md5 load look input es)
  let ?r = "session_leave hmac md5 load cfg look input es i ip rel v r"
  have ss: "rn_sessions ?r = (rn_sessions r)[i := N_held ip rel G_left]"
    by (simp add: session_leave_def case_prod_beta)
  show ?case
    by (rule run_inv_stage [OF leave(2,1) ss])
      (use leave(2) number_step [OF leave(1) ss, of in_slot] in \<open>simp_all add: session_leave_def case_prod_beta run_inv_def\<close>)
next
  case (free ip rel r r')
  then show ?case using free_inv [OF free(3,1)] by simp
next
  case (close ip rel r)
  then show ?case by (rule close_inv [rotated])
qed

lemma running_inv: "running_reach gw r \<Longrightarrow> started_gateway.gw_limiter gw = new_limiter rate burst cap
  \<Longrightarrow> gw_lobby_slots gw = new_semaphore n \<Longrightarrow> run_inv gw r"
proof (induction rule: running_reach.induct)
  case (start now)
  have "same_limits (new_limiter rate burst cap) (started_gateway.gw_limiter gw)" using start by (simp add: same_limits_def)
  then show ?case using new_limiter_inv [of now rate burst cap] start
    by (simp add: run_inv_def start_running_def conns_def number_def slots_ok_def new_semaphore_def split: option.splits)
next
  case (step r r')
  have inv: "run_inv gw r" by (rule step.IH [OF step.prems])
  from step(2) show ?case
  proof cases
    case (clock now)
    then show ?thesis using inv lim_inv_mono by (auto simp: run_inv_def conns_def number_def)
  next
    case sweep
    have "same_limits (limiter_sweep (rn_now r) l) l" for l by (simp add: same_limits_def limiter_sweep_def)
    then show ?thesis using sweep inv sweep_inv by (auto simp: run_inv_def conns_def number_def same_limits_def)
  next
    case (session i)
    then show ?thesis using session_step_inv inv by blast
  qed (use inv in \<open>auto simp: run_inv_def conns_def number_def\<close>)
qed

section \<open>A session that nothing interrupts\<close>

lemma handle_open_eq:
  "handle_open cfg parse_ip ip_string now remote input l =
     (case client_of cfg parse_ip remote input of
        None \<Rightarrow> (None, l)
      | Some (client, input) \<Rightarrow>
          (case acquire now (ip_string client) l of
             (Refused _, l) \<Rightarrow> (None, l)
           | (Admitted rel, l) \<Rightarrow>
               (case read_open client rel input of None \<Rightarrow> (None, release_slot rel l) | Some op \<Rightarrow> (Some op, l))))"
  by (simp add: handle_open_def client_of_def read_open_def Let_def split: option.splits sum.splits prod.splits admission.splits)

lemma read_open_sel: "read_open client rel input = Some op \<Longrightarrow> op_client op = client \<and> op_release op = rel"
  by (auto simp: read_open_def split: if_splits sum.splits prod.splits)

text \<open>\<^verbatim>\<open>lobby\<close>, except for what the limbo makes of the store.\<close>

lemma lobby_stay_eq:
  assumes "lobby hmac cfg now reg look hs login force input es (slots, kv) = Some ((out, e), slots', kv')"
    and "fst (try_acquire slots)"
  shows "fst (lobby_stay hmac md5 load cfg now reg look (hs, login, force) input es kv) = e"
    "(\<nexists>c. e = L_limbo c) \<Longrightarrow> snd (lobby_stay hmac md5 load cfg now reg look (hs, login, force) input es kv) = kv'"
  using assms
  by (auto simp: lobby_def lobby_stay_def case_prod_beta Let_def split: bool.splits if_splits lobby_end.splits)

text \<open>Without the lobby and without a panic, the steps of a session on their own add up to \<^verbatim>\<open>handle\<close>.\<close>

definition ends_here :: "handled \<Rightarrow> bool" where
  "ends_here out \<longleftrightarrow> (case out of H_status srv P_panic \<Rightarrow> False | H_login S_panic \<Rightarrow> False
     | H_login (S_lobby force login) \<Rightarrow> False | _ \<Rightarrow> True)"

lemma handle_dispatch:
  assumes "handle_open cfg parse_ip ip_string now remote input (gateway.gw_limiter g) = (Some op, l)"
    and "handle hmac keys dialer nonce parse_ip ip_string cfg now reg remote input g = (out, g')" and "ends_here out"
  shows "\<exists>q. dispatch hmac keys dialer nonce cfg now reg (ip_string (op_client op)) op (gw_cache g, gw_store g)
      = Some (q, gw_cache g', gw_store g') \<and> (q = G_closing \<or> q = G_piping)"
    "gateway.gw_limiter g' = release_slot (op_release op) l"
proof -
  have "(\<exists>q. dispatch hmac keys dialer nonce cfg now reg (ip_string (op_client op)) op (gw_cache g, gw_store g)
      = Some (q, gw_cache g', gw_store g') \<and> (q = G_closing \<or> q = G_piping))
    \<and> gateway.gw_limiter g' = release_slot (op_release op) l"
    using assms(2,3)
    by (auto simp: handle_def dispatch_def Let_def assms(1) ends_here_def
        split: if_splits prod.splits status_out.splits piped.splits served.splits)
  then show "\<exists>q. dispatch hmac keys dialer nonce cfg now reg (ip_string (op_client op)) op (gw_cache g, gw_store g)
      = Some (q, gw_cache g', gw_store g') \<and> (q = G_closing \<or> q = G_piping)"
    "gateway.gw_limiter g' = release_slot (op_release op) l" by blast+
qed

lemma at_set: "at_point i s r \<Longrightarrow> rn_sessions r' = (rn_sessions r)[i := s'] \<Longrightarrow> at_point i s' r'"
  by (simp add: at_point_def)

text \<open>The end of a session that copies bytes or has only its connection to give back.\<close>

lemma finish_alone:
  assumes at: "at_point i (N_held ip rel q) r" and q: "q = G_closing \<or> q = G_piping"
  shows "\<exists>r'. (session_step cfg i)\<^sup>*\<^sup>* r r' \<and> at_point i N_closed r' \<and> rn_cache r' = rn_cache r
    \<and> rn_state r' = rn_state r \<and> rn_limiter r' = release_slot rel (rn_limiter r)"
proof -
  define r1 where "r1 = set_session i (N_held ip rel G_closing) r"
  have at1: "at_point i (N_held ip rel G_closing) r1" by (rule at_set [OF at]) (simp add: r1_def)
  have s1: "(session_step cfg i)\<^sup>*\<^sup>* r r1"
  proof (cases "q = G_closing")
    case True
    then have "(rn_sessions r)[i := N_held ip rel G_closing] = rn_sessions r"
      using at list_update_id [of "rn_sessions r" i] by (simp add: at_point_def)
    then show ?thesis by (simp add: r1_def set_session_def)
  next
    case False
    then show ?thesis using session_step.piped [of i ip rel r cfg] at q by (auto simp: r1_def)
  qed
  have "at_point i N_closed (session_close i rel r1)" by (rule at_set [OF at1]) (simp add: session_close_def)
  moreover have "(session_step cfg i)\<^sup>*\<^sup>* r (session_close i rel r1)"
    by (rule rtranclp.rtrancl_into_rtrancl [OF s1 session_step.close [OF at1]])
  ultimately show ?thesis by (intro exI [of _ "session_close i rel r1"]) (simp add: session_close_def r1_def)
qed

text \<open>A session that the limiter has admitted.\<close>

lemma admitted_alone:
  assumes at: "at_point i (N_held (ip_string client) rel (G_admitted client input')) r1"
    and g0: "g0 = \<lparr>gw_cache = rn_cache r1, gw_store = as_store (rn_state r1), gw_limiter = l0\<rparr>"
    and o: "handle_open cfg parse_ip ip_string (rn_now r1) remote input l0
      = (case read_open client rel input' of None \<Rightarrow> (None, release_slot rel (rn_limiter r1)) | Some op \<Rightarrow> (Some op, rn_limiter r1))"
    and h: "handle hmac keys dialer nonce parse_ip ip_string cfg (rn_now r1) (as_reg (rn_state r1)) remote input g0 = (out, g)"
    and ends: "ends_here out"
  shows "\<exists>r'. (session_step cfg i)\<^sup>*\<^sup>* r1 r' \<and> at_point i N_closed r' \<and> rn_cache r' = gw_cache g
    \<and> rn_state r' = (rn_state r1)\<lparr>as_store := gw_store g\<rparr> \<and> rn_limiter r' = gateway.gw_limiter g"
proof -
  define r2 where "r2 = session_open i (ip_string client) rel client input' r1"
  have s2: "session_step cfg i r1 r2" unfolding r2_def by (rule session_step.read [OF at])
  show ?thesis
  proof (cases "read_open client rel input'")
    case None
    have "at_point i (N_held (ip_string client) rel G_closing) r2"
      by (rule at_set [OF at]) (simp add: r2_def session_open_def None)
    from finish_alone [OF this, of cfg] obtain r' where r': "(session_step cfg i)\<^sup>*\<^sup>* r2 r'" "at_point i N_closed r'"
      "rn_cache r' = rn_cache r2" "rn_state r' = rn_state r2" "rn_limiter r' = release_slot rel (rn_limiter r2)" by blast
    have "(session_step cfg i)\<^sup>*\<^sup>* r1 r'" by (rule converse_rtranclp_into_rtranclp [of _ r1, OF s2 r'(1)])
    moreover have "g = \<lparr>gw_cache = rn_cache r1, gw_store = as_store (rn_state r1), gw_limiter = release_slot rel (rn_limiter r1)\<rparr>"
      using h o by (simp add: None handle_def g0)
    ultimately show ?thesis using r' by (intro exI [of _ r']) (simp add: r2_def session_open_def)
  next
    case (Some op)
    have op: "op_client op = client" "op_release op = rel" using read_open_sel [OF Some] by simp_all
    have o': "handle_open cfg parse_ip ip_string (rn_now r1) remote input (gateway.gw_limiter g0) = (Some op, rn_limiter r1)"
      using o by (simp add: Some g0)
    obtain q where q: "dispatch hmac keys dialer nonce cfg (rn_now r1) (as_reg (rn_state r1)) (ip_string client) op
        (rn_cache r1, as_store (rn_state r1)) = Some (q, gw_cache g, gw_store g)" "q = G_closing \<or> q = G_piping"
      using handle_dispatch(1) [OF o' h ends] by (auto simp: op g0)
    have lim: "gateway.gw_limiter g = release_slot rel (rn_limiter r1)" using handle_dispatch(2) [OF o' h ends] by (simp add: op)
    have r2: "r2 = set_session i (N_held (ip_string client) rel (G_opened op)) r1" by (simp add: r2_def session_open_def Some)
    have at2: "at_point i (N_held (ip_string client) rel (G_opened op)) r2" by (rule at_set [OF at]) (simp add: r2)
    define r3 where "r3 = set_session i (N_held (ip_string client) rel q) (set_store (gw_store g) (r2\<lparr>rn_cache := gw_cache g\<rparr>))"
    have "session_serve hmac keys dialer nonce cfg i (ip_string client) rel op r2 = Some r3"
      using q(1) by (simp add: session_serve_def r3_def r2)
    note s3 = session_step.serve [OF at2 this]
    have "at_point i (N_held (ip_string client) rel q) r3" by (rule at_set [OF at2]) (simp add: r3_def)
    from finish_alone [OF this q(2), of cfg] obtain r' where r': "(session_step cfg i)\<^sup>*\<^sup>* r3 r'" "at_point i N_closed r'"
      "rn_cache r' = rn_cache r3" "rn_state r' = rn_state r3" "rn_limiter r' = release_slot rel (rn_limiter r3)" by blast
    have "(session_step cfg i)\<^sup>*\<^sup>* r1 r'"
      by (rule converse_rtranclp_into_rtranclp [of _ r1, OF s2 converse_rtranclp_into_rtranclp [of _ r2, OF s3 r'(1)]])
    then show ?thesis using r' lim by (intro exI [of _ r']) (simp add: r3_def r2)
  qed
qed

lemma handle_alone:
  assumes at: "at_point i (N_accepted remote input) r"
    and h: "handle hmac keys dialer nonce parse_ip ip_string cfg (rn_now r) (as_reg (rn_state r)) remote input
      \<lparr>gw_cache = rn_cache r, gw_store = as_store (rn_state r), gw_limiter = rn_limiter r\<rparr> = (out, g)"
    and ends: "ends_here out"
  shows "\<exists>r'. (session_step cfg i)\<^sup>*\<^sup>* r r' \<and> at_point i N_closed r' \<and> rn_cache r' = gw_cache g
    \<and> rn_state r' = (rn_state r)\<lparr>as_store := gw_store g\<rparr> \<and> rn_limiter r' = gateway.gw_limiter g"
proof -
  let ?open = "handle_open cfg parse_ip ip_string (rn_now r) remote input (rn_limiter r)"
  define r1 where "r1 = session_admit cfg parse_ip ip_string i remote input r"
  have s1: "session_step cfg i r r1" unfolding r1_def by (rule session_step.admit [OF at])
  show ?thesis
  proof (cases "at_point i N_closed r1")
    case True
    then have "?open = (None, rn_limiter r1)" "rn_cache r1 = rn_cache r" "rn_state r1 = rn_state r"
      using at by (auto simp: r1_def session_admit_def handle_open_eq at_point_def split: option.splits prod.splits admission.splits)
    then show ?thesis using h s1 True by (intro exI [of _ r1]) (auto simp: handle_def)
  next
    case False
    then obtain client input' rel l where c: "client_of cfg parse_ip remote input = Some (client, input')"
      and a: "acquire (rn_now r) (ip_string client) (rn_limiter r) = (Admitted rel, l)"
      and r1: "r1 = set_session i (N_held (ip_string client) rel (G_admitted client input')) (r\<lparr>rn_limiter := l\<rparr>)"
      using at by (auto simp: r1_def session_admit_def at_point_def split: option.splits prod.splits admission.splits)
    have "at_point i (N_held (ip_string client) rel (G_admitted client input')) r1" by (rule at_set [OF at]) (simp add: r1)
    moreover have "handle_open cfg parse_ip ip_string (rn_now r1) remote input (rn_limiter r)
      = (case read_open client rel input' of None \<Rightarrow> (None, release_slot rel (rn_limiter r1)) | Some op \<Rightarrow> (Some op, rn_limiter r1))"
      by (simp add: handle_open_eq c a r1 split: option.splits)
    moreover have "handle hmac keys dialer nonce parse_ip ip_string cfg (rn_now r1) (as_reg (rn_state r1)) remote input
      \<lparr>gw_cache = rn_cache r1, gw_store = as_store (rn_state r1), gw_limiter = rn_limiter r\<rparr> = (out, g)"
      using h by (simp add: r1)
    ultimately obtain r' where r': "(session_step cfg i)\<^sup>*\<^sup>* r1 r'" "at_point i N_closed r'" "rn_cache r' = gw_cache g"
      "rn_state r' = (rn_state r1)\<lparr>as_store := gw_store g\<rparr>" "rn_limiter r' = gateway.gw_limiter g"
      using admitted_alone [of i ip_string client rel input' r1 _ "rn_limiter r" cfg parse_ip remote input hmac keys dialer nonce out g] ends
      by blast
    have "(session_step cfg i)\<^sup>*\<^sup>* r r'" by (rule converse_rtranclp_into_rtranclp [of _ r, OF s1 r'(1)])
    then show ?thesis using r' by (intro exI [of _ r']) (simp add: r1)
  qed
qed

section \<open>Every session ends\<close>

text \<open>How many steps a session has at most to go.\<close>

fun steps_left :: "session \<Rightarrow> nat" where
  "steps_left (N_accepted remote input) = 8"
| "steps_left (N_held ip rel g) =
     (case g of G_admitted client input \<Rightarrow> 7 | G_opened op \<Rightarrow> 6 | G_entering v \<Rightarrow> 5 | G_slot v \<Rightarrow> 4 | G_lobby v \<Rightarrow> 3
      | G_left \<Rightarrow> 2 | G_piping \<Rightarrow> 2 | G_closing \<Rightarrow> 1)"
| "steps_left N_closed = 0"

definition work :: "running \<Rightarrow> nat" where
  "work r = sum_list (map steps_left (rn_sessions r))"

lemma session_step_moves:
  assumes "session_step cfg i r r'"
  shows "\<exists>s s'. at_point i s r \<and> rn_sessions r' = (rn_sessions r)[i := s'] \<and> steps_left s' < steps_left s"
  using assms
proof cases
  case (serve ip rel op hmac keys dialer nonce)
  then obtain g where "rn_sessions r' = (rn_sessions r)[i := N_held ip rel g]" "g \<in> {G_closing, G_piping} \<union> range G_entering"
    by (auto simp: session_serve_def dest: dispatch_Some(1))
  with serve(1) show ?thesis by (intro exI [of _ "N_held ip rel (G_opened op)"] exI [of _ "N_held ip rel g"]) auto
qed (force simp: session_admit_def session_open_def session_enter_def session_count_def session_leave_def session_free_def
      session_close_def case_prod_beta split: option.splits admission.splits if_splits)+

lemma session_step_work:
  assumes "session_step cfg i r r'"
  shows "work r' < work r"
proof -
  obtain s s' where s: "at_point i s r" "rn_sessions r' = (rn_sessions r)[i := s']" "steps_left s' < steps_left s"
    using session_step_moves [OF assms] by blast
  then show ?thesis using sum_update [of i "rn_sessions r" steps_left s'] by (simp add: work_def at_point_def)
qed

text \<open>A step of some session.\<close>

definition moves :: "router_config \<Rightarrow> running \<Rightarrow> running \<Rightarrow> bool" where
  "moves cfg r r' \<longleftrightarrow> (\<exists>i. session_step cfg i r r')"

lemma moves_work: "(moves cfg ^^ n) r r' \<Longrightarrow> n + work r' \<le> work r"
proof (induction n arbitrary: r')
  case (Suc n)
  then obtain q where q: "(moves cfg ^^ n) r q" "moves cfg q r'" by auto
  then have "work r' < work q" using session_step_work by (auto simp: moves_def)
  then show ?case using Suc.IH [OF q(1)] by simp
qed simp

lemma moves_reach:
  assumes "(moves (gw_router gw) ^^ n) r r'" and "running_reach gw r"
  shows "running_reach gw r'"
  using assms(1)
proof (induction n arbitrary: r')
  case (Suc n)
  then obtain q where q: "(moves (gw_router gw) ^^ n) r q" "moves (gw_router gw) q r'" by auto
  then obtain i where "session_step (gw_router gw) i q r'" by (auto simp: moves_def)
  with q(1) show ?case using running_reach.step [OF Suc.IH router_step.session] by blast
qed (use assms(2) in simp)

lemma work_le: "work r \<le> 8 * length (rn_sessions r)"
proof -
  have "steps_left s \<le> 8" for s by (cases s) (auto split: stage.splits)
  then have "sum_list (map steps_left ss) \<le> 8 * length ss" for ss by (induction ss) (simp_all add: add_mono)
  then show ?thesis by (simp add: work_def)
qed

text \<open>No dispatch panics whatever the dialer answers: at the latest when the dial fails, there is a next state.\<close>

lemma dispatch_dial_fails: "dispatch hmac keys (\<lambda>_. None) nonce cfg now reg ip op (cache, kv) \<noteq> None"
proof -
  have p: "pipe hmac keys None now nonce client intent srv replay \<noteq> P_panic" for client intent srv replay
    by (auto simp: pipe_def Let_def)
  obtain out st where l: "serve_login hmac keys (\<lambda>_. None) nonce cfg now reg ip op kv = (out, st)" by fastforce
  then have "out \<noteq> S_panic" using p
    by (auto simp: serve_login_def split: option.splits prod.splits route.splits sum.splits piped.splits)
  moreover obtain shown s' where h: "handle_status cfg now reg ip (op_hs op) (op_input op) cache kv = (shown, s')" by (rule prod.exhaust)
  ultimately show ?thesis using p by (simp add: dispatch_def Let_def l h split: status_out.splits piped.splits served.splits)
qed

lemma not_stuck:
  assumes "run_inv gw r" and "i < length (rn_sessions r)" and "rn_sessions r ! i \<noteq> N_closed"
  shows "\<exists>r'. session_step cfg i r r'"
proof (cases "rn_sessions r ! i")
  case (N_accepted remote input)
  then show ?thesis using session_step.admit assms(2) by (metis at_point_def)
next
  case (N_held ip rel g)
  then have at: "at_point i (N_held ip rel g) r" using assms(2) by (simp add: at_point_def)
  show ?thesis
  proof (cases g)
    case (G_opened op)
    have "session_serve h None (\<lambda>_. None) [] cfg i ip rel op r \<noteq> None" for h
      using dispatch_dial_fails by (simp add: session_serve_def)
    then show ?thesis using session_step.serve at by (metis G_opened not_None_eq)
  next
    case G_left
    then show ?thesis using free_inv [OF assms(1)] at session_step.free by metis
  qed (use at session_step.intros in metis)+
qed (use assms(3) in simp)

section \<open>Properties\<close>

lemma open_le_conns:
  assumes "\<forall>s \<in> set ss. \<forall>ip g. s \<noteq> N_held ip None g"
  shows "length (filter (open_for ip) ss) = length (filter (\<lambda>c. fst c = ip) (concat (map counted ss)))"
  using assms
proof (induction ss)
  case (Cons s ss)
  then show ?case by (cases s; cases "\<exists>ip g. s = N_held ip None g") (auto simp: not_None_eq)
qed simp

lemma open_cap:
  assumes inv: "run_inv gw r" and cap: "started_gateway.gw_limiter gw = new_limiter rate burst cap" "0 < cap"
  shows "int (number (open_for ip) r) \<le> cap"
proof -
  have l: "lim_inv (rn_now r) (conns r, rn_limiter r)" "lm_max_concurrent (rn_limiter r) = cap"
    using inv cap by (simp_all add: run_inv_def same_limits_def new_limiter_def)
  have "enabled (started_gateway.gw_limiter gw)" using cap by (simp add: enabled_def new_limiter_def)
  then have "\<forall>s \<in> set (rn_sessions r). \<forall>ip g. s \<noteq> N_held ip None g" using inv by (auto simp: run_inv_def)
  then have "number (open_for ip) r = length (filter (\<lambda>c. fst c = ip) (conns r))"
    by (simp add: number_def conns_def open_le_conns)
  also have "int \<dots> \<le> cap" by (rule conns_cap [OF l(1) _ cap(2)]) (rule l(2))
  finally show ?thesis .
qed

definition lobby_limit :: "gateway_conf \<Rightarrow> int" where
  "lobby_limit cfg = (case gc_max_lobby cfg of None \<Rightarrow> 500 | Some n \<Rightarrow> n)"

lemma reach_run_inv:
  "start_gateway pp pa sha os random file now cfg = Some (Inr gw) \<Longrightarrow> running_reach gw r \<Longrightarrow> run_inv gw r"
  by (rule running_inv [OF _ start_limits])

lemma slot_cap:
  assumes "run_inv gw r" and "gw_lobby_slots gw = new_semaphore n" and "0 < n"
  shows "int (number in_slot r) \<le> n"
  using assms by (auto simp: run_inv_def slots_ok_def new_semaphore_def split: option.splits)

text \<open>C16: the limits hold for the sessions that are really open, in every interleaving of connections with each other,
  with the ticker and with everything else the gateway does: the handlers change the shared state only by
  operations of the store, so the whole is a run of the gateway; an IP never has more open sessions than the
  configuration allows, nor the lobby more players in it or on their way in or out; the gauge of the lobby is the
  number of players in it; and leaving the lobby never blocks.\<close>

theorem sessions_within_limits:
  assumes "start_gateway pp pa sha os random file now cfg = Some (Inr gw)" and "running_reach gw r"
  shows "gateway_reach gw (rn_state r)
    \<and> (0 < gc_max_connections cfg \<longrightarrow> int (number (open_for ip) r) \<le> gc_max_connections cfg)
    \<and> (0 < lobby_limit cfg \<longrightarrow> int (number in_slot r) \<le> lobby_limit cfg)
    \<and> rn_active r = int (number in_lobby r)
    \<and> (at_point i (N_held ip' rel G_left) r \<longrightarrow> session_free i ip' rel r \<noteq> None)"
proof -
  have inv: "run_inv gw r" by (rule reach_run_inv [OF assms])
  have "at_point i (N_held ip' rel G_left) r \<longrightarrow> session_free i ip' rel r \<noteq> None" using free_inv [OF inv] by fastforce
  moreover have "rn_active r = int (number in_lobby r)" using inv by (simp add: run_inv_def)
  ultimately show ?thesis
    using running_gateway [OF assms(2)] open_cap [OF inv start_limits(1) [OF assms(1)]]
      slot_cap [OF inv start_limits(2) [OF assms(1)]]
    by (simp add: lobby_limit_def)
qed


section \<open>Witnesses\<close>

text \<open>A client connects and closes the connection without sending a byte.\<close>

definition demo_accepted :: running where
  "demo_accepted = (start_running 9 demo_gw)\<lparr>rn_sessions := [N_accepted (Tcp demo_src) []]\<rparr>"

definition demo_admitted :: running where
  "demo_admitted = session_admit (gw_router demo_gw) (\<lambda>_. None) (\<lambda>_. ''203.0.113.9'') 0 (Tcp demo_src) [] demo_accepted"

definition demo_ended :: running where
  "demo_ended = session_open 0 ''203.0.113.9'' (Some 0) (Tcp demo_src) [] demo_admitted"

lemma demo_step: "session_step (gw_router demo_gw) 0 demo_accepted demo_admitted"
  unfolding demo_admitted_def by (rule session_step.admit) (simp add: at_point_def demo_accepted_def)

lemma demo_moves: "(moves (gw_router demo_gw) ^^ 3) demo_accepted (session_close 0 (Some 0) demo_ended)"
proof -
  have "at_point 0 (N_held ''203.0.113.9'' (Some 0) (G_admitted (Tcp demo_src) [])) demo_admitted" by code_simp
  from session_step.read [OF this] have 2: "moves (gw_router demo_gw) demo_admitted demo_ended"
    unfolding demo_ended_def moves_def by blast
  have "at_point 0 (N_held ''203.0.113.9'' (Some 0) G_closing) demo_ended" by code_simp
  from session_step.close [OF this] have 3: "moves (gw_router demo_gw) demo_ended (session_close 0 (Some 0) demo_ended)"
    unfolding moves_def by blast
  have 1: "moves (gw_router demo_gw) demo_accepted demo_admitted" unfolding moves_def using demo_step by blast
  let ?m = "moves (gw_router demo_gw)"
  have "(?m ^^ Suc 0) demo_accepted demo_admitted" using 1 by (simp add: OO_def)
  then have "(?m ^^ Suc (Suc 0)) demo_accepted demo_ended" using 2 by (rule relpowp_Suc_I [where P = ?m])
  then show ?thesis unfolding numeral_3_eq_3 using 3 by (rule relpowp_Suc_I [where P = ?m])
qed

lemma demo_reach: "running_reach demo_gw demo_accepted"
proof -
  have "router_step demo_gw (start_running 9 demo_gw) demo_accepted"
    unfolding demo_accepted_def
    using router_step.accept [of "start_running 9 demo_gw" demo_gw "Tcp demo_src" "[]"] by (simp add: start_running_def)
  then show ?thesis by (rule running_reach.step [OF running_reach.start])
qed

theorem sessions_within_limits_witness:
  "gateway_reach demo_gw (rn_state demo_admitted) \<and> int (number (open_for ''203.0.113.9'') demo_admitted) \<le> 2
    \<and> rn_active demo_admitted = int (number in_lobby demo_admitted)"
proof -
  have "running_reach demo_gw demo_admitted" by (rule running_reach.step [OF demo_reach router_step.session [OF demo_step]])
  from sessions_within_limits [OF demo_started this, of "''203.0.113.9''"] show ?thesis by (simp add: demo_conf_def)
qed


end
