(* ===== verification/Forge_Status.thy ===== *)
theory Forge_Status
  imports Packets
begin

unbundle bit_operations_syntax

text \<open>
  \<^verbatim>\<open>internal/proto/status.go\<close>: what a Forge server says of its mods and channels in a status response,
  including the packing of bytes into 15-bit characters, and the status ping itself. The document that
  \<^verbatim>\<open>json.Unmarshal\<close> makes of a response is a parameter of the ping, as are \<^verbatim>\<open>net.SplitHostPort\<close> and the
  connection.

  The lemmas show that the unpacking is the little-endian reading of a number written in 15-bit digits,
  that a packed list of mods and channels is decoded completely, and what a ping sends.
\<close>

section \<open>Unpacking\<close>

datatype forge_err = F_too_short | F_size nat | F_char | F_shorter

text \<open>The inner loop: whole bytes leave the buffer.\<close>

fun drain :: "32 word \<Rightarrow> nat \<Rightarrow> byte list \<Rightarrow> 32 word \<times> nat \<times> byte list" where
  "drain buf bits out =
     (if bits \<ge> 8 then drain (drop_bit 8 buf) (bits - 8) (out @ [ucast buf]) else (buf, bits, out))"

declare drain.simps [simp del]

fun forge_loop :: "rune list \<Rightarrow> 32 word \<times> nat \<times> byte list \<Rightarrow> forge_err + 32 word \<times> nat \<times> byte list" where
  "forge_loop [] s = Inr s"
| "forge_loop (c # cs) (buf, bits, out) =
     (if c > 0x7FFF then Inl F_char
      else forge_loop cs (drain (buf OR push_bit bits (of_nat c)) (bits + 15) out))"

text \<open>The last loop; \<open>bits\<close> may become negative, which ends it.\<close>

function forge_tail :: "nat \<Rightarrow> 32 word \<Rightarrow> int \<Rightarrow> byte list \<Rightarrow> byte list" where
  "forge_tail n buf bits out =
     (if length out < n \<and> bits > 0 then forge_tail n (drop_bit 8 buf) (bits - 8) (out @ [ucast buf]) else out)"
  by pat_completeness auto
termination
  by (relation "measure (\<lambda>(n, buf, bits, out). nat bits)") auto

declare forge_tail.simps [simp del]

definition decode_forge_optimized :: "string \<Rightarrow> forge_err + byte list" where
  "decode_forge_optimized s =
     (let chars = runes (bytes s) in
      if length chars < 2 then Inl F_too_short
      else let n = (chars ! 0) OR push_bit 15 (chars ! 1) in
        if n > length chars * 2 then Inl (F_size n)
        else sum_bind (forge_loop (drop 2 chars) (0, 0, []))
          (\<lambda>(buf, bits, out).
             let out = forge_tail n buf (int bits) out in
             if length out < n then Inl F_shorter else Inr (take n out)))"

section \<open>Mods and channels\<close>

record forge_mod =
  fm_id :: string
  fm_version :: string

text \<open>The object \<^verbatim>\<open>forgeData\<close>: channels with resource, version and required flag, mods with id and marker.\<close>

record forge_data =
  fd_channels :: "(string \<times> string \<times> bool) list"
  fd_mods :: "(string \<times> string) list"
  fd_truncated :: bool
  fd_d :: string

datatype forge_decode_err = FD_packed forge_err | FD_wire perr

definition read_forge_channel :: "forge_channel reader" where
  "read_forge_channel b =
     sum_bind (read_string 32767 b) (\<lambda>(name, b).
     sum_bind (read_string 32767 b) (\<lambda>(version, b).
     sum_bind (read_bool b) (\<lambda>(absent, b).
       Inr (\<lparr>fc_name = name, fc_version = version, fc_accepts_absent = absent\<rparr>, b))))"

definition in_mod :: "string \<Rightarrow> forge_channel \<Rightarrow> forge_channel" where
  "in_mod i ch = ch\<lparr>fc_name := i @ '':'' @ fc_name ch\<rparr>"

text \<open>The loop over the mods: what was read up to the first error, and the error or the rest.\<close>

fun read_forge_mods :: "nat \<Rightarrow> byte list \<Rightarrow> (forge_mod list \<times> forge_channel list) \<times> (perr + byte list)" where
  "read_forge_mods 0 b = (([], []), Inr b)"
| "read_forge_mods (Suc n) b =
     (case read_varint b of
        Inl e \<Rightarrow> (([], []), Inl e)
      | Inr (flags, b) \<Rightarrow>
     (case read_string 32767 b of
        Inl e \<Rightarrow> (([], []), Inl e)
      | Inr (i, b) \<Rightarrow>
     (case (if even flags then read_string 32767 b else Inr ([], b)) of
        Inl e \<Rightarrow> (([], []), Inl e)
      | Inr (version, b) \<Rightarrow>
     (case read_upto read_forge_channel (nat (flags mod 2 ^ 32 div 2)) b of
        (chs, Inl e) \<Rightarrow> (([\<lparr>fm_id = i, fm_version = version\<rparr>], map (in_mod i) chs), Inl e)
      | (chs, Inr b) \<Rightarrow>
          (case read_forge_mods n b of
             ((mods, channels), r) \<Rightarrow>
               ((\<lparr>fm_id = i, fm_version = version\<rparr> # mods, map (in_mod i) chs @ channels), r))))))"

text \<open>\<^verbatim>\<open>Decode\<close>: mods, channels, whether the server cut the lists short, and the error if there is one.\<close>

definition forge_decode ::
  "forge_data \<Rightarrow> (forge_mod list \<times> forge_channel list \<times> bool) \<times> forge_decode_err option" where
  "forge_decode f =
     (if fd_d f = []
      then ((map (\<lambda>(i, marker). \<lparr>fm_id = i, fm_version = marker\<rparr>) (fd_mods f),
             map (\<lambda>(res, v, req). \<lparr>fc_name = res, fc_version = v, fc_accepts_absent = req\<rparr>) (fd_channels f),
             fd_truncated f), None)
      else case decode_forge_optimized (fd_d f) of
        Inl e \<Rightarrow> (([], [], False), Some (FD_packed e))
      | Inr b \<Rightarrow>
     (case sum_bind (read_bool b) (\<lambda>(truncated, b). sum_bind (read_uint16 b) (\<lambda>(n, b). Inr (truncated, n, b))) of
        Inl e \<Rightarrow> (([], [], False), Some (FD_wire e))
      | Inr (truncated, n, b) \<Rightarrow>
     (case read_forge_mods n b of
        ((mods, channels), Inl e) \<Rightarrow> ((mods, channels, truncated), Some (FD_wire e))
      | ((mods, channels), Inr b) \<Rightarrow>
     (case read_varint b of
        Inl e \<Rightarrow> ((mods, channels, truncated), Some (FD_wire e))
      | Inr (n, b) \<Rightarrow>
          (case read_upto read_forge_channel (nat n) b of
             (extra, Inl e) \<Rightarrow> ((mods, channels @ extra, truncated), Some (FD_wire e))
           | (extra, Inr _) \<Rightarrow> ((mods, channels @ extra, truncated), None))))))"

text \<open>The parsed status response, as far as the gateway uses it.\<close>

record status =
  stt_version_name :: string
  stt_protocol :: int
  stt_max :: int
  stt_online :: int
  stt_forge :: "forge_data option"
  stt_mod_info :: "string list option"

definition mod_ids :: "status \<Rightarrow> string list" where
  "mod_ids s =
     (case stt_forge s of None \<Rightarrow> [] | Some f \<Rightarrow> map fm_id (fst (fst (forge_decode f))))
     @ (case stt_mod_info s of None \<Rightarrow> [] | Some ids \<Rightarrow> ids)"

section \<open>The ping\<close>

definition proxyV2Local :: "byte list" where
  "proxyV2Local = [0x0d, 0x0a, 0x0d, 0x0a, 0x00, 0x0d, 0x0a, 0x51, 0x55, 0x49, 0x54, 0x0a, 0x20, 0x00, 0x00, 0x00]"

definition ping_request :: "int \<Rightarrow> string \<Rightarrow> int \<Rightarrow> byte list \<Rightarrow> byte list" where
  "ping_request protocol host port preamble =
     preamble
     @ handshake_frame \<lparr>hs_protocol = protocol, hs_address = host, hs_port = nat (port mod 65536), hs_intent = IntentStatus\<rparr>
     @ frame_of (new_packet 0)"

definition ping_answer :: "(string \<Rightarrow> status option) \<Rightarrow> byte list \<Rightarrow> status option" where
  "ping_answer parse_json input =
     (case read_frame input of
        Inl _ \<Rightarrow> None
      | Inr ((_, payload), _) \<Rightarrow>
          (case sum_bind (read_varint payload) (\<lambda>(pid, b).
                  if pid \<noteq> 0 then Inl (E_unexpected_packet pid) else read_string (32767 * 4) b) of
             Inl _ \<Rightarrow> None
           | Inr (js, _) \<Rightarrow> parse_json js))"

text \<open>\<^verbatim>\<open>Ping\<close>; \<open>dial\<close> gives what the peer at an address answers to the bytes written, or a failure.\<close>

definition ping ::
  "(string \<Rightarrow> (string \<times> string) option) \<Rightarrow> (string \<Rightarrow> status option) \<Rightarrow> (string \<Rightarrow> byte list \<Rightarrow> byte list option)
    \<Rightarrow> string \<Rightarrow> int \<Rightarrow> byte list \<Rightarrow> status option" where
  "ping split_host_port parse_json dial address protocol preamble =
     (case split_host_port address of
        None \<Rightarrow> None
      | Some (host, port) \<Rightarrow>
          (case parse_int port of
             None \<Rightarrow> None
           | Some port \<Rightarrow>
               (case dial address (ping_request protocol host port preamble) of
                  None \<Rightarrow> None
                | Some answer \<Rightarrow> ping_answer parse_json answer)))"

section \<open>Unpacking is reading a number\<close>

text \<open>Numbers in little-endian digits: bytes, and 15-bit characters.\<close>

fun le_dec :: "byte list \<Rightarrow> nat" where
  "le_dec [] = 0"
| "le_dec (b # bs) = unat b + 256 * le_dec bs"

fun le_enc :: "nat \<Rightarrow> nat \<Rightarrow> byte list" where
  "le_enc 0 v = []"
| "le_enc (Suc n) v = of_nat v # le_enc n (v div 256)"

fun chars_val :: "rune list \<Rightarrow> nat" where
  "chars_val [] = 0"
| "chars_val (c # cs) = c + 2 ^ 15 * chars_val cs"

lemma length_le_enc [simp]: "length (le_enc n v) = n"
  by (induction n v rule: le_enc.induct) simp_all

lemma le_dec_append: "le_dec (xs @ ys) = le_dec xs + 256 ^ length xs * le_dec ys"
  by (induction xs) (simp_all add: algebra_simps)

lemma le_dec_less: "le_dec bs < 256 ^ length bs"
proof (induction bs)
  case (Cons b bs)
  have "unat b < 256" using unsigned_less [of b] by simp
  with Cons show ?case by simp
qed simp

lemma le_enc_dec: "length bs = n \<Longrightarrow> le_enc n (le_dec bs + 256 ^ n * v) = bs"
proof (induction bs arbitrary: n)
  case (Cons b bs)
  have b: "unat b < 256" using unsigned_less [of b] by simp
  obtain m where n: "n = Suc m" "length bs = m" using Cons.prems by auto
  have e: "le_dec (b # bs) + 256 ^ n * v = unat b + 256 * (le_dec bs + 256 ^ m * v)"
    by (simp add: n algebra_simps)
  have w: "(of_nat (unat b + 256 * (le_dec bs + 256 ^ m * v)) :: byte) = b"
  proof -
    have z: "(of_nat (256 * (le_dec bs + 256 ^ m * v)) :: byte) = 0"
      unfolding word_of_nat_eq_0_iff by simp
    show ?thesis unfolding of_nat_add z by simp
  qed
  have d: "(unat b + 256 * (le_dec bs + 256 ^ m * v)) div 256 = le_dec bs + 256 ^ m * v"
    using b by simp
  show ?case unfolding e by (simp only: n(1) le_enc.simps w d Cons.IH [OF n(2)])
qed simp

lemma take_le_enc: "m \<le> n \<Longrightarrow> take m (le_enc n v) = le_enc m v"
proof (induction n v arbitrary: m rule: le_enc.induct)
  case (2 n v)
  then show ?case by (cases m) simp_all
qed simp

lemma chars_val_append: "chars_val (xs @ ys) = chars_val xs + 2 ^ (15 * length xs) * chars_val ys"
  by (induction xs) (simp_all add: algebra_simps power_add)

text \<open>The state of the unpacking after some characters: bytes out and bits kept make up their number.\<close>

definition unpacked :: "rune list \<Rightarrow> 32 word \<times> nat \<times> byte list \<Rightarrow> bool" where
  "unpacked cs s \<longleftrightarrow> (case s of (buf, bits, out) \<Rightarrow>
     chars_val cs = le_dec out + 256 ^ length out * unat buf \<and> unat buf < 2 ^ bits
     \<and> 8 * length out + bits = 15 * length cs)"

lemma drain_unpacked:
  "unpacked cs (buf, bits, out) \<Longrightarrow> unpacked cs (drain buf bits out) \<and> fst (snd (drain buf bits out)) < 8"
proof (induction buf bits out rule: drain.induct)
  case (1 buf bits out)
  show ?case
  proof (cases "bits \<ge> 8")
    case False
    then show ?thesis using "1.prems" by (simp add: drain.simps [of buf])
  next
    case True
    have u: "unat (ucast buf :: byte) = unat buf mod 256"
      by (simp add: unsigned_ucast_eq take_bit_eq_mod)
    have d: "unat (drop_bit 8 buf) = unat buf div 256"
      by (simp add: drop_bit_eq_div unat_div)
    have "256 ^ length out * unat buf = 256 ^ length out * (256 * (unat buf div 256) + unat buf mod 256)" by simp
    then have split: "256 ^ length out * unat buf
        = 256 ^ length out * (unat buf mod 256) + 256 * 256 ^ length out * (unat buf div 256)"
      by (simp only: distrib_left mult.assoc mult.left_commute add.commute)
    have "unat buf < 2 ^ (bits - 8) * 256"
      using "1.prems" True power_add [of "2 :: nat" "bits - 8" 8] by (simp add: unpacked_def)
    then have "unpacked cs (drop_bit 8 buf, bits - 8, out @ [ucast buf])"
      using "1.prems" True split by (auto simp: unpacked_def le_dec_append u d less_mult_imp_div_less)
    with "1.IH" [OF True] True show ?thesis by (simp add: drain.simps [of buf])
  qed
qed

lemma unat_or_push:
  fixes buf :: "32 word"
  assumes "unat buf < 2 ^ bits" and "bits < 8" and "c < 2 ^ 15"
  shows "unat (buf OR push_bit bits (of_nat c)) = unat buf + 2 ^ bits * c"
proof -
  have t: "take_bit bits buf = buf"
    using assms(1) by (simp add: word_unat_eq_iff unsigned_take_bit_eq take_bit_nat_eq_self)
  have "take_bit bits buf AND push_bit bits (of_nat c) = 0"
    by (rule bit_eqI) (simp add: bit_simps)
  then have "buf OR push_bit bits (of_nat c) = buf + push_bit bits (of_nat c)"
    unfolding t by (rule disjunctive_add_eq_or [symmetric])
  also have "\<dots> = of_nat (unat buf + 2 ^ bits * c)"
    by (simp add: push_bit_eq_mult ac_simps)
  finally have e: "buf OR push_bit bits (of_nat c) = of_nat (unat buf + 2 ^ bits * c)" .
  have "unat buf + 2 ^ bits * c < 2 ^ bits * (c + 1)" using assms(1) by simp
  also have "\<dots> \<le> 2 ^ 8 * 2 ^ 15" using assms(2,3) by (intro mult_le_mono power_increasing) simp_all
  finally show ?thesis unfolding e unat_of_nat by (intro mod_less) simp
qed

lemma forge_loop_spec:
  assumes "unpacked cs (buf, bits, out)" and "bits < 8"
  shows "if list_all (\<lambda>c. c \<le> 0x7FFF) ds
    then \<exists>buf' bits' out'. forge_loop ds (buf, bits, out) = Inr (buf', bits', out')
      \<and> unpacked (cs @ ds) (buf', bits', out') \<and> bits' < 8
    else forge_loop ds (buf, bits, out) = Inl F_char"
  using assms
proof (induction ds arbitrary: cs buf bits out)
  case (Cons c ds)
  show ?case
  proof (cases "c \<le> 0x7FFF")
    case True
    have "unpacked (cs @ [c]) (buf OR push_bit bits (of_nat c), bits + 15, out)"
    proof -
      have c: "c < 2 ^ 15" using True by simp
      have u: "unat buf < 2 ^ bits" using Cons.prems by (simp add: unpacked_def)
      have "unat buf + 2 ^ bits * c < 2 ^ bits + 2 ^ bits * c" using u by simp
      also have "\<dots> = 2 ^ bits * (c + 1)" by simp
      also have "\<dots> \<le> 2 ^ bits * 2 ^ 15" using c by (intro mult_le_mono) simp_all
      finally have "unat buf + 2 ^ bits * c < 2 ^ (bits + 15)" by (simp add: power_add)
      moreover have "256 ^ length out * 2 ^ bits = (2 :: nat) ^ (15 * length cs)"
      proof -
        have "(256 :: nat) ^ length out = 2 ^ (8 * length out)" by (simp add: power_mult)
        then show ?thesis using Cons.prems by (simp add: unpacked_def flip: power_add)
      qed
      ultimately show ?thesis
        using Cons.prems unat_or_push [OF u Cons.prems(2) c]
        by (simp add: unpacked_def chars_val_append algebra_simps)
    qed
    from drain_unpacked [OF this] obtain buf' bits' out'
      where d: "drain (buf OR push_bit bits (of_nat c)) (bits + 15) out = (buf', bits', out')"
        and "unpacked (cs @ [c]) (buf', bits', out')" "bits' < 8" by (metis fst_conv prod_cases3 snd_conv)
    from Cons.IH [OF this(2,3)] True show ?thesis by (auto simp: d split: if_splits)
  qed simp
qed simp

text \<open>The last loop hands out the bits that are left, if a byte is still wanted.\<close>

lemma forge_tail_spec:
  assumes "unpacked cs (buf, bits, out)" and "bits < 8"
  shows "(n \<le> (15 * length cs + 7) div 8 \<longrightarrow> take n (forge_tail n buf (int bits) out) = le_enc n (chars_val cs))
    \<and> (length (forge_tail n buf (int bits) out) < n \<longleftrightarrow> \<not> n \<le> (15 * length cs + 7) div 8)"
proof (cases "length out < n \<and> 0 < bits")
  case False
  then have t: "forge_tail n buf (int bits) out = out" by (subst forge_tail.simps) auto
  have v: "chars_val cs = le_dec out + 256 ^ length out * unat buf" and l: "8 * length out + bits = 15 * length cs"
    using assms(1) by (simp_all add: unpacked_def)
  show ?thesis
  proof (cases "n \<le> length out")
    case True
    have "take n out = take n (le_enc (length out) (chars_val cs))"
      unfolding v using le_enc_dec [of out "length out" "unat buf"] by simp
    with True l show ?thesis by (simp add: t take_le_enc)
  next
    case n: False
    with False have "bits = 0" by simp
    with l have r: "(15 * length cs + 7) div 8 = length out" by linarith
    with n show ?thesis unfolding t r by simp
  qed
next
  case True
  define out' where "out' = out @ [ucast buf]"
  have t: "forge_tail n buf (int bits) out = out'"
    using True assms(2) by (subst forge_tail.simps, simp, subst forge_tail.simps) (simp add: out'_def)
  have v: "chars_val cs = le_dec out + 256 ^ length out * unat buf" and l: "8 * length out + bits = 15 * length cs"
    and b: "unat buf < 2 ^ bits" using assms(1) by (simp_all add: unpacked_def)
  have "(2 :: nat) ^ bits \<le> 2 ^ 8" using assms(2) by (intro power_increasing) simp_all
  with b have "unat (ucast buf :: byte) = unat buf" by (simp add: unsigned_ucast_eq take_bit_nat_eq_self)
  then have "chars_val cs = le_dec out'" by (simp add: v out'_def le_dec_append)
  then have e: "le_enc (Suc (length out)) (chars_val cs) = out'"
    using le_enc_dec [of out' "Suc (length out)" 0] by (simp add: out'_def del: le_enc.simps)
  have r: "(15 * length cs + 7) div 8 = Suc (length out)" using l True assms(2) by linarith
  show ?thesis unfolding t r
    using take_le_enc [of n "Suc (length out)" "chars_val cs"] e by (auto simp: out'_def simp del: le_enc.simps)
qed

text \<open>The size that the two header characters declare, and the number the others spell.\<close>

definition declared_size :: "rune list \<Rightarrow> nat" where
  "declared_size chars = (chars ! 0) OR push_bit 15 (chars ! 1)"

lemma decode_forge_eq:
  "decode_forge_optimized s =
     (let chars = runes (bytes s); n = declared_size chars in
      if length chars < 2 then Inl F_too_short
      else if n > length chars * 2 then Inl (F_size n)
      else if \<not> list_all (\<lambda>c. c \<le> 0x7FFF) (drop 2 chars) then Inl F_char
      else if n > (15 * (length chars - 2) + 7) div 8 then Inl F_shorter
      else Inr (le_enc n (chars_val (drop 2 chars))))"
proof -
  define cs where "cs = drop 2 (runes (bytes s))"
  define n where "n = declared_size (runes (bytes s))"
  have d: "(runes (bytes s) ! 0) OR push_bit 15 (runes (bytes s) ! 1) = n"
    by (simp add: n_def declared_size_def)
  have "unpacked [] (0, 0, [])" by (simp add: unpacked_def)
  note loop = forge_loop_spec [OF this, of cs, simplified]
  have len: "length (runes (bytes s)) - 2 = length cs" by (simp add: cs_def)
  have "sum_bind (forge_loop cs (0, 0, [])) (\<lambda>(buf, bits, out).
        if length (forge_tail n buf (int bits) out) < n then Inl F_shorter else Inr (take n (forge_tail n buf (int bits) out)))
      = (if \<not> list_all (\<lambda>c. c \<le> 0x7FFF) cs then Inl F_char
         else if n > (15 * length cs + 7) div 8 then Inl F_shorter else Inr (le_enc n (chars_val cs)))"
  proof (cases "list_all (\<lambda>c. c \<le> 0x7FFF) cs")
    case True
    with loop obtain buf bits out where l: "forge_loop cs (0, 0, []) = Inr (buf, bits, out)"
      and u: "unpacked cs (buf, bits, out)" "bits < 8" by auto
    show ?thesis using True forge_tail_spec [OF u, of n] by (simp add: l)
  qed (use loop in simp)
  then show ?thesis
    unfolding decode_forge_optimized_def Let_def d n_def [symmetric] cs_def [symmetric] len by simp
qed

text \<open>The packing, as Forge does it.\<close>

fun chars_enc :: "nat \<Rightarrow> nat \<Rightarrow> rune list" where
  "chars_enc 0 v = []"
| "chars_enc (Suc n) v = v mod 2 ^ 15 # chars_enc n (v div 2 ^ 15)"

definition pack_forge :: "byte list \<Rightarrow> string" where
  "pack_forge bs =
     str (utf8_encode ([length bs mod 2 ^ 15, length bs div 2 ^ 15]
       @ chars_enc ((8 * length bs + 14) div 15) (le_dec bs)))"

lemma length_chars_enc [simp]: "length (chars_enc n v) = n"
  by (induction n v rule: chars_enc.induct) simp_all

lemma chars_enc_small: "c \<in> set (chars_enc n v) \<Longrightarrow> c < 2 ^ 15 \<and> c \<le> 0x7FFF"
  by (induction n v rule: chars_enc.induct) (auto simp: less_Suc_eq_le [symmetric])

lemma chars_val_enc: "chars_val (chars_enc n v) = v mod 2 ^ (15 * n)"
proof (induction n v rule: chars_enc.induct)
  case (2 n v)
  have "v mod 2 ^ (15 * Suc n) = 2 ^ 15 * (v div 2 ^ 15 mod 2 ^ (15 * n)) + v mod 2 ^ 15"
    using mod_mult2_eq [of v "2 ^ 15" "2 ^ (15 * n)"] by (simp add: power_add)
  with 2 show ?case by simp
qed simp

lemma or_push_15: "a < 2 ^ 15 \<Longrightarrow> (a :: nat) OR push_bit 15 b = a + 2 ^ 15 * b"
proof -
  assume "a < 2 ^ 15"
  then have t: "take_bit 15 a = a" by (rule take_bit_nat_eq_self)
  have "take_bit 15 a AND push_bit 15 b = 0" by (rule bit_eqI) (simp add: bit_simps)
  then have "a OR push_bit 15 b = a + push_bit 15 b"
    unfolding t by (rule disjunctive_add_eq_or [symmetric])
  then show ?thesis by (simp add: push_bit_eq_mult)
qed

lemma unpack_pack:
  assumes "length bs < 2 ^ 30"
  shows "decode_forge_optimized (pack_forge bs) = Inr bs"
proof -
  define l where "l = length bs"
  define n where "n = (8 * l + 14) div 15"
  define chars where "chars = [l mod 2 ^ 15, l div 2 ^ 15] @ chars_enc n (le_dec bs)"
  have small: "\<forall>c \<in> set chars. c < 2 ^ 15"
    using assms chars_enc_small by (auto simp: chars_def l_def less_mult_imp_div_less)
  have "runes (bytes (pack_forge bs)) = runes (utf8_encode chars)"
    by (simp add: pack_forge_def chars_def n_def l_def)
  also have "\<dots> = chars"
    by (rule runes_utf8_encode) (use small in \<open>auto simp: scalar_def\<close>)
  finally have r: "runes (bytes (pack_forge bs)) = chars" .
  have "l mod 2 ^ 15 OR push_bit 15 (l div 2 ^ 15) = l"
    by (subst or_push_15) simp_all
  then have size: "declared_size chars = l" by (simp add: declared_size_def chars_def)
  have tail: "drop 2 chars = chars_enc n (le_dec bs)" "length chars = n + 2" by (simp_all add: chars_def)
  have n1: "8 * l \<le> 15 * n" unfolding n_def by linarith
  have n: "l \<le> (n + 2) * 2" using n1 by simp
  have n': "l \<le> (15 * n + 7) div 8" using n1 by linarith
  have "le_dec bs < 256 ^ l" using le_dec_less [of bs] by (simp add: l_def)
  also have "(256 :: nat) ^ l = 2 ^ (8 * l)" by (simp add: power_mult)
  also have "\<dots> \<le> 2 ^ (15 * n)" using n1 by (intro power_increasing) simp_all
  finally have v: "chars_val (drop 2 chars) = le_dec bs" by (simp add: tail chars_val_enc)
  have ok: "list_all (\<lambda>c. c \<le> 0x7FFF) (drop 2 chars)"
    using chars_enc_small [of _ n "le_dec bs"] by (auto simp: tail list_all_iff)
  have "le_enc l (le_dec bs) = bs" using le_enc_dec [of bs l 0] by (simp add: l_def)
  then show ?thesis
    unfolding decode_forge_eq r Let_def size v using ok n n' by (simp add: tail)
qed

section \<open>The packed lists\<close>

text \<open>A channel on the wire, and a mod with its own channels (whose names lack the mod's id).\<close>

definition b_forge_channel :: "forge_channel \<Rightarrow> byte list \<Rightarrow> byte list" where
  "b_forge_channel ch p = b_bool (fc_accepts_absent ch) (b_string (fc_version ch) (b_string (fc_name ch) p))"

definition forge_channel_ok :: "forge_channel \<Rightarrow> bool" where
  "forge_channel_ok ch \<longleftrightarrow> string_ok 32767 (fc_name ch) \<and> string_ok 32767 (fc_version ch)"

interpretation forge_channel_field: strict_field b_forge_channel read_forge_channel forge_channel_ok
proof
  fix c :: forge_channel and p rest bs :: "byte list"
  show "b_forge_channel c p = p @ b_forge_channel c []"
    by (simp add: b_forge_channel_def string_field.put_append_left bool_field.put_append_left)
  show "forge_channel_ok c \<Longrightarrow> read_forge_channel (b_forge_channel c [] @ rest) = Inr (c, rest)"
    by (simp add: b_forge_channel_def read_forge_channel_def forge_channel_ok_def put_ne get_put)
  assume "read_forge_channel bs = Inr (c, rest)"
  then obtain n v a b b' where r: "read_string 32767 bs = Inr (n, b)" "read_string 32767 b = Inr (v, b')"
    "read_bool b' = Inr (a, rest)"
    by (auto simp: read_forge_channel_def sum_bind_eq_Inr)
  then show "\<exists>used. bs = used @ rest"
    using string_field.get_consumes [OF r(1)] string_field.get_consumes [OF r(2)] bool_field.get_consumes [OF r(3)]
    by auto
  show "length rest < length bs"
    using string_field.get_progress [OF r(1)] string_field.get_progress [OF r(2)] bool_field.get_progress [OF r(3)]
    by simp
qed

record packed_mod =
  pm_id :: string
  pm_version :: "string option"
  pm_channels :: "forge_channel list"

definition b_forge_mod :: "packed_mod \<Rightarrow> byte list" where
  "b_forge_mod m =
     b_varint (2 * int (length (pm_channels m)) + (if pm_version m = None then 1 else 0)) []
     @ b_string (pm_id m) []
     @ (case pm_version m of None \<Rightarrow> [] | Some v \<Rightarrow> b_string v [])
     @ fold b_forge_channel (pm_channels m) []"

definition forge_mod_ok :: "packed_mod \<Rightarrow> bool" where
  "forge_mod_ok m \<longleftrightarrow> string_ok 32767 (pm_id m) \<and> (case pm_version m of None \<Rightarrow> True | Some v \<Rightarrow> string_ok 32767 v)
     \<and> list_all forge_channel_ok (pm_channels m) \<and> length (pm_channels m) < 2 ^ 30"

definition unpacked_mod :: "packed_mod \<Rightarrow> forge_mod" where
  "unpacked_mod m = \<lparr>fm_id = pm_id m, fm_version = (case pm_version m of None \<Rightarrow> [] | Some v \<Rightarrow> v)\<rparr>"

definition mod_channels :: "packed_mod \<Rightarrow> forge_channel list" where
  "mod_channels m = map (in_mod (pm_id m)) (pm_channels m)"

lemma read_forge_mod:
  assumes "forge_mod_ok m"
  shows "read_forge_mods (Suc n) (b_forge_mod m @ rest) =
     (case read_forge_mods n rest of ((mods, channels), r) \<Rightarrow> ((unpacked_mod m # mods, mod_channels m @ channels), r))"
proof -
  define flags where "flags = 2 * int (length (pm_channels m)) + (if pm_version m = None then 1 else 0)"
  have f: "int32_range flags" "even flags \<longleftrightarrow> pm_version m \<noteq> None"
    using assms by (auto simp: flags_def forge_mod_ok_def int32_range_def)
  have "flags mod 2 ^ 32 = flags" using assms by (intro mod_pos_pos_trivial) (auto simp: flags_def forge_mod_ok_def)
  moreover have "flags div 2 = int (length (pm_channels m))" by (simp add: flags_def)
  ultimately have cnt: "nat (flags mod 2 ^ 32 div 2) = length (pm_channels m)" by simp
  have chs: "read_upto read_forge_channel (length (pm_channels m)) (fold b_forge_channel (pm_channels m) [] @ rest)
      = (pm_channels m, Inr rest)"
    using assms by (intro forge_channel_field.read_upto_fold) (simp add: forge_mod_ok_def)
  have i: "string_ok 32767 (pm_id m)" using assms by (simp add: forge_mod_ok_def)
  show ?thesis
  proof (cases "pm_version m")
    case None
    then show ?thesis using f(1) cnt
      by (simp add: b_forge_mod_def flags_def get_put i chs unpacked_mod_def mod_channels_def
          split: prod.splits)
  next
    case (Some v)
    moreover have "string_ok 32767 v" using assms Some by (simp add: forge_mod_ok_def)
    ultimately show ?thesis using f(1) cnt
      by (simp add: b_forge_mod_def flags_def get_put i chs unpacked_mod_def mod_channels_def
          split: prod.splits)
  qed
qed

lemma read_forge_mods_all:
  "list_all forge_mod_ok ms \<Longrightarrow>
   read_forge_mods (length ms) (concat (map b_forge_mod ms) @ rest)
     = ((map unpacked_mod ms, concat (map mod_channels ms)), Inr rest)"
  by (induction ms) (simp_all add: read_forge_mod del: read_forge_mods.simps(2))

definition forge_payload :: "bool \<Rightarrow> packed_mod list \<Rightarrow> forge_channel list \<Rightarrow> byte list" where
  "forge_payload truncated ms channels =
     b_bool truncated [] @ b_uint16 (length ms) [] @ concat (map b_forge_mod ms)
     @ b_varint (int (length channels)) [] @ fold b_forge_channel channels []"

section \<open>Properties\<close>

text \<open>The unpacking of Forge's status data computes a number: with the declared size and the number
  that the remaining characters spell in base 32768, it returns the size's little-endian bytes of that
  number, and it fails, with the reason, exactly if the header is missing, the size is impossible for
  the input, a character has more than 15 bits, or too few characters are there.\<close>

theorem unpack_is_number:
  "decode_forge_optimized s =
     (if length (runes (bytes s)) < 2 then Inl F_too_short
      else if declared_size (runes (bytes s)) > length (runes (bytes s)) * 2
        then Inl (F_size (declared_size (runes (bytes s))))
      else if \<not> list_all (\<lambda>c. c \<le> 0x7FFF) (drop 2 (runes (bytes s))) then Inl F_char
      else if declared_size (runes (bytes s)) > (15 * (length (runes (bytes s)) - 2) + 7) div 8 then Inl F_shorter
      else Inr (le_enc (declared_size (runes (bytes s))) (chars_val (drop 2 (runes (bytes s))))))"
  by (simp only: decode_forge_eq Let_def)

text \<open>C37: a Forge server's packed status data is decoded completely: every mod with its version, every
  channel under its mod's name, the channels of no mod and the truncation mark come back in order,
  without an error.\<close>

theorem forge_data_decoded:
  assumes "list_all forge_mod_ok ms" and "length ms < 65536" and "list_all forge_channel_ok channels"
    and "length channels < 2 ^ 31" and "length (forge_payload truncated ms channels) < 2 ^ 30"
  shows "forge_decode \<lparr>fd_channels = cs, fd_mods = old, fd_truncated = t, fd_d = pack_forge (forge_payload truncated ms channels)\<rparr>
     = ((map unpacked_mod ms, concat (map mod_channels ms) @ channels, truncated), None)"
proof -
  have d: "pack_forge p \<noteq> []" for p
    by (auto simp: pack_forge_def utf8_encode_def str_def)
  have "int32_range (int (length channels))" using assms(4) by (simp add: int32_range_def)
  moreover have "read_upto read_forge_channel (length channels) (fold b_forge_channel channels [] @ []) = (channels, Inr [])"
    by (rule forge_channel_field.read_upto_fold [OF assms(3)])
  ultimately show ?thesis
    using assms(2)
    by (simp add: forge_decode_def d unpack_pack [OF assms(5)])
      (simp add: forge_payload_def get_put read_forge_mods_all [OF assms(1)])
qed

definition demo_mods :: "packed_mod list" where
  "demo_mods = [\<lparr>pm_id = ''create'', pm_version = Some ''0.5.1'',
     pm_channels = [\<lparr>fc_name = ''main'', fc_version = ''2'', fc_accepts_absent = False\<rparr>]\<rparr>,
     \<lparr>pm_id = ''jei'', pm_version = None, pm_channels = []\<rparr>]"

theorem forge_data_decoded_witness:
  "forge_decode \<lparr>fd_channels = [], fd_mods = [], fd_truncated = False, fd_d = pack_forge (forge_payload True demo_mods [])\<rparr>
     = ((map unpacked_mod demo_mods, concat (map mod_channels demo_mods) @ [], True), None)"
  by (rule forge_data_decoded) code_simp+

end
