(* ===== verification/Health.thy ===== *)
theory Health
  imports Guard Forge_Status Registry "HOL-Library.Multiset"
begin

text \<open>
  \<^verbatim>\<open>internal/registry/health.go\<close>: the health checks. A check pings a server, behind a PROXY preamble if
  the server expects one, and records what it says in the registry. The checks of a round run
  concurrently: each ends with one atomic step, \<^verbatim>\<open>SetHealth\<close>, in any order.

  The lemmas show that a guarded server accepts the connection of a health check and sees a status
  ping, what a check writes, and that the order in which the checks of a round end does not matter.
\<close>

section \<open>Definitions\<close>

definition pingProtocol :: int where
  "pingProtocol = -1"

text \<open>\<^verbatim>\<open>Preamble\<close>: bytes (none for a plain server), \<^verbatim>\<open>ErrNoGuardKey\<close>, or a panic for a nonce of the wrong
  length.\<close>

datatype preamble = PA_bytes "byte list" | PA_no_key | PA_panic

definition backend_preamble ::
  "hmac \<Rightarrow> (server \<Rightarrow> byte list option) option \<Rightarrow> time \<Rightarrow> byte list \<Rightarrow> server \<Rightarrow> preamble" where
  "backend_preamble hmac keys now nonce s =
     (if sv_guard s
      then (case (case keys of None \<Rightarrow> None | Some f \<Rightarrow> f s) of
              None \<Rightarrow> PA_no_key
            | Some key \<Rightarrow> (case local_header hmac key now nonce of None \<Rightarrow> PA_panic | Some h \<Rightarrow> PA_bytes h))
      else if sv_proxy_protocol s then PA_bytes proxyV2Local
      else PA_bytes [])"

definition versionOnly :: "int \<Rightarrow> string option" where
  "versionOnly protocol =
     (let n = version_name protocol in if n \<noteq> [] \<and> hd n \<noteq> CHR ''p'' then Some n else None)"

text \<open>What \<^verbatim>\<open>CheckOne\<close> makes of the answer; \<open>None\<close> is a failed ping.\<close>

definition offline :: health where
  "offline = \<lparr>h_online = False, h_protocol = 0, h_version_name = [], h_players = 0, h_max_players = 0,
     h_mods = [], h_forge_channels = [], h_forge_truncated = False\<rparr>"

definition health_of :: "status option \<Rightarrow> health" where
  "health_of st =
     (case st of
        None \<Rightarrow> offline
      | Some st \<Rightarrow>
          let h = offline\<lparr>h_online := True, h_protocol := stt_protocol st, h_version_name := stt_version_name st,
                    h_players := stt_online st, h_max_players := stt_max st, h_mods := mod_ids st\<rparr>;
              h = (case stt_forge st of
                     None \<Rightarrow> h
                   | Some f \<Rightarrow>
                       (case forge_decode f of
                          ((_, channels, truncated), None) \<Rightarrow>
                            h\<lparr>h_forge_channels := channels, h_forge_truncated := truncated\<rparr>
                        | (_, Some _) \<Rightarrow> h))
          in (case versionOnly (h_protocol h) of Some n \<Rightarrow> h\<lparr>h_version_name := n\<rparr> | None \<Rightarrow> h))"

text \<open>\<^verbatim>\<open>CheckOne\<close>: \<open>ping_with\<close> pings the server with the preamble given.\<close>

definition check_one ::
  "hmac \<Rightarrow> (server \<Rightarrow> byte list option) option \<Rightarrow> (server \<Rightarrow> byte list \<Rightarrow> status option) \<Rightarrow> time \<Rightarrow> byte list
    \<Rightarrow> server \<Rightarrow> registry \<Rightarrow> registry option" where
  "check_one hmac keys ping_with now nonce s reg =
     (case backend_preamble hmac keys now nonce s of
        PA_panic \<Rightarrow> None
      | PA_no_key \<Rightarrow> Some (set_health (sv_id s) (sv_address s) (health_of None) now reg)
      | PA_bytes p \<Rightarrow> Some (set_health (sv_id s) (sv_address s) (health_of (ping_with s p)) now reg))"

text \<open>One round: expired servers go, the others are checked; the checks write one after the other, each
  at its own time, in the order in which they end.\<close>

definition round_targets :: "time \<Rightarrow> registry \<Rightarrow> server list \<times> registry" where
  "round_targets now reg = (let reg = reg_prune now reg in (reg_list now reg, reg))"

definition write_results :: "(server \<times> time \<times> health) list \<Rightarrow> registry \<Rightarrow> registry" where
  "write_results rs reg = foldl (\<lambda>reg (s, t, h). set_health (sv_id s) (sv_address s) h t reg) reg rs"

section \<open>Lemmas\<close>

text \<open>A result as a change of the entry it is about.\<close>

definition apply_health :: "string \<Rightarrow> health \<Rightarrow> time \<Rightarrow> server \<Rightarrow> server" where
  "apply_health a h t s =
     (if sv_address s \<noteq> a then s
      else let s = s\<lparr>sv_online := h_online h, sv_last_ping := Some t\<rparr> in
        if h_online h
        then s\<lparr>sv_protocol := h_protocol h, sv_version_name := h_version_name h,
               sv_players := h_players h, sv_max_players := h_max_players h,
               sv_mods := (if sv_mods s = [] \<and> h_mods h \<noteq> [] then h_mods h else sv_mods s),
               sv_forge_channels := h_forge_channels h, sv_forge_truncated := h_forge_truncated h\<rparr>
        else s)"

lemma lookup_set_health:
  "map_of (set_health j a h t r) i = (if i = j then map_option (apply_health a h t) (map_of r i) else map_of r i)"
  by (cases "map_of r j") (simp_all add: set_health_def apply_health_def Let_def)

definition result_for :: "string \<Rightarrow> (server \<times> time \<times> health) list \<Rightarrow> (server \<times> time \<times> health) list" where
  "result_for i rs = filter (\<lambda>(s, t, h). sv_id s = i) rs"

lemma write_results_lookup:
  "map_of (write_results rs r) i =
     foldl (\<lambda>e (s, t, h). map_option (apply_health (sv_address s) h t) e) (map_of r i) (result_for i rs)"
  unfolding write_results_def result_for_def
  by (induction rs arbitrary: r) (auto simp: lookup_set_health)

lemma result_for_perm:
  assumes "mset rs = mset rs'" and "distinct (map (\<lambda>(s, t, h). sv_id s) rs)"
  shows "result_for i rs = result_for i rs'"
proof -
  have one: "length xs \<le> 1" if "distinct (map f xs)" "set (map f xs) \<subseteq> {i}" for f :: "'b \<Rightarrow> string" and xs
  proof (cases xs rule: remdups_adj.cases)
    case (3 x y ys)
    with that show ?thesis by auto
  qed simp_all
  have "distinct (map (\<lambda>(s, t, h). sv_id s) (result_for i rs))"
    unfolding result_for_def using assms(2) by (rule distinct_map_filter)
  then have "length (result_for i rs) \<le> 1"
    by (rule one) (auto simp: result_for_def)
  moreover have m: "mset (result_for i rs) = mset (result_for i rs')"
    unfolding result_for_def mset_filter assms(1) ..
  moreover have "length (result_for i rs) = length (result_for i rs')"
    using m by (rule mset_eq_length)
  ultimately show ?thesis
    by (cases "result_for i rs"; cases "result_for i rs'") auto
qed

text \<open>The signed header of a check.\<close>

lemma local_header_eq:
  assumes "length nonce = NonceLen" and "\<And>k m. length (hmac k m) = MACLen"
    and "local_header hmac key now nonce = Some h"
  shows "read_guard_header (h @ rest) = Inr (h, rest)" and "h \<noteq> []"
proof -
  define body where "body = [TLVType] @ be_enc 2 tlvValueLen @ sig_value hmac key cmdLocal famUnspec [] now nonce"
  have h: "h = proxyV2Sig @ [cmdLocal, famUnspec] @ be_enc 2 (length body) @ body"
    using assms(3) unfolding local_header_def guard_build_eq [OF assms(1,2)] by (simp add: body_def del: be_enc.simps)
  have lb: "length body = 56"
    using length_sig_value [OF assms(1,2)] by (simp add: body_def tlvValueLen_def NonceLen_def MACLen_def del: be_enc.simps)
  have dec: "be_dec (be_enc 2 56) = 56" by code_simp
  have p: "take 16 (h @ rest) = proxyV2Sig @ [cmdLocal, famUnspec] @ be_enc 2 56" "length h = 72"
    by (simp_all add: h lb del: be_enc.simps)
  show "read_guard_header (h @ rest) = Inr (h, rest)"
    unfolding read_guard_header_def p(1)
    by (simp add: dec p(2) MaxHeaderLen_def Let_def del: be_enc.simps)
  show "h \<noteq> []" by (simp add: h)
qed

section \<open>Properties\<close>

text \<open>The checks of a round race, but not for the result: in whatever order they end, every server is
  looked up the same afterwards.\<close>

theorem health_order_irrelevant:
  assumes "mset rs = mset rs'" and "distinct (map (\<lambda>(s, t, h). sv_id s) rs)"
  shows "reg_get now (write_results rs reg) i = reg_get now (write_results rs' reg) i"
  by (simp add: reg_get_def write_results_lookup result_for_perm [OF assms])

definition demo_results :: "(server \<times> time \<times> health) list" where
  "demo_results = [(zero_server\<lparr>sv_id := ''a'', sv_address := ''x:1''\<rparr>, 7, demo_online),
     (zero_server\<lparr>sv_id := ''survival'', sv_address := ''10.0.0.7:25565''\<rparr>, 9, offline)]"

theorem health_order_irrelevant_witness:
  "reg_get 10 (write_results demo_results demo_live) ''survival'' = reg_get 10 (write_results (rev demo_results) demo_live) ''survival''
   \<and> map_option sv_online (reg_get 10 (write_results demo_results demo_live) ''survival'') = Some False"
proof
  show "reg_get 10 (write_results demo_results demo_live) ''survival'' = reg_get 10 (write_results (rev demo_results) demo_live) ''survival''"
    by (rule health_order_irrelevant) (simp_all add: demo_results_def)
  show "map_option sv_online (reg_get 10 (write_results demo_results demo_live) ''survival'') = Some False"
    by code_simp
qed

text \<open>A health check gets through the guard it checks: the preamble sent to a guarded server is a
  signed header that the guard takes off the stream and verifies, as a local connection, within the
  allowed skew, and what follows is a well-formed status handshake for that server.\<close>

theorem guarded_check_accepted:
  fixes now now' :: time
  assumes "sv_guard s" and "backend_preamble hmac (Some keys) now nonce s = PA_bytes pre"
    and "length nonce = NonceLen" and "\<And>k m. length (hmac k m) = MACLen"
    and "- (2 ^ 63) \<le> unix_sec now" and "unix_sec now < 2 ^ 63"
    and "abs (now' - unix_sec now * 1000000000) \<le> MaxSkew"
    and "string_ok 1024 host"
  shows "\<exists>key frames hs payload rest. keys s = Some key
    \<and> read_guard_header (ping_request pingProtocol host port pre) = Inr (pre, frames)
    \<and> guard_verify hmac key pre now' (None :: (byte list \<Rightarrow> unit \<Rightarrow> bool \<times> unit) option) ()
        = (Inr \<lparr>gr_local = True, gr_src = None, gr_dst = None\<rparr>, ())
    \<and> read_frame frames = Inr ((hs, payload), rest)
    \<and> parse_handshake payload = Inr \<lparr>hs_protocol = pingProtocol, hs_address = host, hs_port = nat (port mod 65536),
        hs_intent = IntentStatus\<rparr>"
proof -
  obtain key where key: "keys s = Some key" and loc: "local_header hmac key now nonce = Some pre"
    using assms(1,2) by (auto simp: backend_preamble_def split: option.splits)
  define hs where "hs = \<lparr>hs_protocol = pingProtocol, hs_address = host, hs_port = nat (port mod 65536), hs_intent = IntentStatus\<rparr>"
  have "valid_handshake hs"
    using assms(8) by (simp add: valid_handshake_def hs_def pingProtocol_def int32_range_def nat_less_iff)
  from handshake_frame_parsed [OF this, of "frame_of (new_packet 0)"] obtain payload
    where "read_frame (handshake_frame hs @ frame_of (new_packet 0)) = Inr ((handshake_frame hs, payload), frame_of (new_packet 0))"
      "parse_handshake payload = Inr hs" by blast
  moreover have "read_guard_header (ping_request pingProtocol host port pre) = Inr (pre, handshake_frame hs @ frame_of (new_packet 0))"
    unfolding ping_request_def hs_def by (rule local_header_eq(1) [OF assms(3,4) loc])
  moreover have "guard_verify hmac key pre now' (None :: (byte list \<Rightarrow> unit \<Rightarrow> bool \<times> unit) option) ()
      = (Inr \<lparr>gr_local = True, gr_src = None, gr_dst = None\<rparr>, ())"
    using guard_verify_built [OF assms(3,4) _ assms(5,6) loc [unfolded local_header_def], where seen = None and st = "()" and now' = now'] assms(7)
    by (simp add: addr_len_def nonce_check_def cmd_result_def abs_le_iff)
  ultimately show ?thesis using key unfolding hs_def by blast
qed

theorem guarded_check_accepted_witness:
  "\<exists>key frames hs payload rest. (\<lambda>_. Some [1, 2, 3]) (zero_server\<lparr>sv_guard := True\<rparr>) = Some (key :: byte list)
    \<and> read_guard_header (ping_request pingProtocol ''10.0.0.7'' 25565
        (the (local_header toy_mac [1, 2, 3] 1700000000000000000 (replicate 12 7))))
      = Inr (the (local_header toy_mac [1, 2, 3] 1700000000000000000 (replicate 12 7)), frames)
    \<and> guard_verify toy_mac key (the (local_header toy_mac [1, 2, 3] 1700000000000000000 (replicate 12 7)))
        1700000060000000000 (None :: (byte list \<Rightarrow> unit \<Rightarrow> bool \<times> unit) option) ()
        = (Inr \<lparr>gr_local = True, gr_src = None, gr_dst = None\<rparr>, ())
    \<and> read_frame frames = Inr ((hs, payload), rest)
    \<and> parse_handshake payload = Inr \<lparr>hs_protocol = pingProtocol, hs_address = ''10.0.0.7'', hs_port = nat (25565 mod 65536),
        hs_intent = IntentStatus\<rparr>"
proof (rule guarded_check_accepted [OF _ _ demo_guard(1-4)])
  have "local_header toy_mac [1, 2, 3] 1700000000000000000 (replicate 12 7) \<noteq> None"
    by (simp add: local_header_def guard_build_eq [OF demo_guard(1,2)])
  then show "backend_preamble toy_mac (Some (\<lambda>_. Some [1, 2, 3])) 1700000000000000000 (replicate 12 7)
      (zero_server\<lparr>sv_guard := True\<rparr>) = PA_bytes (the (local_header toy_mac [1, 2, 3] 1700000000000000000 (replicate 12 7)))"
    by (auto simp: backend_preamble_def)
  show "abs (1700000060000000000 - unix_sec 1700000000000000000 * 1000000000) \<le> MaxSkew" by code_simp
  show "string_ok 1024 ''10.0.0.7''" by code_simp
qed simp

end
