(* ===== verification/Tcp_Ports.thy ===== *)
theory Tcp_Ports
  imports Base
begin

text \<open>
  \<^verbatim>\<open>internal/sideport/forward.go\<close>, the TCP half: a public TCP port (\<^verbatim>\<open>tcpPort\<close>) and the goroutines that
  relay its connections (\<^verbatim>\<open>handle\<close>). A handler is a number; its two connections are named by it. The
  sections under the port's mutex are one step each, \<^verbatim>\<open>Close\<close> is two: what it does under the mutex, and the
  closing of the listener and of the connections it took. The dial and the two copies end when the
  environment ends them; \<^verbatim>\<open>dial\<close> has a timeout of five seconds.

  The lemmas show that the semaphore counts the handlers, which its capacity bounds, and that closing a
  port ends every connection, also one that was being set up at that moment.
\<close>

section \<open>State\<close>

datatype side = Client | Backend

type_synonym conn = "nat \<times> side"

text \<open>\<open>T_piping a b\<close>: whether the copy from the client, and the one from the backend, has ended.\<close>

datatype tcp_phase = T_dialing | T_dialed | T_tracked | T_piping bool bool | T_done

text \<open>\<open>tp_taken\<close> are the connections \<^verbatim>\<open>Close\<close> has taken and not closed yet; \<open>tp_open\<close> those that are open.\<close>

record tcp_port =
  tp_cap :: nat
  tp_sem :: nat
  tp_closed :: bool
  tp_listening :: bool
  tp_conns :: "conn list"
  tp_taken :: "conn list"
  tp_phase :: "tcp_phase list"
  tp_open :: "conn list"

definition new_tcp :: "nat \<Rightarrow> tcp_port" where
  "new_tcp cap = \<lparr>tp_cap = cap, tp_sem = 0, tp_closed = False, tp_listening = True, tp_conns = [], tp_taken = [],
     tp_phase = [], tp_open = []\<rparr>"

section \<open>Operations\<close>

definition phase :: "nat \<Rightarrow> tcp_port \<Rightarrow> tcp_phase" where
  "phase h t = tp_phase t ! h"

definition set_phase :: "nat \<Rightarrow> tcp_phase \<Rightarrow> tcp_port \<Rightarrow> tcp_port" where
  "set_phase h p t = t\<lparr>tp_phase := (tp_phase t)[h := p]\<rparr>"

text \<open>\<^verbatim>\<open>serve\<close>: a connection is accepted; without a free slot it is closed at once.\<close>

definition tcp_accept :: "tcp_port \<Rightarrow> tcp_port" where
  "tcp_accept t =
     (if tp_sem t < tp_cap t
      then t\<lparr>tp_sem := tp_sem t + 1, tp_phase := tp_phase t @ [T_dialing],
             tp_open := (length (tp_phase t), Client) # tp_open t\<rparr>
      else t)"

text \<open>The deferred calls when a handler returns.\<close>

definition end_handler :: "nat \<Rightarrow> tcp_port \<Rightarrow> tcp_port" where
  "end_handler h t =
     (set_phase h T_done t)
       \<lparr>tp_sem := tp_sem t - 1, tp_open := filter (\<lambda>c. c \<noteq> (h, Client) \<and> c \<noteq> (h, Backend)) (tp_open t)\<rparr>"

definition tcp_dialed :: "bool \<Rightarrow> nat \<Rightarrow> tcp_port \<Rightarrow> tcp_port" where
  "tcp_dialed ok h t =
     (if \<not> ok then end_handler h t else (set_phase h T_dialed t)\<lparr>tp_open := (h, Backend) # tp_open t\<rparr>)"

text \<open>\<^verbatim>\<open>track\<close>; false when the port is closed.\<close>

definition track :: "conn \<Rightarrow> tcp_port \<Rightarrow> bool \<times> tcp_port" where
  "track c t = (if tp_closed t then (False, t) else (True, t\<lparr>tp_conns := c # tp_conns t\<rparr>))"

definition untrack :: "conn \<Rightarrow> tcp_port \<Rightarrow> tcp_port" where
  "untrack c t = t\<lparr>tp_conns := removeAll c (tp_conns t)\<rparr>"

definition track_client :: "nat \<Rightarrow> tcp_port \<Rightarrow> tcp_port" where
  "track_client h t =
     (case track (h, Client) t of (ok, t) \<Rightarrow> if ok then set_phase h T_tracked t else end_handler h t)"

definition track_backend :: "nat \<Rightarrow> tcp_port \<Rightarrow> tcp_port" where
  "track_backend h t =
     (case track (h, Backend) t of (ok, t) \<Rightarrow> if ok then set_phase h (T_piping False False) t else end_handler h t)"

text \<open>One of the two copies ends; when both have, the handler returns.\<close>

definition copy_done :: "side \<Rightarrow> nat \<Rightarrow> tcp_port \<Rightarrow> tcp_port" where
  "copy_done side h t =
     (case phase h t of
        T_piping a b \<Rightarrow>
          (let a = (a \<or> side = Client); b = (b \<or> side = Backend) in
           if a \<and> b then end_handler h (untrack (h, Client) (untrack (h, Backend) t))
           else set_phase h (T_piping a b) t)
      | _ \<Rightarrow> t)"

text \<open>\<^verbatim>\<open>Close\<close>.\<close>

definition close_begin :: "tcp_port \<Rightarrow> tcp_port" where
  "close_begin t = t\<lparr>tp_closed := True, tp_taken := tp_conns t, tp_conns := []\<rparr>"

definition close_end :: "tcp_port \<Rightarrow> tcp_port" where
  "close_end t =
     t\<lparr>tp_listening := False, tp_taken := [], tp_open := filter (\<lambda>c. c \<notin> set (tp_taken t)) (tp_open t)\<rparr>"

section \<open>Interleavings\<close>

text \<open>The manager closes a binding once (it forgets its closer).\<close>

inductive tcp_step :: "tcp_port \<Rightarrow> tcp_port \<Rightarrow> bool" where
  accept: "tp_listening t \<Longrightarrow> tcp_step t (tcp_accept t)"
| dialed: "h < length (tp_phase t) \<Longrightarrow> phase h t = T_dialing \<Longrightarrow> tcp_step t (tcp_dialed ok h t)"
| client: "h < length (tp_phase t) \<Longrightarrow> phase h t = T_dialed \<Longrightarrow> tcp_step t (track_client h t)"
| backend: "h < length (tp_phase t) \<Longrightarrow> phase h t = T_tracked \<Longrightarrow> tcp_step t (track_backend h t)"
| from_client: "h < length (tp_phase t) \<Longrightarrow> phase h t = T_piping False b \<Longrightarrow> tcp_step t (copy_done Client h t)"
| from_backend: "h < length (tp_phase t) \<Longrightarrow> phase h t = T_piping a False \<Longrightarrow> tcp_step t (copy_done Backend h t)"
| close_begin: "\<not> tp_closed t \<Longrightarrow> tcp_step t (close_begin t)"
| close_end: "tp_closed t \<Longrightarrow> tp_listening t \<Longrightarrow> tcp_step t (close_end t)"

inductive tcp_reach :: "nat \<Rightarrow> tcp_port \<Rightarrow> bool" for cap where
  start: "tcp_reach cap (new_tcp cap)"
| step: "tcp_reach cap t \<Longrightarrow> tcp_step t t' \<Longrightarrow> tcp_reach cap t'"

section \<open>The invariant\<close>

text \<open>What is true of the handler \<open>h\<close> with phase \<open>p\<close>: its open connections fit its phase, those it has
  tracked are in the set or were taken by \<^verbatim>\<open>Close\<close>, and once \<^verbatim>\<open>Close\<close> is over they are closed.\<close>

definition tracked :: "tcp_phase \<Rightarrow> side \<Rightarrow> bool" where
  "tracked p side = (case p of T_tracked \<Rightarrow> side = Client | T_piping a b \<Rightarrow> True | _ \<Rightarrow> False)"

definition connected :: "tcp_phase \<Rightarrow> side \<Rightarrow> bool" where
  "connected p side = (case p of T_done \<Rightarrow> False | T_dialing \<Rightarrow> side = Client | _ \<Rightarrow> True)"

definition handler_ok :: "tcp_port \<Rightarrow> nat \<Rightarrow> tcp_phase \<Rightarrow> bool" where
  "handler_ok t h p \<longleftrightarrow> p \<noteq> T_piping True True \<and>
     (\<forall>side. ((h, side) \<in> set (tp_open t) \<longrightarrow> connected p side)
        \<and> ((h, side) \<in> set (tp_conns t) \<longrightarrow> tracked p side)
        \<and> (tracked p side \<longrightarrow>
             (\<not> tp_closed t \<longrightarrow> (h, side) \<in> set (tp_conns t))
           \<and> (tp_closed t \<and> tp_listening t \<longrightarrow> (h, side) \<in> set (tp_taken t))
           \<and> (\<not> tp_listening t \<longrightarrow> (h, side) \<notin> set (tp_open t))))"

definition running :: "tcp_phase list \<Rightarrow> nat" where
  "running ps = length (filter (\<lambda>p. p \<noteq> T_done) ps)"

definition tcp_inv :: "tcp_port \<Rightarrow> bool" where
  "tcp_inv t \<longleftrightarrow>
     tp_sem t = running (tp_phase t) \<and> tp_sem t \<le> tp_cap t
     \<and> (\<forall>h side. (h, side) \<in> set (tp_open t) \<or> (h, side) \<in> set (tp_conns t) \<longrightarrow> h < length (tp_phase t))
     \<and> (\<forall>h < length (tp_phase t). handler_ok t h (tp_phase t ! h))
     \<and> (tp_closed t \<longrightarrow> tp_conns t = []) \<and> (\<not> tp_listening t \<longrightarrow> tp_closed t)"

lemma running_set:
  "h < length ps \<Longrightarrow>
   running (ps[h := p]) + (if ps ! h = T_done then 0 else 1) = running ps + (if p = T_done then 0 else 1)"
  using count_update [of h ps "\<lambda>p. p \<noteq> T_done" p]
  by (cases "p = T_done"; cases "ps ! h = T_done") (simp_all add: running_def)

text \<open>A step of the handler \<open>h\<close> leaves the other handlers' connections alone.\<close>

lemma tcp_inv_handler:
  assumes inv: "tcp_inv t" and h: "h < length (tp_phase t)" "phase h t \<noteq> T_done"
    and ps: "tp_phase t' = (tp_phase t)[h := p]"
    and others: "\<And>g side. g \<noteq> h \<Longrightarrow> ((g, side) \<in> set (tp_open t') \<longleftrightarrow> (g, side) \<in> set (tp_open t))
           \<and> ((g, side) \<in> set (tp_conns t') \<longleftrightarrow> (g, side) \<in> set (tp_conns t))"
    and rest: "tp_taken t' = tp_taken t" "tp_closed t' = tp_closed t" "tp_listening t' = tp_listening t" "tp_cap t' = tp_cap t"
    and sem: "tp_sem t' = tp_sem t - (if p = T_done then 1 else 0)"
    and own: "handler_ok t' h p" and nil: "tp_closed t \<Longrightarrow> tp_conns t' = []"
  shows "tcp_inv t'"
proof -
  have "running (tp_phase t') + 1 = running (tp_phase t) + (if p = T_done then 0 else 1)"
    using running_set [OF h(1), of p] h(2) by (simp add: ps phase_def)
  then have "tp_sem t' = running (tp_phase t')" "tp_sem t' \<le> tp_cap t'"
    using inv sem by (auto simp: tcp_inv_def rest split: if_splits)
  moreover have "g < length (tp_phase t)" if "(g, side) \<in> set (tp_open t') \<or> (g, side) \<in> set (tp_conns t')" for g side
    using that others [of g side] inv h(1) by (cases "g = h") (auto simp: tcp_inv_def)
  moreover have "handler_ok t' g (tp_phase t' ! g)" if "g < length (tp_phase t)" for g
  proof (cases "g = h")
    case True
    then show ?thesis using own h by (simp add: ps)
  next
    case False
    have "handler_ok t g (tp_phase t ! g)" using inv that by (simp add: tcp_inv_def)
    then show ?thesis using False others [OF False] by (simp add: ps rest handler_ok_def)
  qed
  ultimately show ?thesis
    using inv nil by (simp add: tcp_inv_def ps rest)
qed

lemmas tcp_ops = tcp_accept_def end_handler_def tcp_dialed_def track_def untrack_def track_client_def track_backend_def
  copy_done_def close_begin_def close_end_def set_phase_def

lemma all_side: "(\<forall>side. P side) \<longleftrightarrow> P Client \<and> P Backend"
  by (metis side.exhaust)

lemma own_ok: "tcp_inv t \<Longrightarrow> h < length (tp_phase t) \<Longrightarrow> handler_ok t h (phase h t)"
  by (simp add: tcp_inv_def phase_def)

lemma inv_closed: "tcp_inv t \<Longrightarrow> tp_closed t \<Longrightarrow> tp_conns t = []" "tcp_inv t \<Longrightarrow> \<not> tp_listening t \<Longrightarrow> tp_closed t"
  by (simp_all add: tcp_inv_def)

lemma inv_end_handler:
  assumes "tcp_inv t" "h < length (tp_phase t)" "phase h t \<noteq> T_done" "\<forall>side. (h, side) \<notin> set (tp_conns t)"
  shows "tcp_inv (end_handler h t)"
proof (rule tcp_inv_handler [OF assms(1-3), where p = T_done])
  show "handler_ok (end_handler h t) h T_done"
    using assms(4) by (simp add: tcp_ops handler_ok_def tracked_def connected_def all_side)
qed (use inv_closed [OF assms(1)] in \<open>auto simp: tcp_ops\<close>)

lemma phases_untracked:
  assumes "tcp_inv t" "h < length (tp_phase t)" "phase h t \<in> {T_dialing, T_dialed}"
  shows "\<forall>side. (h, side) \<notin> set (tp_conns t)"
proof -
  have "\<not> tracked (phase h t) side" for side using assms(3) by (elim insertE emptyE) (simp_all add: tracked_def)
  then show ?thesis using own_ok [OF assms(1,2)] unfolding handler_ok_def by blast
qed

lemma inv_dialed:
  assumes "tcp_inv t" "h < length (tp_phase t)" "phase h t = T_dialing"
  shows "tcp_inv (tcp_dialed ok h t)"
proof (cases ok)
  case False
  then show ?thesis using inv_end_handler [OF assms(1,2)] phases_untracked [OF assms(1,2)] assms(3) by (simp add: tcp_dialed_def)
next
  case True
  show ?thesis
  proof (rule tcp_inv_handler [OF assms(1,2), where p = T_dialed])
    show "handler_ok (tcp_dialed ok h t) h T_dialed"
      using own_ok [OF assms(1,2)] assms(3) True by (auto simp: tcp_ops handler_ok_def tracked_def connected_def)
  qed (use True assms(3) inv_closed [OF assms(1)] in \<open>auto simp: tcp_ops\<close>)
qed

lemma inv_track_client:
  assumes "tcp_inv t" "h < length (tp_phase t)" "phase h t = T_dialed"
  shows "tcp_inv (track_client h t)"
proof (cases "tp_closed t")
  case True
  then show ?thesis
    using inv_end_handler [OF assms(1,2)] phases_untracked [OF assms(1,2)] assms(3) by (simp add: track_client_def track_def)
next
  case False
  show ?thesis
  proof (rule tcp_inv_handler [OF assms(1,2), where p = T_tracked])
    show "handler_ok (track_client h t) h T_tracked"
      using own_ok [OF assms(1,2)] assms(3) False inv_closed [OF assms(1)]
      by (auto simp: tcp_ops handler_ok_def tracked_def connected_def)
  qed (use False assms(3) in \<open>auto simp: tcp_ops\<close>)
qed

lemma inv_track_backend:
  assumes "tcp_inv t" "h < length (tp_phase t)" "phase h t = T_tracked"
  shows "tcp_inv (track_backend h t)"
proof (cases "tp_closed t")
  case True
  then show ?thesis
    using inv_end_handler [OF assms(1,2)] inv_closed [OF assms(1)] assms(3) by (simp add: track_backend_def track_def)
next
  case False
  show ?thesis
  proof (rule tcp_inv_handler [OF assms(1,2), where p = "T_piping False False"])
    show "handler_ok (track_backend h t) h (T_piping False False)"
      using own_ok [OF assms(1,2)] assms(3) False inv_closed [OF assms(1)]
      by (auto simp: tcp_ops handler_ok_def tracked_def connected_def all_side)
  qed (use False assms(3) in \<open>auto simp: tcp_ops\<close>)
qed

lemma inv_copy_done:
  assumes "tcp_inv t" "h < length (tp_phase t)" "phase h t = T_piping a b"
  shows "tcp_inv (copy_done side h t)"
proof -
  let ?a = "a \<or> side = Client" and ?b = "b \<or> side = Backend"
  have own: "handler_ok t h (T_piping a b)" using own_ok [OF assms(1,2)] assms(3) by simp
  show ?thesis
  proof (cases "?a \<and> ?b")
    case True
    let ?t = "end_handler h (untrack (h, Client) (untrack (h, Backend) t))"
    have "tcp_inv ?t"
    proof (rule tcp_inv_handler [OF assms(1,2), where p = T_done])
      show "handler_ok ?t h T_done"
        by (simp add: tcp_ops handler_ok_def tracked_def connected_def all_side)
    qed (use assms(3) inv_closed [OF assms(1)] in \<open>auto simp: tcp_ops\<close>)
    then show ?thesis using True assms(3) by (simp add: copy_done_def Let_def)
  next
    case False
    have "tcp_inv (set_phase h (T_piping ?a ?b) t)"
    proof (rule tcp_inv_handler [OF assms(1,2), where p = "T_piping ?a ?b"])
      show "handler_ok (set_phase h (T_piping ?a ?b) t) h (T_piping ?a ?b)"
        using own False by (auto simp: tcp_ops handler_ok_def tracked_def connected_def)
    qed (use assms(3) inv_closed [OF assms(1)] in \<open>auto simp: tcp_ops\<close>)
    then show ?thesis using False assms(3) by (auto simp: copy_done_def Let_def)
  qed
qed

lemma inv_accept:
  assumes "tcp_inv t" "tp_listening t"
  shows "tcp_inv (tcp_accept t)"
proof (cases "tp_sem t < tp_cap t")
  case False
  then show ?thesis using assms(1) by (simp add: tcp_accept_def)
next
  case True
  let ?n = "length (tp_phase t)"
  have old: "handler_ok (tcp_accept t) g p" if "g < ?n" "handler_ok t g p" for g p
    using that True assms(2) by (auto simp: handler_ok_def tcp_accept_def)
  have new: "handler_ok (tcp_accept t) ?n T_dialing"
    using assms(1) True by (auto simp: tcp_inv_def handler_ok_def tcp_accept_def tracked_def connected_def)
  have "handler_ok (tcp_accept t) g ((tp_phase t @ [T_dialing]) ! g)" if "g < Suc ?n" for g
    using old [of g "tp_phase t ! g"] new that assms(1) by (cases "g = ?n") (auto simp: nth_append tcp_inv_def)
  then show ?thesis
    using assms(1) True by (auto simp: tcp_inv_def tcp_accept_def running_def less_Suc_eq)
qed

lemma inv_close:
  assumes "tcp_inv t"
  shows "\<not> tp_closed t \<Longrightarrow> tcp_inv (close_begin t)" "tp_closed t \<Longrightarrow> tp_listening t \<Longrightarrow> tcp_inv (close_end t)"
proof -
  assume c: "\<not> tp_closed t"
  have "tp_listening t" using c inv_closed(2) [OF assms] by blast
  then have "handler_ok (close_begin t) h p" if "handler_ok t h p" for h p
    using that c by (simp add: handler_ok_def close_begin_def all_side)
  then have "\<forall>h < length (tp_phase t). handler_ok (close_begin t) h (tp_phase t ! h)"
    using assms by (simp add: tcp_inv_def)
  then show "tcp_inv (close_begin t)"
    using assms unfolding tcp_inv_def by (auto simp: close_begin_def)
next
  assume c: "tp_closed t" "tp_listening t"
  have "handler_ok (close_end t) h p" if "handler_ok t h p" for h p
    using that c by (simp add: handler_ok_def close_end_def all_side)
  then have "\<forall>h < length (tp_phase t). handler_ok (close_end t) h (tp_phase t ! h)"
    using assms by (simp add: tcp_inv_def)
  then show "tcp_inv (close_end t)"
    using assms c unfolding tcp_inv_def by (auto simp: close_end_def)
qed

lemma tcp_step_inv: "tcp_step t t' \<Longrightarrow> tcp_inv t \<Longrightarrow> tcp_inv t'"
  by (induction rule: tcp_step.induct)
    (blast intro: inv_accept inv_dialed inv_track_client inv_track_backend inv_copy_done inv_close)+

lemma tcp_step_cap: "tcp_step t t' \<Longrightarrow> tp_cap t' = tp_cap t"
  by (induction rule: tcp_step.induct) (auto simp: tcp_ops Let_def split: if_splits tcp_phase.splits)

lemma tcp_reach_inv: "tcp_reach cap t \<Longrightarrow> tcp_inv t \<and> tp_cap t = cap"
proof (induction rule: tcp_reach.induct)
  case start
  show ?case by (simp add: new_tcp_def tcp_inv_def running_def)
next
  case (step t t')
  then show ?case using tcp_step_inv tcp_step_cap by simp
qed

section \<open>After closing\<close>

text \<open>How many steps a handler still has, at most.\<close>

fun steps_left :: "tcp_phase \<Rightarrow> nat" where
  "steps_left T_dialing = 5"
| "steps_left T_dialed = 4"
| "steps_left T_tracked = 3"
| "steps_left (T_piping a b) = (if a then 0 else 1) + (if b then 0 else 1)"
| "steps_left T_done = 0"

definition work_left :: "tcp_port \<Rightarrow> nat" where
  "work_left t = sum_list (map steps_left (tp_phase t))"

lemma work_set:
  "h < length (tp_phase t) \<Longrightarrow> tp_phase t' = (tp_phase t)[h := p] \<Longrightarrow> steps_left p < steps_left (phase h t)
    \<Longrightarrow> work_left t' < work_left t"
proof -
  have "sum_list (map steps_left (ps[h := p])) < sum_list (map steps_left ps)"
    if "h < length ps" "steps_left p < steps_left (ps ! h)" for ps
    using that
  proof (induction ps arbitrary: h)
    case (Cons q ps)
    then show ?case by (cases h) auto
  qed simp
  then show "h < length (tp_phase t) \<Longrightarrow> tp_phase t' = (tp_phase t)[h := p] \<Longrightarrow> steps_left p < steps_left (phase h t)
    \<Longrightarrow> work_left t' < work_left t"
    by (simp add: work_left_def phase_def)
qed

lemma closed_step_decreases:
  "tcp_step t t' \<Longrightarrow> \<not> tp_listening t \<Longrightarrow> tp_closed t \<Longrightarrow> work_left t' < work_left t \<and> \<not> tp_listening t' \<and> tp_closed t'"
proof (induction rule: tcp_step.induct)
  case (dialed h t ok)
  then show ?case by (cases ok) (auto simp: tcp_ops intro!: work_set [of h])
next
  case (client h t)
  then show ?case by (auto simp: tcp_ops intro!: work_set [of h])
next
  case (backend h t)
  then show ?case by (auto simp: tcp_ops intro!: work_set [of h])
next
  case (from_client h t b)
  then show ?case by (cases b) (auto simp: tcp_ops Let_def intro!: work_set [of h])
next
  case (from_backend h t a)
  then show ?case by (cases a) (auto simp: tcp_ops Let_def intro!: work_set [of h])
qed auto

lemma enabled:
  assumes "h < length (tp_phase t)" "steps_left (phase h t) > 0"
  shows "\<exists>t'. tcp_step t t'"
proof (cases "phase h t")
  case T_dialing
  then show ?thesis using assms(1) tcp_step.dialed by blast
next
  case T_dialed
  then show ?thesis using assms(1) tcp_step.client by blast
next
  case T_tracked
  then show ?thesis using assms(1) tcp_step.backend by blast
next
  case (T_piping a b)
  then show ?thesis
    using assms tcp_step.from_client [of h t b] tcp_step.from_backend [of h t a] by (cases a; cases b) auto
next
  case T_done
  then show ?thesis using assms(2) by simp
qed

lemma all_done:
  assumes inv: "tcp_inv t" and closed: "\<not> tp_listening t" and stuck: "\<nexists>t'. tcp_step t t'"
  shows "tp_open t = [] \<and> tp_sem t = 0"
proof -
  have ended: "phase h t = T_done" if "h < length (tp_phase t)" for h
  proof -
    have "phase h t \<noteq> T_piping True True" using own_ok [OF inv that] unfolding handler_ok_def by blast
    then show ?thesis
      using enabled [OF that] stuck by (cases "phase h t") (auto split: if_splits)
  qed
  have "(h, side) \<notin> set (tp_open t)" for h side
  proof
    assume o: "(h, side) \<in> set (tp_open t)"
    then have h: "h < length (tp_phase t)" using inv unfolding tcp_inv_def by blast
    have "connected (phase h t) side" using own_ok [OF inv h] o unfolding handler_ok_def by blast
    then show False using ended [OF h] by (simp add: connected_def)
  qed
  then have "tp_open t = []" by (cases "tp_open t") auto
  moreover have "filter (\<lambda>p. p \<noteq> T_done) (tp_phase t) = []"
    using ended by (auto simp: filter_empty_conv phase_def in_set_conv_nth)
  then have "tp_sem t = 0" using inv by (simp add: tcp_inv_def running_def)
  ultimately show ?thesis by simp
qed

section \<open>Properties\<close>

text \<open>A TCP port never relays more connections than its capacity: the semaphore counts exactly the
  handlers that have not returned. Only running handlers have open connections, so none leaks.\<close>

theorem tcp_capacity:
  assumes "tcp_reach cap t"
  shows "running (tp_phase t) \<le> cap \<and> tp_sem t = running (tp_phase t)
     \<and> (\<forall>h side. (h, side) \<in> set (tp_open t) \<longrightarrow> h < length (tp_phase t) \<and> phase h t \<noteq> T_done)"
proof -
  have inv: "tcp_inv t" and cap: "tp_cap t = cap" using tcp_reach_inv [OF assms] by blast+
  have "phase h t \<noteq> T_done" if o: "(h, side) \<in> set (tp_open t)" for h side
  proof -
    have h: "h < length (tp_phase t)" using inv o unfolding tcp_inv_def by blast
    have "connected (phase h t) side" using own_ok [OF inv h] o unfolding handler_ok_def by blast
    then show ?thesis by (auto simp: connected_def)
  qed
  then show ?thesis using inv cap unfolding tcp_inv_def by metis
qed

text \<open>A port of capacity one: the second connection is refused.\<close>

definition demo_tcp :: tcp_port where
  "demo_tcp = tcp_accept (track_client 0 (tcp_dialed True 0 (tcp_accept (new_tcp 1))))"

lemma demo_tcp_reach: "tcp_reach 1 demo_tcp"
  unfolding demo_tcp_def
  by (intro tcp_reach.step [OF _ tcp_step.accept] tcp_reach.step [OF _ tcp_step.client]
      tcp_reach.step [OF _ tcp_step.dialed] tcp_reach.start; code_simp)

theorem tcp_capacity_witness:
  "tp_sem demo_tcp = running (tp_phase demo_tcp) \<and> tp_phase demo_tcp = [T_tracked]"
proof
  show "tp_sem demo_tcp = running (tp_phase demo_tcp)" using tcp_capacity [OF demo_tcp_reach] by blast
  show "tp_phase demo_tcp = [T_tracked]" by code_simp
qed

text \<open>C20: closing a port ends it. Once \<^verbatim>\<open>Close\<close> is over, no connection of a handler that relays is open;
  whatever the interleaving, the handlers come to rest after finitely many steps; and where no step is
  possible every handler has returned, no connection is open and the semaphore is free.\<close>

theorem tcp_close_ends:
  "wf {(t', t). \<not> tp_listening t \<and> tcp_reach cap t \<and> tcp_step t t'}
   \<and> (\<forall>t. tcp_reach cap t \<longrightarrow> \<not> tp_listening t \<longrightarrow>
        (\<forall>h < length (tp_phase t). \<forall>a b side. phase h t = T_piping a b \<longrightarrow> (h, side) \<notin> set (tp_open t))
        \<and> ((\<nexists>t'. tcp_step t t') \<longrightarrow> tp_open t = [] \<and> tp_sem t = 0 \<and> (\<forall>p \<in> set (tp_phase t). p = T_done)))"
proof (intro conjI allI impI)
  have "{(t', t). \<not> tp_listening t \<and> tcp_reach cap t \<and> tcp_step t t'} \<subseteq> measure work_left"
    using closed_step_decreases tcp_reach_inv inv_closed(2) by (auto simp del: not_less)
  then show "wf {(t', t). \<not> tp_listening t \<and> tcp_reach cap t \<and> tcp_step t t'}"
    by (rule wf_subset [OF wf_measure])
next
  fix t h a b side
  assume t: "tcp_reach cap t" "\<not> tp_listening t" and h: "h < length (tp_phase t)" "phase h t = T_piping a b"
  have "tracked (phase h t) side" by (simp add: h(2) tracked_def)
  then show "(h, side) \<notin> set (tp_open t)"
    using own_ok [OF _ h(1)] tcp_reach_inv [OF t(1)] t(2) unfolding handler_ok_def by blast
next
  fix t
  assume t: "tcp_reach cap t" "\<not> tp_listening t" "\<nexists>t'. tcp_step t t'"
  have inv: "tcp_inv t" using tcp_reach_inv [OF t(1)] by blast
  note all_done [OF inv t(2,3)]
  then show "tp_open t = []" "tp_sem t = 0" by simp_all
  then have "filter (\<lambda>p. p \<noteq> T_done) (tp_phase t) = []" using inv by (simp add: tcp_inv_def running_def)
  then show "\<forall>p \<in> set (tp_phase t). p = T_done" by (simp add: filter_empty_conv)
qed

text \<open>The port closes while a handler waits for its dial: its two tries to track end it.\<close>

definition demo_closing :: tcp_port where
  "demo_closing = close_end (close_begin (tcp_dialed True 0 (tcp_accept (new_tcp 1))))"

lemma demo_closing_reach: "tcp_reach 1 demo_closing"
  unfolding demo_closing_def
  by (intro tcp_reach.step [OF _ tcp_step.close_end] tcp_reach.step [OF _ tcp_step.close_begin]
      tcp_reach.step [OF _ tcp_step.dialed] tcp_reach.step [OF _ tcp_step.accept] tcp_reach.start; code_simp)

lemma demo_closed_final: "\<nexists>t'. tcp_step (track_client 0 demo_closing) t'"
proof -
  have p: "tp_phase (track_client 0 demo_closing) = [T_done]" "\<not> tp_listening (track_client 0 demo_closing)"
    "tp_closed (track_client 0 demo_closing)" by code_simp+
  have "phase h (track_client 0 demo_closing) = T_done" if "h < 1" for h
    using that p(1) by (simp add: phase_def)
  then show ?thesis using p by (auto elim!: tcp_step.cases)
qed

theorem tcp_close_ends_witness:
  "tp_open demo_closing \<noteq> [] \<and> tp_open (track_client 0 demo_closing) = []
   \<and> tp_sem (track_client 0 demo_closing) = 0"
proof -
  have "tcp_step demo_closing (track_client 0 demo_closing)"
    by (rule tcp_step.client; code_simp)
  from tcp_reach.step [OF demo_closing_reach this]
  have "tcp_reach 1 (track_client 0 demo_closing)" "\<not> tp_listening (track_client 0 demo_closing)"
    by (assumption, code_simp)
  then have "tp_open (track_client 0 demo_closing) = []" "tp_sem (track_client 0 demo_closing) = 0"
    using tcp_close_ends [of 1] demo_closed_final by blast+
  moreover have "tp_open demo_closing \<noteq> []" by code_simp
  ultimately show ?thesis by blast
qed

end
