(* ===== verification/Hooks.thy ===== *)
theory Hooks
  imports Registry
begin

text \<open>
  \<^verbatim>\<open>internal/agent/hooks.go\<close>: the callbacks by which the agent tells the owner of a server which public
  ports its side ports have.

  \<open>hook trace name st\<close> is the outcome of one run of the callback, which may depend on the runs before it
  (\<open>trace\<close>, the latest first). The state file is the value that was last written to it; writing it
  succeeds or fails (\<open>disk\<close>), and its JSON text is not modelled. The applied states are a map as an
  association list in iteration order.

  The lemmas show which callbacks a comparison runs, that a successful comparison leaves exactly the
  wanted states, and that a comparison with the same answer only repeats what failed.
\<close>

section \<open>Definitions\<close>

record side_state =
  ss_state :: string
  ss_protocol :: string
  ss_backend :: int
  ss_host :: string
  ss_port :: int
  ss_error :: string

record hooks =
  hk_argv :: "string list"
  hk_state_file :: string
  hk_server_id :: string
  hk_applied :: "(string \<times> side_state) list"
  hk_file :: "(string \<times> side_state) list option"

type_synonym hook_call = "string \<times> side_state"

type_synonym hook = "hook_call list \<Rightarrow> string \<Rightarrow> side_state \<Rightarrow> bool"

text \<open>\<^verbatim>\<open>newHooks\<close>: \<open>content\<close> is what the state file decodes to, if it exists and is valid.\<close>

definition new_hooks ::
  "string list \<Rightarrow> string \<Rightarrow> string \<Rightarrow> (string \<times> side_state) list option \<Rightarrow> hooks" where
  "new_hooks argv state_file server_id content =
     \<lparr>hk_argv = argv, hk_state_file = state_file, hk_server_id = server_id,
      hk_applied = (if state_file = [] then [] else case content of None \<Rightarrow> [] | Some m \<Rightarrow> m),
      hk_file = content\<rparr>"

definition prefer_ports :: "hooks \<Rightarrow> side_port list \<Rightarrow> side_port list" where
  "prefer_ports h ports =
     map (\<lambda>p. case map_of (hk_applied h) (to_lower (sp_name p)) of
                Some st \<Rightarrow> if ss_state st = ''assigned'' \<and> sp_preferred p = 0 then p\<lparr>sp_preferred := ss_port st\<rparr> else p
              | None \<Rightarrow> p) ports"

text \<open>The map \<^verbatim>\<open>got\<close> of the answer by name.\<close>

definition answered :: "side_port list \<Rightarrow> string \<Rightarrow> side_port option" where
  "answered answer name = map_of (map (\<lambda>p. (sp_name p, p)) (rev answer)) name"

text \<open>The state that a declared side port should have.\<close>

definition wanted :: "side_port list \<Rightarrow> side_port \<Rightarrow> side_state" where
  "wanted answer d =
     (let failed = (\<lambda>e. \<lparr>ss_state = ''error'', ss_protocol = to_lower (sp_protocol d), ss_backend = sp_port d,
                         ss_host = [], ss_port = 0, ss_error = e\<rparr>)
      in case answered answer (to_lower (sp_name d)) of
           None \<Rightarrow> failed ''gateway does not support side ports''
         | Some p \<Rightarrow>
             (case sp_public p of
                None \<Rightarrow> failed (sp_error p)
              | Some a \<Rightarrow> \<lparr>ss_state = ''assigned'', ss_protocol = sp_protocol p, ss_backend = sp_port p,
                           ss_host = pa_host a, ss_port = pa_port a, ss_error = []\<rparr>))"

text \<open>\<^verbatim>\<open>run\<close>: the outcome and the runs so far.\<close>

definition hook_run :: "hook \<Rightarrow> hooks \<Rightarrow> string \<Rightarrow> side_state \<Rightarrow> hook_call list \<Rightarrow> bool \<times> hook_call list" where
  "hook_run hook h name st trace =
     (if hk_argv h = [] then (True, trace) else (hook trace name st, (name, st) # trace))"

definition port_string :: "int \<Rightarrow> string" where
  "port_string p = (if p = 0 then [] else itoa p)"

definition hook_env :: "string \<Rightarrow> string \<Rightarrow> side_state \<Rightarrow> string list" where
  "hook_env server_id name st =
     [''VECTA_SERVER_ID='' @ server_id, ''VECTA_SIDEPORT_NAME='' @ name,
      ''VECTA_SIDEPORT_PROTOCOL='' @ ss_protocol st, ''VECTA_SIDEPORT_BACKEND_PORT='' @ itoa (ss_backend st),
      ''VECTA_SIDEPORT_STATE='' @ ss_state st, ''VECTA_SIDEPORT_HOST='' @ ss_host st,
      ''VECTA_SIDEPORT_PORT='' @ port_string (ss_port st), ''VECTA_SIDEPORT_ERROR='' @ ss_error st]"

text \<open>The first loop of \<^verbatim>\<open>apply\<close>, over the declared side ports. The last component is \<^verbatim>\<open>changed\<close>.\<close>

fun apply_declared ::
  "hook \<Rightarrow> side_port list \<Rightarrow> side_port list \<Rightarrow> hooks \<Rightarrow> hook_call list \<Rightarrow> bool \<Rightarrow> hooks \<times> hook_call list \<times> bool" where
  "apply_declared hook answer [] h trace changed = (h, trace, changed)"
| "apply_declared hook answer (d # ds) h trace changed =
     (let name = to_lower (sp_name d); w = wanted answer d in
      if map_of (hk_applied h) name = Some w then apply_declared hook answer ds h trace changed
      else case hook_run hook h name w trace of
             (True, trace) \<Rightarrow>
               apply_declared hook answer ds (h\<lparr>hk_applied := AList.update name w (hk_applied h)\<rparr>) trace True
           | (False, trace) \<Rightarrow> apply_declared hook answer ds h trace changed)"

definition contains_name :: "side_port list \<Rightarrow> string \<Rightarrow> bool" where
  "contains_name ports name \<longleftrightarrow> (\<exists>p \<in> set ports. to_lower (sp_name p) = name)"

definition release_of :: "side_state \<Rightarrow> side_state" where
  "release_of st = \<lparr>ss_state = ''released'', ss_protocol = ss_protocol st, ss_backend = ss_backend st, ss_host = [],
     ss_port = 0, ss_error = []\<rparr>"

text \<open>The second loop, over the applied states.\<close>

fun apply_released ::
  "hook \<Rightarrow> side_port list \<Rightarrow> (string \<times> side_state) list \<Rightarrow> hooks \<Rightarrow> hook_call list \<Rightarrow> bool
    \<Rightarrow> hooks \<times> hook_call list \<times> bool" where
  "apply_released hook ds [] h trace changed = (h, trace, changed)"
| "apply_released hook ds ((name, st) # rest) h trace changed =
     (if contains_name ds name then apply_released hook ds rest h trace changed
      else case (if ss_state st = ''released'' then (True, trace) else hook_run hook h name (release_of st) trace) of
             (True, trace) \<Rightarrow>
               apply_released hook ds rest (h\<lparr>hk_applied := AList.delete name (hk_applied h)\<rparr>) trace True
           | (False, trace) \<Rightarrow> apply_released hook ds rest h trace changed)"

definition hooks_save :: "bool \<Rightarrow> hooks \<Rightarrow> hooks" where
  "hooks_save disk h =
     (if hk_state_file h = [] then h else if disk then h\<lparr>hk_file := Some (hk_applied h)\<rparr> else h)"

text \<open>\<^verbatim>\<open>apply\<close>: the new state and the callbacks run, the latest first.\<close>

definition hooks_apply ::
  "hook \<Rightarrow> bool \<Rightarrow> side_port list \<Rightarrow> side_port list \<Rightarrow> hooks \<Rightarrow> hooks \<times> hook_call list" where
  "hooks_apply hook disk ds answer h =
     (case apply_declared hook answer ds h [] False of
        (h, trace, changed) \<Rightarrow>
          (case apply_released hook ds (hk_applied h) h trace changed of
             (h, trace, changed) \<Rightarrow> (if changed then hooks_save disk h else h, trace)))"

section \<open>What a comparison does\<close>

definition names :: "side_port list \<Rightarrow> string list" where
  "names ds = map (\<lambda>d. to_lower (sp_name d)) ds"

text \<open>The wanted states by name.\<close>

definition goal :: "side_port list \<Rightarrow> side_port list \<Rightarrow> string \<Rightarrow> side_state option" where
  "goal answer ds = map_of (map (\<lambda>d. (to_lower (sp_name d), wanted answer d)) ds)"

lemma contains_name_iff: "contains_name ds name \<longleftrightarrow> name \<in> set (names ds)"
  by (auto simp: contains_name_def names_def)

lemma dom_goal: "dom (goal answer ds) = set (names ds)"
  by (auto simp: goal_def names_def dom_map_of_conv_image_fst image_comp comp_def)

lemma goal_Cons: "goal answer (d # ds) = (goal answer ds)(to_lower (sp_name d) \<mapsto> wanted answer d)"
  by (simp add: goal_def)

lemma hook_run_cases:
  assumes "hook_run hook h n w tr = (ok, tr')"
  shows "\<exists>new. tr' = new @ tr \<and> set new \<subseteq> {(n, w)} \<and> (\<not> ok \<longrightarrow> hk_argv h \<noteq> [] \<and> \<not> hook tr n w)"
  using assms by (cases "hk_argv h = []") (auto simp: hook_run_def intro: exI [of _ "[(n, w)]"])

text \<open>The first loop: which callbacks it runs, what it leaves of each wanted state.\<close>

definition looped ::
  "hook \<Rightarrow> (string \<Rightarrow> side_state option) \<Rightarrow> hooks \<Rightarrow> hook_call list \<Rightarrow> hooks \<Rightarrow> hook_call list \<Rightarrow> bool" where
  "looped hook g h tr h' tr' \<longleftrightarrow>
     hk_argv h' = hk_argv h \<and> hk_state_file h' = hk_state_file h \<and> hk_file h' = hk_file h
     \<and> (distinct (map fst (hk_applied h)) \<longrightarrow> distinct (map fst (hk_applied h')))
     \<and> (\<exists>new. tr' = new @ tr
          \<and> (\<forall>(n, w) \<in> set new. g n = Some w \<and> map_of (hk_applied h) n \<noteq> Some w))
     \<and> (\<forall>n. g n = None \<longrightarrow> map_of (hk_applied h') n = map_of (hk_applied h) n)
     \<and> (\<forall>n w. g n = Some w \<longrightarrow>
          map_of (hk_applied h') n = Some w
          \<or> map_of (hk_applied h') n = map_of (hk_applied h) n \<and> (\<exists>t. \<not> hook t n w))"

lemma looped_refl: "(\<And>n w. g n = Some w \<Longrightarrow> map_of (hk_applied h) n = Some w) \<Longrightarrow> looped hook g h tr h tr"
  by (auto simp: looped_def)

text \<open>One more name before the rest of the loop: its state was as wanted, or is set, or its callback
  failed.\<close>

lemma looped_step:
  assumes "looped hook g h1 (new @ tr) h' tr'" and "g k = None"
    and "set new \<subseteq> {(k, w)}" and "new \<noteq> [] \<Longrightarrow> map_of (hk_applied h) k \<noteq> Some w"
    and "h1 = h\<lparr>hk_applied := AList.update k w (hk_applied h)\<rparr>
      \<or> h1 = h \<and> (map_of (hk_applied h) k = Some w \<or> (\<exists>t. \<not> hook t k w))"
  shows "looped hook (g(k \<mapsto> w)) h tr h' tr'"
proof -
  note l = assms(1) [unfolded looped_def]
  have same: "map_of (hk_applied h1) n = map_of (hk_applied h) n" if "n \<noteq> k" for n
    using assms(5) that by auto
  obtain new1 where n1: "tr' = new1 @ new @ tr"
    "\<forall>(n, w) \<in> set new1. g n = Some w \<and> map_of (hk_applied h1) n \<noteq> Some w" using l by blast
  have "\<forall>(n, v) \<in> set (new1 @ new). (g(k \<mapsto> w)) n = Some v \<and> map_of (hk_applied h) n \<noteq> Some v"
  proof (intro ballI, clarify)
    fix n v
    assume "(n, v) \<in> set (new1 @ new)"
    then consider "(n, v) \<in> set new1" | "(n, v) \<in> set new" by auto
    then show "(g(k \<mapsto> w)) n = Some v \<and> map_of (hk_applied h) n \<noteq> Some v"
    proof cases
      case 1
      then have g: "g n = Some v" "map_of (hk_applied h1) n \<noteq> Some v" using n1(2) by auto
      then have "n \<noteq> k" using assms(2) by auto
      then show ?thesis using g same by simp
    next
      case 2
      then have e: "n = k" "v = w" "new \<noteq> []" using assms(3) by auto
      show ?thesis unfolding e using assms(4) e(3) by simp
    qed
  qed
  then have 1: "\<exists>new. tr' = new @ tr \<and> (\<forall>(n, v) \<in> set new. (g(k \<mapsto> w)) n = Some v \<and> map_of (hk_applied h) n \<noteq> Some v)"
    using n1(1) by (intro exI [of _ "new1 @ new"]) simp
  have k: "map_of (hk_applied h') k = map_of (hk_applied h1) k" using l assms(2) by blast
  have 2: "map_of (hk_applied h') n = Some v \<or> map_of (hk_applied h') n = map_of (hk_applied h) n \<and> (\<exists>t. \<not> hook t n v)"
    if "(g(k \<mapsto> w)) n = Some v" for n v
  proof (cases "n = k")
    case True
    then have "v = w" using that by simp
    then show ?thesis using True k assms(5) by auto
  next
    case False
    then have "g n = Some v" using that by simp
    then show ?thesis using l same [OF False] by metis
  qed
  have 3: "map_of (hk_applied h') n = map_of (hk_applied h) n" if "(g(k \<mapsto> w)) n = None" for n
    using that l same [of n] by (metis fun_upd_apply option.distinct(1))
  have 4: "distinct (map fst (hk_applied h)) \<longrightarrow> distinct (map fst (hk_applied h'))"
    using l assms(5) by (auto simp: distinct_update simp del: map_of_eq_Some_iff)
  have 5: "hk_argv h' = hk_argv h \<and> hk_state_file h' = hk_state_file h \<and> hk_file h' = hk_file h"
    using l assms(5) by auto
  show ?thesis unfolding looped_def using 1 2 3 4 5 by blast
qed

lemma apply_declared_looped:
  assumes "apply_declared hook answer ds h tr c = (h', tr', c')" and "distinct (names ds)"
  shows "looped hook (goal answer ds) h tr h' tr'"
  using assms
proof (induction ds arbitrary: h tr c)
  case Nil
  then show ?case by (auto simp: goal_def intro: looped_refl)
next
  case (Cons d ds)
  let ?n = "to_lower (sp_name d)" and ?w = "wanted answer d"
  have d: "distinct (names ds)" and fresh: "goal answer ds ?n = None"
    using Cons.prems(2) dom_goal [of answer ds] by (auto simp: names_def)
  show ?case
  proof (cases "map_of (hk_applied h) ?n = Some ?w")
    case True
    then have "looped hook (goal answer ds) h ([] @ tr) h' tr'" using Cons.IH [OF _ d] Cons.prems(1) by (simp add: Let_def)
    then show ?thesis unfolding goal_Cons by (rule looped_step [where g = "goal answer ds" and k = ?n, OF _ fresh]) (use True in auto)
  next
    case False
    obtain ok tr1 where r: "hook_run hook h ?n ?w tr = (ok, tr1)" by (metis prod.exhaust)
    obtain new where new: "tr1 = new @ tr" "set new \<subseteq> {(?n, ?w)}" "\<not> ok \<longrightarrow> hk_argv h \<noteq> [] \<and> \<not> hook tr ?n ?w"
      using hook_run_cases [OF r] by blast
    let ?h1 = "if ok then h\<lparr>hk_applied := AList.update ?n ?w (hk_applied h)\<rparr> else h"
    have "looped hook (goal answer ds) ?h1 (new @ tr) h' tr'"
      using Cons.IH [OF _ d, of ?h1 tr1] Cons.prems(1) False r new(1) by (cases ok) (auto simp: Let_def)
    then show ?thesis unfolding goal_Cons
      by (rule looped_step [where g = "goal answer ds" and k = ?n, OF _ fresh new(2)]) (use False new(3) in \<open>auto split: if_splits\<close>)
  qed
qed

text \<open>The second loop.\<close>

lemma apply_released_spec:
  assumes "apply_released hook ds es h tr c = (h', tr', c')" and "distinct (map fst es)"
  shows "hk_argv h' = hk_argv h \<and> hk_state_file h' = hk_state_file h \<and> hk_file h' = hk_file h"
    "distinct (map fst (hk_applied h)) \<Longrightarrow> distinct (map fst (hk_applied h'))"
    "\<exists>new. tr' = new @ tr \<and> (\<forall>(n, w) \<in> set new. \<not> contains_name ds n
        \<and> (\<exists>st. (n, st) \<in> set es \<and> ss_state st \<noteq> ''released'' \<and> w = release_of st))"
    "n \<notin> fst ` set es \<or> contains_name ds n \<Longrightarrow> map_of (hk_applied h') n = map_of (hk_applied h) n"
    "(n, st) \<in> set es \<Longrightarrow> \<not> contains_name ds n \<Longrightarrow>
       map_of (hk_applied h') n = None
       \<or> map_of (hk_applied h') n = map_of (hk_applied h) n \<and> (\<exists>t. \<not> hook t n (release_of st))"
proof -
  have "hk_argv h' = hk_argv h \<and> hk_state_file h' = hk_state_file h \<and> hk_file h' = hk_file h
    \<and> (distinct (map fst (hk_applied h)) \<longrightarrow> distinct (map fst (hk_applied h')))
    \<and> (\<exists>new. tr' = new @ tr \<and> (\<forall>(n, w) \<in> set new. \<not> contains_name ds n
        \<and> (\<exists>st. (n, st) \<in> set es \<and> ss_state st \<noteq> ''released'' \<and> w = release_of st)))
    \<and> (\<forall>n. n \<notin> fst ` set es \<or> contains_name ds n \<longrightarrow> map_of (hk_applied h') n = map_of (hk_applied h) n)
    \<and> (\<forall>n st. (n, st) \<in> set es \<longrightarrow> \<not> contains_name ds n \<longrightarrow>
         map_of (hk_applied h') n = None
         \<or> map_of (hk_applied h') n = map_of (hk_applied h) n \<and> (\<exists>t. \<not> hook t n (release_of st)))"
    (is "?S es h tr")
    using assms
  proof (induction es arbitrary: h tr c)
    case Nil
    then show ?case by simp
  next
    case (Cons e es)
    obtain k st where e: "e = (k, st)" by (cases e)
    have d: "distinct (map fst es)" and fresh: "k \<notin> fst ` set es" using Cons.prems(2) e by auto
    show ?case
    proof (cases "contains_name ds k")
      case True
      then have "?S es h tr" using Cons.IH [OF _ d] Cons.prems(1) e by simp
      then show ?thesis unfolding e using True fresh by fastforce
    next
      case False
      obtain ok tr1 where r: "(if ss_state st = ''released'' then (True, tr) else hook_run hook h k (release_of st) tr) = (ok, tr1)"
        by (metis prod.exhaust)
      obtain new where new: "tr1 = new @ tr" "set new \<subseteq> {(k, release_of st)}" "new \<noteq> [] \<longrightarrow> ss_state st \<noteq> ''released''"
        "\<not> ok \<longrightarrow> \<not> hook tr k (release_of st)"
        using r hook_run_cases [of hook h k "release_of st" tr ok tr1] by (auto split: if_splits)
      define h1 where "h1 = (if ok then h\<lparr>hk_applied := AList.delete k (hk_applied h)\<rparr> else h)"
      have l: "?S es h1 tr1"
        using Cons.IH [OF _ d, of h1 tr1] Cons.prems(1) False r e by (cases ok) (auto simp: h1_def)
      then obtain new1 where n1: "tr' = new1 @ tr1" "\<forall>(n, w) \<in> set new1. \<not> contains_name ds n
          \<and> (\<exists>st. (n, st) \<in> set es \<and> ss_state st \<noteq> ''released'' \<and> w = release_of st)" by blast
      have 1: "\<exists>new. tr' = new @ tr \<and> (\<forall>(n, w) \<in> set new. \<not> contains_name ds n
          \<and> (\<exists>st. (n, st) \<in> set (e # es) \<and> ss_state st \<noteq> ''released'' \<and> w = release_of st))"
        using n1 new False e by (intro exI [of _ "new1 @ new"]) fastforce
      have same: "map_of (hk_applied h1) n = map_of (hk_applied h) n" if "n \<noteq> k" for n
        using that by (simp add: h1_def)
      have k: "map_of (hk_applied h') k = map_of (hk_applied h1) k" using l fresh by blast
      have 2: "map_of (hk_applied h') n = map_of (hk_applied h) n"
        if "n \<notin> fst ` set (e # es) \<or> contains_name ds n" for n
      proof -
        have "n \<noteq> k" using that False e by auto
        moreover have "n \<notin> fst ` set es \<or> contains_name ds n" using that by auto
        ultimately show ?thesis using l same by metis
      qed
      have 3: "map_of (hk_applied h') n = None
          \<or> map_of (hk_applied h') n = map_of (hk_applied h) n \<and> (\<exists>t. \<not> hook t n (release_of s))"
        if "(n, s) \<in> set (e # es)" "\<not> contains_name ds n" for n s
      proof (cases "n = k")
        case True
        then have "s = st" using that(1) e fresh by (force simp: image_iff)
        then show ?thesis using True k new(4) by (auto simp: h1_def)
      next
        case nk: False
        then have "(n, s) \<in> set es" using that(1) e by auto
        then show ?thesis using l that(2) same [OF nk] by metis
      qed
      have 4: "distinct (map fst (hk_applied h)) \<longrightarrow> distinct (map fst (hk_applied h'))"
        using l by (auto simp: h1_def distinct_delete simp del: map_of_eq_Some_iff)
      have 5: "hk_argv h' = hk_argv h \<and> hk_state_file h' = hk_state_file h \<and> hk_file h' = hk_file h"
        using l by (simp add: h1_def)
      show ?thesis using 1 2 3 4 5 by blast
    qed
  qed
  then show "hk_argv h' = hk_argv h \<and> hk_state_file h' = hk_state_file h \<and> hk_file h' = hk_file h"
    "distinct (map fst (hk_applied h)) \<Longrightarrow> distinct (map fst (hk_applied h'))"
    "\<exists>new. tr' = new @ tr \<and> (\<forall>(n, w) \<in> set new. \<not> contains_name ds n
        \<and> (\<exists>st. (n, st) \<in> set es \<and> ss_state st \<noteq> ''released'' \<and> w = release_of st))"
    "n \<notin> fst ` set es \<or> contains_name ds n \<Longrightarrow> map_of (hk_applied h') n = map_of (hk_applied h) n"
    "(n, st) \<in> set es \<Longrightarrow> \<not> contains_name ds n \<Longrightarrow>
       map_of (hk_applied h') n = None
       \<or> map_of (hk_applied h') n = map_of (hk_applied h) n \<and> (\<exists>t. \<not> hook t n (release_of st))"
    by blast+
qed

lemma declared_changed: "apply_declared hook answer ds h tr True = (h', tr', c') \<Longrightarrow> c'"
  by (induction ds arbitrary: h tr) (auto simp: Let_def split: if_splits prod.splits bool.splits)

lemma released_changed: "apply_released hook ds es h tr True = (h', tr', c') \<Longrightarrow> c'"
  by (induction es arbitrary: h tr) (auto split: if_splits prod.splits bool.splits)

lemma declared_unchanged: "apply_declared hook answer ds h tr c = (h', tr', False) \<Longrightarrow> h' = h \<and> \<not> c"
proof (induction ds arbitrary: h tr c)
  case (Cons d ds)
  show ?case using Cons.prems
    by (auto simp: Let_def dest: Cons.IH declared_changed split: if_splits prod.splits bool.splits)
qed simp

lemma released_unchanged: "apply_released hook ds es h tr c = (h', tr', False) \<Longrightarrow> h' = h \<and> \<not> c"
proof (induction es arbitrary: h tr c)
  case (Cons e es)
  show ?case using Cons.prems
    by (cases e) (auto dest: Cons.IH released_changed split: if_splits prod.splits bool.splits)
qed simp

text \<open>A comparison as a whole.\<close>

lemma hooks_apply_spec:
  assumes "hooks_apply hook disk ds answer h = (h', runs)"
    and "distinct (names ds)" and "distinct (map fst (hk_applied h))"
  shows "(n, w) \<in> set runs \<Longrightarrow>
      goal answer ds n = Some w \<and> map_of (hk_applied h) n \<noteq> Some w
      \<or> goal answer ds n = None \<and> (\<exists>st. map_of (hk_applied h) n = Some st \<and> ss_state st \<noteq> ''released'' \<and> w = release_of st)"
    and "goal answer ds n = Some w \<Longrightarrow>
      map_of (hk_applied h') n = Some w \<or> map_of (hk_applied h') n = map_of (hk_applied h) n \<and> (\<exists>t. \<not> hook t n w)"
    and "goal answer ds n = None \<Longrightarrow>
      map_of (hk_applied h') n = None
      \<or> map_of (hk_applied h') n = map_of (hk_applied h) n
        \<and> (\<exists>st t. map_of (hk_applied h) n = Some st \<and> \<not> hook t n (release_of st))"
    and "distinct (map fst (hk_applied h'))"
    and "disk \<Longrightarrow> hk_state_file h \<noteq> [] \<Longrightarrow> hk_file h = Some (hk_applied h) \<Longrightarrow> hk_file h' = Some (hk_applied h')"
proof -
  obtain h1 tr1 c1 where 1: "apply_declared hook answer ds h [] False = (h1, tr1, c1)" by (metis prod.exhaust)
  obtain h2 tr2 c2 where 2: "apply_released hook ds (hk_applied h1) h1 tr1 c1 = (h2, tr2, c2)" by (metis prod.exhaust)
  have h': "h' = (if c2 then hooks_save disk h2 else h2)" "runs = tr2"
    using assms(1) 1 2 by (simp_all add: hooks_apply_def)
  then have app: "hk_applied h' = hk_applied h2" by (simp add: hooks_save_def)
  have L: "looped hook (goal answer ds) h [] h1 tr1" by (rule apply_declared_looped [OF 1 assms(2)])
  then have d1: "distinct (map fst (hk_applied h1))" using assms(3) by (simp add: looped_def)
  note R = apply_released_spec [OF 2 d1]
  have c: "contains_name ds n \<longleftrightarrow> goal answer ds n \<noteq> None" for n
    using dom_goal [of answer ds] by (auto simp: contains_name_iff)
  have unch: "map_of (hk_applied h1) n = map_of (hk_applied h) n" if "goal answer ds n = None" for n
    using L that unfolding looped_def by blast
  have mem: "(n, st) \<in> set (hk_applied h1) \<longleftrightarrow> map_of (hk_applied h1) n = Some st" for n st
    using d1 by simp
  {
    assume r: "(n, w) \<in> set runs"
    obtain new where new: "tr2 = new @ tr1" "\<forall>(n, w) \<in> set new. \<not> contains_name ds n
        \<and> (\<exists>st. (n, st) \<in> set (hk_applied h1) \<and> ss_state st \<noteq> ''released'' \<and> w = release_of st)" using R(3) by blast
    obtain new1 where new1: "tr1 = new1 @ []"
      "\<forall>(n, w) \<in> set new1. goal answer ds n = Some w \<and> map_of (hk_applied h) n \<noteq> Some w"
      using L unfolding looped_def by blast
    from r new(1) new1(1) h'(2) consider "(n, w) \<in> set new" | "(n, w) \<in> set new1" by auto
    then show "goal answer ds n = Some w \<and> map_of (hk_applied h) n \<noteq> Some w
      \<or> goal answer ds n = None \<and> (\<exists>st. map_of (hk_applied h) n = Some st \<and> ss_state st \<noteq> ''released'' \<and> w = release_of st)"
    proof cases
      case 1
      then have "goal answer ds n = None" "\<exists>st. map_of (hk_applied h1) n = Some st \<and> ss_state st \<noteq> ''released'' \<and> w = release_of st"
        using new(2) c mem by auto
      then show ?thesis using unch by metis
    next
      case 2
      then show ?thesis using new1(2) by blast
    qed
  next
    assume g: "goal answer ds n = Some w"
    then have "map_of (hk_applied h2) n = map_of (hk_applied h1) n" using R(4) [of n] c [of n] by simp
    then show "map_of (hk_applied h') n = Some w \<or> map_of (hk_applied h') n = map_of (hk_applied h) n \<and> (\<exists>t. \<not> hook t n w)"
      unfolding app using L g unfolding looped_def by metis
  next
    assume g: "goal answer ds n = None"
    show "map_of (hk_applied h') n = None \<or> map_of (hk_applied h') n = map_of (hk_applied h) n
        \<and> (\<exists>st t. map_of (hk_applied h) n = Some st \<and> \<not> hook t n (release_of st))"
    proof (cases "map_of (hk_applied h1) n")
      case None
      then have "n \<notin> fst ` set (hk_applied h1)" by (simp add: map_of_eq_None_iff)
      then show ?thesis unfolding app using R(4) [of n] None by simp
    next
      case (Some st)
      then have "(n, st) \<in> set (hk_applied h1)" by (simp only: mem)
      moreover have "\<not> contains_name ds n" using c g by simp
      ultimately have "map_of (hk_applied h2) n = None
          \<or> map_of (hk_applied h2) n = map_of (hk_applied h1) n \<and> (\<exists>t. \<not> hook t n (release_of st))" by (rule R(5))
      moreover have "map_of (hk_applied h) n = Some st" using Some unch [OF g] by metis
      ultimately show ?thesis unfolding app unch [OF g] by blast
    qed
  }
  show "distinct (map fst (hk_applied h'))" unfolding app by (rule R(2) [OF d1])
  assume f: "disk" "hk_state_file h \<noteq> []" "hk_file h = Some (hk_applied h)"
  show "hk_file h' = Some (hk_applied h')"
  proof (cases c2)
    case True
    moreover have "hk_state_file h2 \<noteq> []" using R(1) L f(2) by (simp add: looped_def)
    ultimately show ?thesis using h'(1) f(1) by (simp add: hooks_save_def)
  next
    case False
    then have "h2 = h1 \<and> \<not> c1" using released_unchanged [of hook ds "hk_applied h1" h1 tr1 c1 h2 tr2] 2 by simp
    moreover then have "h1 = h" using declared_unchanged [of hook answer ds h "[]" False h1 tr1] 1 by simp
    ultimately show ?thesis using h'(1) False f(3) by simp
  qed
qed

section \<open>Properties\<close>

text \<open>A gateway that gives one of two declared side ports a public port, and an agent that had applied the
  other one and one that is no longer declared.\<close>

definition demo_declared :: "side_port list" where
  "demo_declared = [\<lparr>sp_name = ''Map'', sp_protocol = ''tcp'', sp_port = 8100, sp_preferred = 0, sp_public = None, sp_error = []\<rparr>,
     \<lparr>sp_name = ''voice'', sp_protocol = ''udp'', sp_port = 24454, sp_preferred = 0, sp_public = None, sp_error = []\<rparr>]"

definition demo_answer :: "side_port list" where
  "demo_answer = [\<lparr>sp_name = ''map'', sp_protocol = ''tcp'', sp_port = 8100, sp_preferred = 0,
     sp_public = Some \<lparr>pa_host = ''play'', pa_port = 24500\<rparr>, sp_error = []\<rparr>]"

definition demo_hooks :: hooks where
  "demo_hooks = new_hooks [''notify''] ''state.json'' ''s1''
     (Some [(''old'', \<lparr>ss_state = ''assigned'', ss_protocol = ''tcp'', ss_backend = 9, ss_host = ''play'', ss_port = 24501, ss_error = []\<rparr>)])"



text \<open>The next comparison with the same answer runs again only callbacks that can fail: what succeeded
  is not repeated.\<close>

theorem hooks_retry:
  assumes "hooks_apply hook disk ds answer h = (h', runs)" and "hooks_apply hook disk' ds answer h' = (h'', runs')"
    and "distinct (names ds)" and "distinct (map fst (hk_applied h))" and "(n, w) \<in> set runs'"
  shows "\<exists>t. \<not> hook t n w"
proof -
  note first = hooks_apply_spec [OF assms(1,3,4)]
  from hooks_apply_spec(1) [OF assms(2,3) first(4) assms(5)]
  show ?thesis
  proof (elim disjE conjE exE)
    assume "goal answer ds n = Some w" "map_of (hk_applied h') n \<noteq> Some w"
    then show ?thesis using first(2) by blast
  next
    fix st
    assume g: "goal answer ds n = None" "map_of (hk_applied h') n = Some st" "w = release_of st"
    with first(3) [OF g(1)] show ?thesis by auto
  qed
qed

text \<open>A callback that fails for one name.\<close>

definition demo_failing :: hook where
  "demo_failing t n w \<longleftrightarrow> n \<noteq> ''voice''"

theorem hooks_retry_witness:
  "(\<exists>t. \<not> demo_failing t ''voice'' (wanted demo_answer (demo_declared ! 1)))
   \<and> map fst (snd (hooks_apply demo_failing False demo_declared demo_answer
       (fst (hooks_apply demo_failing True demo_declared demo_answer demo_hooks)))) = [''voice'']"
proof (intro conjI)
  let ?r = "hooks_apply demo_failing True demo_declared demo_answer demo_hooks"
  have "distinct (names demo_declared)" "distinct (map fst (hk_applied demo_hooks))"
    "(''voice'', wanted demo_answer (demo_declared ! 1))
      \<in> set (snd (hooks_apply demo_failing False demo_declared demo_answer (fst ?r)))" by code_simp+
  then show "\<exists>t. \<not> demo_failing t ''voice'' (wanted demo_answer (demo_declared ! 1))"
    by (rule hooks_retry [OF prod.collapse [symmetric] prod.collapse [symmetric]])
qed code_simp

end
