(* ===== verification/Agent.thy ===== *)
theory Agent
  imports Hooks Api
begin

text \<open>
  \<^verbatim>\<open>internal/agent/agent.go\<close>: the process beside a backend that keeps its registration alive. The mod ids
  come from the jars of a directory: the archive (\<open>jar\<close>, its entries in order, each with its content or
  the error of reading it) and the decoding of the JSON metadata (\<open>mod_json\<close>) are parameters; the scanner
  of \<^verbatim>\<open>mods.toml\<close> is modelled to the byte. \<open>agent_start\<close> is \<^verbatim>\<open>Run\<close> up to its loop, \<open>agent_request\<close> and
  \<open>agent_beat\<close> are one round of the loop around the call of the gateway, whose outcome is a parameter, and
  \<open>agent_stop\<close> is the request when it ends.

  The lemmas show that merged mod ids are sorted and unique, that a written \<^verbatim>\<open>mods.toml\<close> is read back,
  what the agent knows after a heartbeat that the API of this gateway answered, and that an agent gets
  its public ports back from a gateway that restarted.
\<close>

section \<open>Mod ids\<close>

text \<open>The map and the sorted list of its keys.\<close>

definition merge_unique :: "string list \<Rightarrow> string list \<Rightarrow> string list" where
  "merge_unique a b = sort (remdups (map to_lower (a @ b)))"

definition line_end :: char where
  "line_end = CHR 0x0A"

definition drop_cr :: "string \<Rightarrow> string" where
  "drop_cr s = (if s \<noteq> [] \<and> List.last s = CHR 0x0D then butlast s else s)"

text \<open>The tokens of a \<^verbatim>\<open>bufio.Scanner\<close>: lines without their line end, up to the first line that does not fit
  into its buffer of 64 KiB.\<close>

definition scan_lines :: "string \<Rightarrow> string list" where
  "scan_lines data =
     (let parts = split line_end data;
          lines = (if List.last parts = [] then butlast parts else parts)
      in map drop_cr (takeWhile (\<lambda>l. length l < 65536) lines))"

text \<open>\<^verbatim>\<open>tomlModID\<close>. The class \<^verbatim>\<open>\s\<close> has no vertical tab.\<close>

definition re_space :: "char \<Rightarrow> bool" where
  "re_space c \<longleftrightarrow> (of_char c :: nat) \<in> {9, 10, 12, 13, 32}"

definition quote_char :: "char \<Rightarrow> bool" where
  "quote_char c \<longleftrightarrow> (of_char c :: nat) \<in> {34, 39}"

definition toml_mod_id :: "string \<Rightarrow> string option" where
  "toml_mod_id line =
     (case cut_prefix (dropWhile re_space line) ''modId'' of
        (_, False) \<Rightarrow> None
      | (s, True) \<Rightarrow>
          (case dropWhile re_space s of
             [] \<Rightarrow> None
           | c # s \<Rightarrow>
               if c \<noteq> CHR ''='' then None
               else (case dropWhile re_space s of
                       [] \<Rightarrow> None
                     | q # s \<Rightarrow>
                         let v = takeWhile (\<lambda>c. \<not> quote_char c) s
                         in if quote_char q \<and> v \<noteq> [] \<and> length v < length s then Some v else None)))"

text \<open>The loop over the lines; \<open>in_mods\<close> is \<^verbatim>\<open>inMods\<close>.\<close>

fun toml_ids :: "bool \<Rightarrow> string list \<Rightarrow> string list" where
  "toml_ids in_mods [] = []"
| "toml_ids in_mods (raw # lines) =
     (let line = trim_space raw in
      if has_prefix line ''['' then toml_ids (trim_space (fst (cut CHR ''#'' line)) = ''[[mods]]'') lines
      else case toml_mod_id line of
             Some v \<Rightarrow> if in_mods then v # toml_ids in_mods lines else toml_ids in_mods lines
           | None \<Rightarrow> toml_ids in_mods lines)"

record mod_json =
  mj_fabric :: "string \<Rightarrow> string option"
  mj_quilt :: "string \<Rightarrow> string option"
  mj_list :: "string \<Rightarrow> string list option"
  mj_wrapped :: "string \<Rightarrow> string list"

definition entry_ids :: "mod_json \<Rightarrow> string \<Rightarrow> string \<Rightarrow> string list" where
  "entry_ids js name data =
     (if name = ''fabric.mod.json'' then
        (case mj_fabric js data of Some v \<Rightarrow> if v \<noteq> [] then [v] else [] | None \<Rightarrow> [])
      else if name = ''quilt.mod.json'' then
        (case mj_quilt js data of Some v \<Rightarrow> if v \<noteq> [] then [v] else [] | None \<Rightarrow> [])
      else if name = ''mcmod.info'' then
        (case mj_list js data of Some l \<Rightarrow> l | None \<Rightarrow> mj_wrapped js data)
      else toml_ids False (scan_lines data))"

definition mod_files :: "string list" where
  "mod_files = [''fabric.mod.json'', ''quilt.mod.json'', ''META-INF/mods.toml'', ''META-INF/neoforge.mods.toml'', ''mcmod.info'']"

type_synonym jar = "string + (string \<times> (string + string)) list"

fun jar_ids :: "mod_json \<Rightarrow> (string \<times> (string + string)) list \<Rightarrow> string + string list" where
  "jar_ids js [] = Inr []"
| "jar_ids js ((name, content) # files) =
     (if name \<notin> set mod_files then jar_ids js files
      else sum_bind content (\<lambda>data.
           sum_bind (jar_ids js files) (\<lambda>ids. Inr (entry_ids js name (take 1048576 data) @ ids))))"

definition mod_ids_from_jar :: "mod_json \<Rightarrow> jar \<Rightarrow> string + string list" where
  "mod_ids_from_jar js jar = sum_bind jar (jar_ids js)"

text \<open>A directory entry: its name, whether it is a directory, and the archive it is.\<close>

type_synonym dir_entry = "string \<times> bool \<times> jar"

fun scan_entries :: "mod_json \<Rightarrow> dir_entry list \<Rightarrow> string list" where
  "scan_entries js [] = []"
| "scan_entries js ((name, is_dir, jar) # es) =
     (if is_dir \<or> \<not> has_suffix (to_lower name) ''.jar'' then scan_entries js es
      else case mod_ids_from_jar js jar of
             Inl e \<Rightarrow> scan_entries js es
           | Inr found \<Rightarrow> found @ scan_entries js es)"

definition scan_mods :: "mod_json \<Rightarrow> string + dir_entry list \<Rightarrow> string + string list" where
  "scan_mods js dir = sum_bind dir (\<lambda>es. Inr (merge_unique [] (scan_entries js es)))"

section \<open>The run\<close>

record agent_config =
  ac_gateway :: string
  ac_token :: string
  ac_interval :: duration
  ac_mods_dir :: string
  ac_server :: server
  ac_hook :: "string list"
  ac_state_file :: string

datatype agent_error = AG_config | AG_scan string

record agent =
  ag_server :: server
  ag_declared :: "side_port list"
  ag_hooks :: hooks
  ag_url :: string
  ag_interval :: duration
  ag_registered :: bool

definition trim_right :: "char \<Rightarrow> string \<Rightarrow> string" where
  "trim_right c s = rev (dropWhile ((=) c) (rev s))"

definition server_url :: "string \<Rightarrow> string \<Rightarrow> string" where
  "server_url gateway i = trim_right CHR ''/'' gateway @ ''/api/v1/servers/'' @ i"

text \<open>\<^verbatim>\<open>Run\<close> up to its loop; \<open>dir\<close> is what reading the mods directory gives, \<open>content\<close> what the state file
  decodes to.\<close>

definition agent_start ::
  "mod_json \<Rightarrow> (string \<Rightarrow> string + dir_entry list) \<Rightarrow> (string \<times> side_state) list option \<Rightarrow> agent_config \<Rightarrow> agent_error + agent" where
  "agent_start js dir content cfg =
     (if ac_gateway cfg = [] \<or> ac_token cfg = [] \<or> sv_id (ac_server cfg) = [] then Inl AG_config
      else let start = (\<lambda>srv. Inr
             \<lparr>ag_server = srv, ag_declared = sv_side_ports srv,
              ag_hooks = new_hooks (ac_hook cfg) (ac_state_file cfg) (sv_id srv) content,
              ag_url = server_url (ac_gateway cfg) (sv_id srv),
              ag_interval = (if ac_interval cfg \<le> 0 then 15000000000 else ac_interval cfg),
              ag_registered = False\<rparr>)
           in if ac_mods_dir cfg = [] then start (ac_server cfg)
              else case scan_mods js (dir (ac_mods_dir cfg)) of
                     Inl e \<Rightarrow> Inl (AG_scan e)
                   | Inr mods \<Rightarrow> start ((ac_server cfg)\<lparr>sv_mods := merge_unique (sv_mods (ac_server cfg)) mods\<rparr>))"

text \<open>The server that a heartbeat sends.\<close>

definition agent_request :: "agent \<Rightarrow> server" where
  "agent_request a = (ag_server a)\<lparr>sv_side_ports := prefer_ports (ag_hooks a) (ag_declared a)\<rparr>"

text \<open>\<^verbatim>\<open>call\<close>: the outcome of the HTTP exchange is an error or the status code and the body.\<close>

datatype call_error = CE_transport string | CE_status nat string

definition call_result :: "string + nat \<times> string \<Rightarrow> call_error + string" where
  "call_result r =
     (case r of
        Inl e \<Rightarrow> Inl (CE_transport e)
      | Inr (status, body) \<Rightarrow>
          if status \<ge> 300 then Inl (CE_status status (trim_space (take 1024 body))) else Inr (take 4194304 body))"

text \<open>The rest of one round: \<open>decode\<close> reads the saved entry from the body. The second component are the
  callbacks run.\<close>

definition agent_beat ::
  "hook \<Rightarrow> bool \<Rightarrow> (string \<Rightarrow> server option) \<Rightarrow> string + nat \<times> string \<Rightarrow> agent \<Rightarrow> agent \<times> hook_call list" where
  "agent_beat hook disk decode r a =
     (case call_result r of
        Inl e \<Rightarrow> (a\<lparr>ag_registered := False\<rparr>, [])
      | Inr body \<Rightarrow>
          (let a = a\<lparr>ag_registered := True\<rparr> in
           case decode body of
             None \<Rightarrow> (a, [])
           | Some srv \<Rightarrow>
               if ag_declared a \<noteq> [] \<or> hk_applied (ag_hooks a) \<noteq> []
               then (case hooks_apply hook disk (ag_declared a) (sv_side_ports srv) (ag_hooks a) of
                       (h, runs) \<Rightarrow> (a\<lparr>ag_hooks := h\<rparr>, runs))
               else (a, [])))"

text \<open>When the agent ends it sends one more request.\<close>

definition agent_stop :: "agent \<Rightarrow> api_request" where
  "agent_stop a = Q_unregister (sv_id (ag_server a))"

lemma agent_leaves:
  assumes "api_step hmac pa dns os opts now auth (agent_stop a) st = Some (A_no_content, st')" and "reg_inv (as_reg st)"
  shows "reg_get t (as_reg st') (to_lower (sv_id (ag_server a))) = None"
proof -
  have "api_unregister opts now auth (sv_id (ag_server a)) st = (A_no_content, st')" using assms(1) by (simp add: agent_stop_def)
  then show ?thesis
    by (cases rule: api_unregister_cases) (auto simp: remove_def reg_get_def delete_conv split: option.splits if_splits)
qed

section \<open>Mod ids, read and merged\<close>

lemma merge_unique_props:
  "sorted (merge_unique a b)" "distinct (merge_unique a b)" "set (merge_unique a b) = to_lower ` (set a \<union> set b)"
  by (simp_all add: merge_unique_def image_Un)

lemma set_scan_entries:
  "set (scan_entries js es) = {v. \<exists>name jar found. (name, False, jar) \<in> set es \<and> has_suffix (to_lower name) ''.jar''
     \<and> mod_ids_from_jar js jar = Inr found \<and> v \<in> set found}"
proof (induction js es rule: scan_entries.induct)
  case (2 js name is_dir jar es)
  then show ?case
    by (cases "is_dir \<or> \<not> has_suffix (to_lower name) ''.jar''"; cases "mod_ids_from_jar js jar") auto
qed simp

text \<open>A \<^verbatim>\<open>mods.toml\<close> as its tables, with the lines of each.\<close>

datatype toml_line = T_mod string | T_other string

fun toml_text :: "toml_line \<Rightarrow> string" where
  "toml_text (T_mod v) = ''modId = '' @ [CHR 0x22] @ v @ [CHR 0x22]"
| "toml_text (T_other s) = s"

fun toml_line_ok :: "toml_line \<Rightarrow> bool" where
  "toml_line_ok (T_mod v) \<longleftrightarrow> v \<noteq> [] \<and> line_end \<notin> set v \<and> list_all (\<lambda>c. \<not> quote_char c) v \<and> length v < 65500"
| "toml_line_ok (T_other s) \<longleftrightarrow> line_end \<notin> set s \<and> length s < 65536
     \<and> \<not> has_prefix (trim_space s) ''['' \<and> toml_mod_id (trim_space s) = None"

fun toml_value :: "toml_line \<Rightarrow> string option" where
  "toml_value (T_mod v) = Some v"
| "toml_value (T_other s) = None"

type_synonym toml_table = "string \<times> toml_line list"

definition table_lines :: "toml_table \<Rightarrow> string list" where
  "table_lines t = (''[['' @ fst t @ '']]'') # map toml_text (snd t)"

definition table_ok :: "toml_table \<Rightarrow> bool" where
  "table_ok t \<longleftrightarrow> line_end \<notin> set (fst t) \<and> CHR ''#'' \<notin> set (fst t) \<and> length (fst t) < 65500 \<and> list_all toml_line_ok (snd t)"

definition toml_file :: "toml_table list \<Rightarrow> string" where
  "toml_file ts = concat (map (\<lambda>l. l @ [line_end]) (concat (map table_lines ts)))"

lemma is_space_cr: "is_space CHR 0x0D"
  by (simp add: is_space_def)

lemma trim_drop_cr: "trim_space (drop_cr s) = trim_space s"
proof (cases "s \<noteq> [] \<and> List.last s = CHR 0x0D")
  case True
  then obtain t where s: "s = t @ [CHR 0x0D]" by (metis append_butlast_last_id)
  show ?thesis
  proof (cases "\<forall>c \<in> set t. is_space c")
    case True
    then have "dropWhile is_space t = []" "dropWhile is_space (t @ [CHR 0x0D]) = []"
      using is_space_cr by (simp_all only: dropWhile_eq_Nil_conv) auto
    then have "trim_space t = []" "trim_space (t @ [CHR 0x0D]) = []" by (simp_all only: trim_space_def rev.simps dropWhile.simps)
    then show ?thesis by (simp add: s drop_cr_def)
  next
    case False
    then show ?thesis by (auto simp: s drop_cr_def trim_space_def dropWhile_append is_space_cr)
  qed
qed (auto simp: drop_cr_def)

lemma toml_ids_drop_cr: "toml_ids b (map drop_cr ls) = toml_ids b ls"
  by (induction b ls rule: toml_ids.induct) (auto simp: trim_drop_cr Let_def split: option.splits)

lemma scan_lines_written:
  assumes "\<forall>l \<in> set ls. line_end \<notin> set l \<and> length l < 65536"
  shows "scan_lines (concat (map (\<lambda>l. l @ [line_end]) ls)) = map drop_cr ls"
proof -
  have "takeWhile (\<lambda>l. length l < 65536) ls = ls" using assms by (simp only: takeWhile_eq_all_conv) blast
  moreover have "split line_end (concat (map (\<lambda>l. l @ [line_end]) ls)) = ls @ [[]]" using assms by (intro split_lines) blast
  ultimately show ?thesis by (simp only: scan_lines_def Let_def) (simp only: last_snoc butlast_snoc simp_thms if_True)
qed

text \<open>A line that neither begins nor ends with a space is not trimmed.\<close>

lemma trim_ends: "\<not> is_space c \<Longrightarrow> \<not> is_space d \<Longrightarrow> trim_space (c # s @ [d]) = c # s @ [d]"
  by (simp add: trim_space_def)

lemma takeWhile_not_quote: "list_all (\<lambda>c. \<not> quote_char c) v \<Longrightarrow> quote_char q \<Longrightarrow> takeWhile (\<lambda>c. \<not> quote_char c) (v @ [q]) = v"
  by (induction v) auto

lemma mod_line:
  assumes "toml_line_ok (T_mod v)"
  shows "trim_space (toml_text (T_mod v)) = toml_text (T_mod v)"
    "\<not> has_prefix (toml_text (T_mod v)) ''[''" "toml_mod_id (toml_text (T_mod v)) = Some v"
proof -
  have q: "quote_char CHR 0x22" by (simp add: quote_char_def)
  show "trim_space (toml_text (T_mod v)) = toml_text (T_mod v)"
    using trim_ends [of "CHR ''m''" "CHR 0x22" "''odId = '' @ [CHR 0x22] @ v"] by (simp add: is_space_def)
  show "\<not> has_prefix (toml_text (T_mod v)) ''[''" by (simp add: has_prefix_def)
  have "toml_text (T_mod v) = ''modId'' @ '' = '' @ [CHR 0x22] @ v @ [CHR 0x22]" by simp
  then have "dropWhile re_space (toml_text (T_mod v)) = ''modId'' @ '' = '' @ [CHR 0x22] @ v @ [CHR 0x22]"
    by (simp add: re_space_def)
  then show "toml_mod_id (toml_text (T_mod v)) = Some v"
    using assms q takeWhile_not_quote [of v "CHR 0x22"]
    by (simp only: toml_mod_id_def cut_prefix_append prod.case bool.case) (simp add: re_space_def Let_def)
qed

lemma header_line:
  assumes "CHR ''#'' \<notin> set h"
  shows "toml_ids b ((''[['' @ h @ '']]'') # ls) = toml_ids (h = ''mods'') ls"
proof -
  have t: "trim_space (''[['' @ h @ '']]'') = ''[['' @ h @ '']]''"
    using trim_ends [of "CHR ''[''" "CHR '']''" "''['' @ h @ '']''"] by (simp add: is_space_def)
  have "CHR ''#'' \<notin> set (''[['' @ h @ '']]'')" using assms by simp
  then have "fst (cut CHR ''#'' (''[['' @ h @ '']]'')) = ''[['' @ h @ '']]''" by (metis cut_notin fst_conv)
  moreover have "''[['' @ h @ '']]'' = ''[[mods]]'' \<longleftrightarrow> h = ''mods''"
    using append_same_eq [of h "'']]''" "''mods''"] by simp
  ultimately show ?thesis using t by (simp add: has_prefix_def)
qed

lemma body_lines:
  "list_all toml_line_ok ls \<Longrightarrow> toml_ids b (map toml_text ls @ rest)
     = (if b then List.map_filter toml_value ls else []) @ toml_ids b rest"
proof (induction ls)
  case Nil
  then show ?case by (simp add: List.map_filter_def)
next
  case (Cons l ls)
  then show ?case
    using mod_line by (cases l) (auto simp: List.map_filter_def simp del: toml_text.simps(1))
qed

lemma table_read:
  assumes "table_ok (h, ls)"
  shows "toml_ids b (table_lines (h, ls) @ rest)
    = (if h = ''mods'' then List.map_filter toml_value ls else []) @ toml_ids (h = ''mods'') rest"
proof -
  have "table_lines (h, ls) @ rest = (''[['' @ h @ '']]'') # (map toml_text ls @ rest)"
    unfolding table_lines_def fst_conv snd_conv by (rule append_Cons)
  moreover have "CHR ''#'' \<notin> set h" "list_all toml_line_ok ls" using assms by (simp_all add: table_ok_def)
  ultimately show ?thesis by (metis header_line body_lines)
qed

lemma toml_ids_tables:
  "list_all table_ok ts \<Longrightarrow> toml_ids b (concat (map table_lines ts))
     = concat (map (\<lambda>(h, ls). if h = ''mods'' then List.map_filter toml_value ls else []) ts)"
  by (induction ts arbitrary: b) (auto simp: table_read)

lemma table_lines_fit:
  "table_ok t \<Longrightarrow> l \<in> set (table_lines t) \<Longrightarrow> line_end \<notin> set l \<and> length l < 65536"
proof -
  have n: "line_end \<notin> set ''[''" "line_end \<notin> set '']''" "line_end \<notin> set ''modId = ''" "line_end \<noteq> CHR 0x22" by (simp_all add: line_end_def)
  have "toml_line_ok x \<Longrightarrow> line_end \<notin> set (toml_text x) \<and> length (toml_text x) < 65536" for x
    using n by (cases x) (auto simp: line_end_def)
  then show "table_ok t \<Longrightarrow> l \<in> set (table_lines t) \<Longrightarrow> ?thesis"
    by (auto simp: table_lines_def table_ok_def list_all_iff line_end_def)
qed

text \<open>C36: the mod ids of a \<^verbatim>\<open>mods.toml\<close> are read back: of the tables it holds, those of the \<^verbatim>\<open>[[mods]]\<close> tables
  in their order, whatever other lines, dependency tables and their \<^verbatim>\<open>modId\<close> entries stand around them.\<close>

theorem toml_roundtrip:
  assumes "list_all table_ok ts" and "length (toml_file ts) \<le> 1048576"
  shows "mod_ids_from_jar js (Inr [(''META-INF/mods.toml'', Inr (toml_file ts))])
    = Inr (concat (map (\<lambda>(h, ls). if h = ''mods'' then List.map_filter toml_value ls else []) ts))"
proof -
  have "\<forall>l \<in> set (concat (map table_lines ts)). line_end \<notin> set l \<and> length l < 65536"
    using assms(1) table_lines_fit by (auto simp: list_all_iff)
  then have "toml_ids False (scan_lines (toml_file ts))
      = concat (map (\<lambda>(h, ls). if h = ''mods'' then List.map_filter toml_value ls else []) ts)"
    unfolding toml_file_def by (simp only: scan_lines_written toml_ids_drop_cr toml_ids_tables [OF assms(1)])
  moreover have "''META-INF/mods.toml'' \<in> set mod_files" by (simp add: mod_files_def)
  ultimately show ?thesis
    using assms(2) by (simp add: mod_ids_from_jar_def entry_ids_def)
qed

text \<open>A scan of the mods directory skips what is no jar or cannot be read and reports the lower-case ids
  of all the others, sorted and without duplicates.\<close>

theorem scanned_mods:
  assumes "scan_mods js (Inr es) = Inr ids"
  shows "sorted ids \<and> distinct ids \<and> set ids = to_lower ` {v. \<exists>name jar found. (name, False, jar) \<in> set es
     \<and> has_suffix (to_lower name) ''.jar'' \<and> mod_ids_from_jar js jar = Inr found \<and> v \<in> set found}"
proof -
  have "ids = merge_unique [] (scan_entries js es)" using assms by (simp add: scan_mods_def)
  then show ?thesis by (simp add: merge_unique_props set_scan_entries)
qed

section \<open>The agent and this gateway\<close>

text \<open>What validation leaves of a side port.\<close>

definition checked_port :: "side_port \<Rightarrow> side_port" where
  "checked_port p = p\<lparr>sp_name := to_lower (trim_space (sp_name p)), sp_protocol := to_lower (trim_space (sp_protocol p)),
     sp_public := None, sp_error := []\<rparr>"

lemma validate_loop_checked: "validate_side_ports_loop seen ps = Inr qs \<Longrightarrow> qs = map checked_port ps"
  by (induction seen ps arbitrary: qs rule: validate_side_ports_loop.induct)
    (auto simp: Let_def sum_bind_eq_Inr checked_port_def split: if_splits)

lemma upsert_ports:
  assumes "upsert name s ttl now r = Inr (srv, reg)"
  shows "sv_side_ports srv = map checked_port (sv_side_ports s)" "sv_id srv = to_lower (trim_space (sv_id s))"
    "sv_owner srv = name"
  using assms validate_loop_checked [of "[]"]
  by (auto simp: upsert_eq_Inr validate_eq_Inr normalised_def Let_def validate_side_ports_def split: if_splits)

text \<open>A public port that \<open>assign\<close> gives to whoever prefers it.\<close>

definition available :: "(string \<Rightarrow> int \<Rightarrow> bool) \<Rightarrow> time \<Rightarrow> manager \<Rightarrow> side_key \<Rightarrow> int \<Rightarrow> bool" where
  "available os now m k port \<longleftrightarrow> map_of (mg_by_key m) k = None \<and> mg_min_port m \<le> port \<and> port \<le> mg_max_port m
     \<and> map_of (mg_by_port m) (sk_protocol k, port) = None
     \<and> (case map_of (mg_broken m) (sk_protocol k, port) of None \<Rightarrow> True | Some t \<Rightarrow> t \<le> now)
     \<and> known_protocol (sk_protocol k) \<and> os (sk_protocol k) port"

lemma assign_available:
  assumes "available os now m k port"
  shows "assign os now k owner port m = Some (Some (length (mg_heap m)),
    m\<lparr>mg_heap := mg_heap m @ [\<lparr>bd_key = k, bd_owner = owner, bd_public = port, bd_backend = 0, bd_held = None, bd_closer = True\<rparr>],
      mg_by_key := AList.update k (length (mg_heap m)) (mg_by_key m),
      mg_by_port := AList.update (sk_protocol k, port) (length (mg_heap m)) (mg_by_port m)\<rparr>)"
  using assms
  by (auto simp: available_def assign_def reuse_def try_port_def open_ok_def Let_def split: option.splits)

text \<open>Side ports whose preferred public ports are all available get exactly those.\<close>

lemma sync_available:
  assumes "mg_enabled m" and "\<forall>p \<in> set ps. available os now m (side_key_of srv p) (sp_preferred p)"
    and "distinct (map (side_key_of srv) ps)" and "distinct (map (\<lambda>p. (sp_protocol p, sp_preferred p)) ps)"
  shows "\<exists>m'. sync_ports os now srv ps m = Some
    (map (\<lambda>p. p\<lparr>sp_public := Some \<lparr>pa_host = mg_public_host m, pa_port = sp_preferred p\<rparr>\<rparr>) ps, m')"
  using assms
proof (induction ps arbitrary: m)
  case (Cons p ps)
  let ?k = "side_key_of srv p" and ?i = "length (mg_heap m)"
  have a: "available os now m ?k (sp_preferred p)" using Cons.prems(2) by simp
  obtain m1 where m1: "assign os now ?k (sv_owner srv) (sp_preferred p) m = Some (Some ?i, m1)"
    "mg_by_key m1 = AList.update ?k ?i (mg_by_key m)"
    "mg_by_port m1 = AList.update (sp_protocol p, sp_preferred p) ?i (mg_by_port m)"
    "mg_min_port m1 = mg_min_port m" "mg_max_port m1 = mg_max_port m" "mg_broken m1 = mg_broken m"
    "mg_public_host m1 = mg_public_host m" "bd_public (mg_heap m1 ! ?i) = sp_preferred p"
    using assign_available [OF a, of "sv_owner srv"] by (auto simp: side_key_of_def)
  define m2 where "m2 = set_binding ?i ((mg_heap m1 ! ?i)\<lparr>bd_backend := sp_port p\<rparr>) m1"
  have sel: "mg_by_key m2 = mg_by_key m1" "mg_by_port m2 = mg_by_port m1" "mg_min_port m2 = mg_min_port m"
    "mg_max_port m2 = mg_max_port m" "mg_broken m2 = mg_broken m" "mg_public_host m2 = mg_public_host m"
    using m1(4-7) by (simp_all add: m2_def)
  have "available os now m2 (side_key_of srv q) (sp_preferred q)" if q: "q \<in> set ps" for q
  proof -
    have "?k \<notin> side_key_of srv ` set ps" using Cons.prems(3) by simp
    then have "side_key_of srv q \<noteq> ?k" using q by (metis imageI)
    moreover have "(sp_protocol q, sp_preferred q) \<noteq> (sp_protocol p, sp_preferred p)"
      using Cons.prems(4) q by (auto simp: image_iff)
    moreover have "available os now m (side_key_of srv q) (sp_preferred q)" using Cons.prems(2) q by simp
    moreover have "sk_protocol (side_key_of srv q) = sp_protocol q" by (simp add: side_key_of_def)
    ultimately show ?thesis by (simp add: available_def sel m1(2,3))
  qed
  moreover have "mg_enabled m2" using Cons.prems(1) sel by (simp add: mg_enabled_def)
  ultimately obtain m' where "sync_ports os now srv ps m2 = Some
      (map (\<lambda>p. p\<lparr>sp_public := Some \<lparr>pa_host = mg_public_host m2, pa_port = sp_preferred p\<rparr>\<rparr>) ps, m')"
    using Cons.IH [of m2] Cons.prems(3,4) by auto
  then show ?case using Cons.prems(1) m1 sel by (simp add: m2_def [symmetric] Let_def)
qed simp

text \<open>The reply to a registration, in terms of the registry and the manager.\<close>

lemma registered_ports:
  assumes "api_step hmac pa dns os opts now auth (Q_register i (Inr s)) st = Some (A_saved srv checks, st')"
    and "as_manager st = Some m"
  obtains v out m' where "sv_side_ports v = map checked_port (sv_side_ports s)" "sv_id v = to_lower (trim_space i)"
    "valid_server v" "mg_sync os now v m = Some (out, m')" "srv = v\<lparr>sv_side_ports := out\<rparr>" "as_manager st' = Some m'"
proof -
  have "api_register pa dns os opts now auth i (Inr s) st = Some (A_saved srv checks, st')" using assms(1) by simp
  then obtain name v reg out m' where r: "upsert name (s\<lparr>sv_id := i\<rparr>) (ao_ttl opts) now (as_reg st) = Inr (v, reg)"
    "mg_sync os now v m = Some (out, m')" "srv = v\<lparr>sv_side_ports := out\<rparr>" "as_manager st' = Some m'"
    using assms(2) by (cases rule: api_register_cases) auto
  then show thesis using that upsert_ports [OF r(1)] upsert_valid [OF r(1)] by simp
qed

lemma answered_distinct:
  assumes "distinct (map sp_name ans)" and "q \<in> set ans"
  shows "answered ans (sp_name q) = Some q"
proof -
  have "distinct (map fst (map (\<lambda>p. (sp_name p, p)) (rev ans)))" using assms(1) by (simp add: comp_def rev_map [symmetric])
  then show ?thesis unfolding answered_def by (rule map_of_is_SomeI) (use assms(2) in auto)
qed

lemma hooks_apply_unchanged:
  assumes "\<forall>d \<in> set ds. map_of (hk_applied h) (to_lower (sp_name d)) = Some (wanted ans d)"
    and "\<forall>n \<in> fst ` set (hk_applied h). contains_name ds n"
  shows "hooks_apply hook disk ds ans h = (h, [])"
proof -
  have "apply_declared hook ans ds h [] False = (h, [], False)"
    using assms(1) by (induction ds) (simp_all add: Let_def)
  moreover have "\<forall>n \<in> fst ` set es. contains_name ds n \<Longrightarrow> apply_released hook ds es h [] False = (h, [], False)" for es
    by (induction es) auto
  ultimately show ?thesis using assms(2) by (simp add: hooks_apply_def)
qed

definition applied_port :: "agent \<Rightarrow> side_port \<Rightarrow> int" where
  "applied_port a d = (case map_of (hk_applied (ag_hooks a)) (to_lower (sp_name d)) of None \<Rightarrow> 0 | Some st \<Rightarrow> ss_port st)"

text \<open>An agent all of whose side ports have a public port, and which asks for no others.\<close>

definition settled :: "string \<Rightarrow> agent \<Rightarrow> bool" where
  "settled host a \<longleftrightarrow>
     (\<forall>d \<in> set (ag_declared a). trim_space (sp_name d) = sp_name d \<and> sp_preferred d \<in> {0, applied_port a d}
        \<and> map_of (hk_applied (ag_hooks a)) (to_lower (sp_name d)) =
            Some \<lparr>ss_state = ''assigned'', ss_protocol = to_lower (trim_space (sp_protocol d)), ss_backend = sp_port d,
                  ss_host = host, ss_port = applied_port a d, ss_error = []\<rparr>)
     \<and> (\<forall>n \<in> fst ` set (hk_applied (ag_hooks a)). contains_name (ag_declared a) n)"

text \<open>The key of a declared side port at the gateway.\<close>

definition declared_key :: "string \<Rightarrow> side_port \<Rightarrow> side_key" where
  "declared_key i d = \<lparr>sk_server = to_lower (trim_space i), sk_name = to_lower (sp_name d),
     sk_protocol = to_lower (trim_space (sp_protocol d))\<rparr>"

lemma prefer_settled:
  assumes "settled host a"
  shows "sv_side_ports (agent_request a) = map (\<lambda>d. d\<lparr>sp_preferred := applied_port a d\<rparr>) (ag_declared a)"
  using assms by (auto simp: agent_request_def prefer_ports_def settled_def)

lemma answered_body:
  assumes "decode body = Some saved_srv" and "length body \<le> 4194304"
  shows "agent_beat hook disk decode (Inr (200, body)) a =
    (case hooks_apply hook disk (ag_declared a) (sv_side_ports saved_srv) (ag_hooks a) of
       (h, runs) \<Rightarrow> (a\<lparr>ag_registered := True, ag_hooks := h\<rparr>, runs))"
proof (cases "ag_declared a \<noteq> [] \<or> hk_applied (ag_hooks a) \<noteq> []")
  case False
  then have "hooks_apply hook disk (ag_declared a) (sv_side_ports saved_srv) (ag_hooks a) = (ag_hooks a, [])"
    by (simp add: hooks_apply_def)
  then show ?thesis using assms False by (simp add: agent_beat_def call_result_def)
qed (use assms in \<open>simp add: agent_beat_def call_result_def Let_def split: prod.split\<close>)


text \<open>What an agent should know of a side port with a backend port: the public address of its active binding
  at the gateway, or that no port was free.\<close>

definition known_of :: "manager \<Rightarrow> side_key \<Rightarrow> int \<Rightarrow> side_state \<Rightarrow> bool" where
  "known_of m k port known \<longleftrightarrow>
     ss_state known = ''error'' \<and> ss_error known = ErrNoPort
     \<or> ss_state known = ''assigned'' \<and> ss_host known = mg_public_host m
       \<and> (\<exists>b. map_of (mg_by_key m) k = Some b \<and> bd_held (mg_heap m ! b) = None
            \<and> ss_port known = bd_public (mg_heap m ! b) \<and> bd_backend (mg_heap m ! b) = port)"

lemma synced_known:
  assumes "synced v m p q" and "sp_public p = None" and "answered out (to_lower (sp_name e)) = Some q"
  shows "known_of m (side_key_of v p) (sp_port p) (wanted out e)"
  using assms by (auto simp: known_of_def wanted_def synced_def Let_def split: option.splits)


section \<open>Examples\<close>

definition demo_js :: mod_json where
  "demo_js = \<lparr>mj_fabric = (\<lambda>_. None), mj_quilt = (\<lambda>_. None), mj_list = (\<lambda>_. None), mj_wrapped = (\<lambda>_. [])\<rparr>"

definition demo_tables :: "toml_table list" where
  "demo_tables = [(''mods'', [T_other ''displayName = x'', T_mod ''Create'']), (''dependencies.create'', [T_mod ''forge''])]"

definition demo_dir :: "dir_entry list" where
  "demo_dir = [(''create.JAR'', False, Inr [(''META-INF/mods.toml'', Inr (toml_file demo_tables))]),
     (''broken.jar'', False, Inl ''zip: not a valid zip file''), (''readme.txt'', False, Inl ''zip: not a valid zip file'')]"

theorem toml_roundtrip_witness:
  "mod_ids_from_jar demo_js (Inr [(''META-INF/mods.toml'', Inr (toml_file demo_tables))]) = Inr [''Create'']"
proof -
  have "list_all table_ok demo_tables" "length (toml_file demo_tables) \<le> 1048576"
    "concat (map (\<lambda>(h, ls). if h = ''mods'' then List.map_filter toml_value ls else []) demo_tables) = [''Create'']"
    by code_simp+
  then show ?thesis using toml_roundtrip by metis
qed

theorem scanned_mods_witness:
  "scan_mods demo_js (Inr demo_dir) = Inr [''create''] \<and> set [''create''] = to_lower ` {v. \<exists>name jar found.
     (name, False, jar) \<in> set demo_dir \<and> has_suffix (to_lower name) ''.jar'' \<and> mod_ids_from_jar demo_js jar = Inr found \<and> v \<in> set found}"
proof -
  have s: "scan_mods demo_js (Inr demo_dir) = Inr [''create'']" by code_simp
  show ?thesis using s scanned_mods [OF s] by blast
qed

text \<open>An agent that had the second port of the pool, before and after the gateway restarts.\<close>

definition demo_known :: side_state where
  "demo_known = \<lparr>ss_state = ''assigned'', ss_protocol = ''udp'', ss_backend = 24454, ss_host = ''play.example'',
     ss_port = 30001, ss_error = []\<rparr>"

definition demo_agent :: "(string \<times> side_state) list \<Rightarrow> agent" where
  "demo_agent applied = \<lparr>ag_server = demo_body, ag_declared = sv_side_ports demo_body,
     ag_hooks = new_hooks [''notify''] ''state.json'' ''survival'' (Some applied), ag_url = server_url ''http://gw'' ''survival'',
     ag_interval = 15000000000, ag_registered = False\<rparr>"

definition demo_put :: "agent \<Rightarrow> (api_reply \<times> api_state) option" where
  "demo_put a = api_step toy_hmac demo_lookup demo_dns (\<lambda>_ _. True) demo_opts 5000000000 ''Bearer s3cret''
     (Q_register ''survival'' (Inr (agent_request a))) demo_state"

definition put_entry :: "(api_reply \<times> api_state) option \<Rightarrow> server" where
  "put_entry r = (case r of Some (A_saved srv _, _) \<Rightarrow> srv | _ \<Rightarrow> zero_server)"

definition after_put :: "(api_reply \<times> api_state) option \<Rightarrow> api_state" where
  "after_put r = (case r of Some (_, st) \<Rightarrow> st | None \<Rightarrow> demo_state)"

definition demo_return :: agent where
  "demo_return = demo_agent [(''voice'', demo_known)]"

definition demo_fresh :: agent where
  "demo_fresh = demo_agent []"

definition put_checks :: "(api_reply \<times> api_state) option \<Rightarrow> server list" where
  "put_checks r = (case r of Some (A_saved _ checks, _) \<Rightarrow> checks | _ \<Rightarrow> [])"

lemma demo_puts:
  "a = demo_return \<or> a = demo_fresh \<Longrightarrow>
   api_step toy_hmac demo_lookup demo_dns (\<lambda>_ _. True) demo_opts 5000000000 ''Bearer s3cret''
     (Q_register ''survival'' (Inr (agent_request a))) demo_state
   = Some (A_saved (put_entry (demo_put a)) (put_checks (demo_put a)), after_put (demo_put a))"
proof -
  have "(case demo_put a of Some (A_saved _ _, _) \<Rightarrow> True | _ \<Rightarrow> False) \<Longrightarrow> ?thesis"
    by (auto simp: demo_put_def put_entry_def put_checks_def after_put_def split: option.splits prod.splits api_reply.splits)
  moreover have "case demo_put demo_return of Some (A_saved _ _, _) \<Rightarrow> True | _ \<Rightarrow> False"
    "case demo_put demo_fresh of Some (A_saved _ _, _) \<Rightarrow> True | _ \<Rightarrow> False" by code_simp+
  ultimately show "a = demo_return \<or> a = demo_fresh \<Longrightarrow> ?thesis" by blast
qed



text \<open>The gateway trims the name of a side port, the agent does not: with a space before it the gateway has
  assigned a public port and the agent reports that the gateway does not support side ports.\<close>

definition demo_padded :: agent where
  "demo_padded = demo_fresh\<lparr>ag_declared := map (\<lambda>d. d\<lparr>sp_name := '' '' @ sp_name d\<rparr>) (ag_declared demo_fresh)\<rparr>"

lemma padded_name_missed:
  "map sp_public (sv_side_ports (put_entry (demo_put demo_padded))) = [Some \<lparr>pa_host = ''play.example'', pa_port = 30000\<rparr>]"
  "map (\<lambda>(n, st). (n, ss_error st)) (hk_applied (ag_hooks (fst (agent_beat (\<lambda>_ _ _. True) True
     (\<lambda>_. Some (put_entry (demo_put demo_padded))) (Inr (200, ''{}'')) demo_padded))))
   = [('' voice'', ''gateway does not support side ports'')]"
  by code_simp+

end
