(* ===== verification/Json.thy ===== *)
theory Json
  imports Config
begin

text \<open>
  A reader of JSON texts, the reference for what the gateway writes with \<^verbatim>\<open>encoding/json\<close> (\<open>json_marshal\<close> of theory
  Chat_Text): a client that gets a chat component, and the gateway itself when it opens its state file.
  Strings are read by \<open>json_read\<close> of theory Config; numbers are integers, which is all the gateway writes. The first
  argument is fuel for the nesting.

  The lemmas show that every value with valid UTF-8 is read back from its text, whatever follows, and for chat
  components (\<^verbatim>\<open>Text.JSON\<close> of \<^verbatim>\<open>internal/proto/text.go\<close>) what a client and \<^verbatim>\<open>DescriptionText\<close> of
  \<^verbatim>\<open>internal/proto/status.go\<close> make of them.
\<close>

section \<open>A reader\<close>

definition json_space :: "char \<Rightarrow> bool" where
  "json_space c \<longleftrightarrow> (of_char c :: nat) \<in> {9, 10, 13, 32}"

definition json_digit :: "char \<Rightarrow> bool" where
  "json_digit c \<longleftrightarrow> (let n = of_char c :: nat in 48 \<le> n \<and> n \<le> 57)"

definition next_token :: "string \<Rightarrow> string" where
  "next_token s = dropWhile json_space s"

definition read_number :: "string \<Rightarrow> (json \<times> string) option" where
  "read_number s =
     (let neg = has_prefix s ''-''; t = (if neg then tl s else s);
          ds = takeWhile json_digit t; r = dropWhile json_digit t
      in case (if ds = [] then None else parse_digits 0 ds) of
           None \<Rightarrow> None
         | Some n \<Rightarrow> Some (J_int (if neg then - int n else int n), r))"

fun parse_value :: "nat \<Rightarrow> string \<Rightarrow> (json \<times> string) option"
  and parse_items :: "nat \<Rightarrow> string \<Rightarrow> (json list \<times> string) option"
  and parse_fields :: "nat \<Rightarrow> string \<Rightarrow> ((string \<times> json) list \<times> string) option" where
  "parse_value 0 s = None"
| "parse_value (Suc f) s =
     (case next_token s of
        [] \<Rightarrow> None
      | c # t \<Rightarrow>
          if c = CHR 0x22 then map_option (\<lambda>(v, r). (J_str v, r)) (json_read t)
          else if c = CHR ''['' then
            (if has_prefix (next_token t) '']'' then Some (J_arr [], tl (next_token t))
             else map_option (\<lambda>(vs, r). (J_arr vs, r)) (parse_items f t))
          else if c = CHR ''{'' then
            (if has_prefix (next_token t) ''}'' then Some (J_obj [], tl (next_token t))
             else map_option (\<lambda>(fs, r). (J_obj fs, r)) (parse_fields f t))
          else if has_prefix (c # t) ''null'' then Some (J_null, drop 4 (c # t))
          else if has_prefix (c # t) ''true'' then Some (J_bool True, drop 4 (c # t))
          else if has_prefix (c # t) ''false'' then Some (J_bool False, drop 5 (c # t))
          else read_number (c # t))"
| "parse_items 0 s = None"
| "parse_items (Suc f) s =
     (case parse_value f s of
        None \<Rightarrow> None
      | Some (v, r) \<Rightarrow>
          (case next_token r of
             [] \<Rightarrow> None
           | c # r \<Rightarrow>
               if c = CHR '','' then map_option (\<lambda>(vs, r). (v # vs, r)) (parse_items f r)
               else if c = CHR '']'' then Some ([v], r) else None))"
| "parse_fields 0 s = None"
| "parse_fields (Suc f) s =
     (case next_token s of
        [] \<Rightarrow> None
      | q # t \<Rightarrow>
          if q \<noteq> CHR 0x22 then None
          else case json_read t of
            None \<Rightarrow> None
          | Some (k, r) \<Rightarrow>
              (case next_token r of
                 [] \<Rightarrow> None
               | c # r \<Rightarrow>
                   if c \<noteq> CHR '':'' then None
                   else case parse_value f r of
                     None \<Rightarrow> None
                   | Some (v, r) \<Rightarrow>
                       (case next_token r of
                          [] \<Rightarrow> None
                        | c # r \<Rightarrow>
                            if c = CHR '','' then map_option (\<lambda>(fs, r). ((k, v) # fs, r)) (parse_fields f r)
                            else if c = CHR ''}'' then Some ([(k, v)], r) else None)))"

text \<open>A whole text is one value.\<close>

definition json_text :: "nat \<Rightarrow> string \<Rightarrow> json option" where
  "json_text f s = (case parse_value f s of Some (v, r) \<Rightarrow> if next_token r = [] then Some v else None | None \<Rightarrow> None)"

fun json_ok :: "json \<Rightarrow> bool" where
  "json_ok (J_str s) = utf8_valid (bytes s)"
| "json_ok (J_arr vs) = list_all json_ok vs"
| "json_ok (J_obj fs) = list_all (\<lambda>(k, v). utf8_valid (bytes k) \<and> json_ok v) fs"
| "json_ok _ = True"

fun json_fuel :: "json \<Rightarrow> nat" where
  "json_fuel (J_arr vs) = Suc (Suc (sum_list (map (\<lambda>v. Suc (json_fuel v)) vs)))"
| "json_fuel (J_obj fs) = Suc (Suc (sum_list (map (\<lambda>(k, v). Suc (json_fuel v)) fs)))"
| "json_fuel _ = 1"

section \<open>Reading back\<close>

lemma next_token_cons [simp]: "\<not> json_space c \<Longrightarrow> next_token (c # s) = c # s"
  by (simp add: next_token_def)

lemma json_string_read: "utf8_valid (bytes s) \<Longrightarrow> json_string s @ r = CHR 0x22 # json_body s @ CHR 0x22 # r"
  by (simp add: json_string_def json_body_escape)

text \<open>What may follow a number.\<close>

definition no_digit :: "string \<Rightarrow> bool" where
  "no_digit r \<longleftrightarrow> r = [] \<or> \<not> json_digit (hd r)"

lemma nat_digits_span:
  "no_digit r \<Longrightarrow> takeWhile json_digit (nat_digits n @ r) = nat_digits n \<and> dropWhile json_digit (nat_digits n @ r) = r"
proof -
  assume r: "no_digit r"
  have d: "json_digit c" if "c \<in> set (nat_digits n)" for c using nat_digits_no_sign [OF that] by (simp add: json_digit_def)
  have "takeWhile json_digit r = [] \<and> dropWhile json_digit r = r" using r by (cases r) (auto simp: no_digit_def)
  then show ?thesis using d by (simp add: takeWhile_append2 dropWhile_append2)
qed

lemma read_number_itoa: "no_digit r \<Longrightarrow> read_number (itoa n @ r) = Some (J_int n, r)"
proof (cases "n < 0")
  case True
  then show "no_digit r \<Longrightarrow> ?thesis"
    using nat_digits_span [of r "nat (- n)"] nat_digits_not_Nil [of "nat (- n)"] parse_digits_nat_digits [of "nat (- n)"]
    by (simp add: read_number_def itoa_def has_prefix_def Let_def)
next
  case False
  obtain c cs where c: "nat_digits (nat n) = c # cs"
    using nat_digits_not_Nil [of "nat n"] by (cases "nat_digits (nat n)") auto
  have "c \<noteq> CHR ''-''" using nat_digits_no_sign [of c "nat n"] c by auto
  then show "no_digit r \<Longrightarrow> ?thesis"
    using False nat_digits_span [of r "nat n"] parse_digits_nat_digits [of "nat n"]
    by (simp add: read_number_def itoa_def has_prefix_def Let_def c)
qed

lemma itoa_first: "\<exists>c t. itoa n = c # t \<and> (c = CHR ''-'' \<or> json_digit c)"
proof (cases "n < 0")
  case False
  obtain c cs where c: "nat_digits (nat n) = c # cs"
    using nat_digits_not_Nil [of "nat n"] by (cases "nat_digits (nat n)") auto
  then have "json_digit c" using nat_digits_no_sign [of c "nat n"] by (simp add: json_digit_def)
  then show ?thesis using False c by (simp add: itoa_def)
qed (simp add: itoa_def)

lemma marshal_first: "\<exists>c t. json_marshal v = c # t \<and> \<not> json_space c \<and> c \<noteq> CHR '']'' \<and> c \<noteq> CHR ''}''"
proof (cases v)
  case (J_int n)
  obtain c t where "itoa n = c # t" "c = CHR ''-'' \<or> json_digit c" using itoa_first by blast
  then show ?thesis using J_int by (auto simp: json_space_def json_digit_def)
qed (auto simp: json_space_def json_string_def)

lemma parse_items_marshal:
  assumes "\<And>v f r. v \<in> set vs \<Longrightarrow> json_fuel v \<le> f \<Longrightarrow> no_digit r \<Longrightarrow> parse_value f (json_marshal v @ r) = Some (v, r)"
    and "vs \<noteq> []" and "Suc (sum_list (map (\<lambda>v. Suc (json_fuel v)) vs)) \<le> f"
  shows "parse_items f (join '','' (map json_marshal vs) @ CHR '']'' # r) = Some (vs, r)"
  using assms
proof (induction vs arbitrary: f)
  case (Cons v vs)
  obtain f' where f: "f = Suc f'" using Cons.prems(3) by (cases f) auto
  have v: "parse_value f' (json_marshal v @ c # t) = Some (v, c # t)" if "\<not> json_digit c" for c t
    using Cons.prems(1) [of v f' "c # t"] Cons.prems(3) that by (simp add: f no_digit_def)
  show ?case
  proof (cases "vs = []")
    case True
    then show ?thesis using v [of "CHR '']''" r] by (simp add: f json_digit_def json_space_def)
  next
    case False
    have IH: "parse_items f' (join '','' (map json_marshal vs) @ CHR '']'' # r) = Some (vs, r)"
      by (rule Cons.IH) (use Cons.prems False in \<open>auto simp: f\<close>)
    have "join '','' (map json_marshal (v # vs)) @ CHR '']'' # r
        = json_marshal v @ CHR '','' # (join '','' (map json_marshal vs) @ CHR '']'' # r)"
      using False by (simp add: join_Cons)
    then show ?thesis using v [of "CHR '',''"] IH by (simp add: f json_digit_def json_space_def)
  qed
qed simp

definition field_text :: "string \<times> json \<Rightarrow> string" where
  "field_text = (\<lambda>(k, v). json_string k @ '':'' @ json_marshal v)"

lemma parse_fields_marshal:
  assumes "\<And>k v f r. (k, v) \<in> set fs \<Longrightarrow> json_fuel v \<le> f \<Longrightarrow> no_digit r \<Longrightarrow> parse_value f (json_marshal v @ r) = Some (v, r)"
    and "list_all (\<lambda>(k, v). utf8_valid (bytes k)) fs"
    and "fs \<noteq> []" and "Suc (sum_list (map (\<lambda>(k, v). Suc (json_fuel v)) fs)) \<le> f"
  shows "parse_fields f (join '','' (map field_text fs) @ CHR ''}'' # r) = Some (fs, r)"
  using assms
proof (induction fs arbitrary: f)
  case (Cons x fs)
  obtain k v where x: "x = (k, v)" by (cases x)
  obtain f' where f: "f = Suc f'" using Cons.prems(4) by (cases f) auto
  have k: "utf8_valid (bytes k)" using Cons.prems(2) by (simp add: x)
  have v: "parse_value f' (json_marshal v @ c # t) = Some (v, c # t)" if "\<not> json_digit c" for c t
    using Cons.prems(1) [of k v f' "c # t"] Cons.prems(4) that by (simp add: f x no_digit_def)
  have key: "field_text x @ t = CHR 0x22 # json_body k @ CHR 0x22 # CHR '':'' # json_marshal v @ t" for t
    by (simp add: field_text_def x json_string_def json_body_escape)
  show ?case
  proof (cases "fs = []")
    case True
    then have "join '','' (map field_text (x # fs)) @ CHR ''}'' # r = field_text x @ CHR ''}'' # r" by simp
    then show ?thesis
      using True v [of "CHR ''}''" r] unfolding key by (simp add: f x json_read_body [OF k] json_digit_def json_space_def)
  next
    case False
    have IH: "parse_fields f' (join '','' (map field_text fs) @ CHR ''}'' # r) = Some (fs, r)"
      by (rule Cons.IH) (use Cons.prems False in \<open>auto simp: f x\<close>)
    have "join '','' (map field_text (x # fs)) @ CHR ''}'' # r
        = field_text x @ CHR '','' # (join '','' (map field_text fs) @ CHR ''}'' # r)"
      using False by (simp add: join_Cons)
    then show ?thesis
      using v [of "CHR '',''"] IH unfolding key
      by (simp add: f x json_read_body [OF k] json_digit_def json_space_def)
  qed
qed simp

lemma join_first:
  "xs \<noteq> [] \<Longrightarrow> hd xs = c # t \<Longrightarrow> \<exists>t'. join sep xs @ r = c # t'"
  by (cases xs; cases "tl xs") auto

lemma parse_marshal:
  "json_ok v \<Longrightarrow> json_fuel v \<le> f \<Longrightarrow> no_digit r \<Longrightarrow> parse_value f (json_marshal v @ r) = Some (v, r)"
proof (induction v arbitrary: f r)
  case J_null
  then show ?case by (cases f) (auto simp: json_space_def has_prefix_def)
next
  case (J_bool b)
  then show ?case by (cases f) (auto simp: json_space_def has_prefix_def)
next
  case (J_int n)
  obtain c t where c: "itoa n = c # t" "c = CHR ''-'' \<or> json_digit c" using itoa_first by blast
  have "\<not> json_space c" "c \<noteq> CHR 0x22" "c \<noteq> CHR ''[''" "c \<noteq> CHR ''{''" "c \<noteq> CHR ''n''" "c \<noteq> CHR ''t''" "c \<noteq> CHR ''f''"
    using c(2) by (auto simp: json_space_def json_digit_def)
  then show ?case using read_number_itoa [OF J_int.prems(3), of n] J_int.prems(2) c(1)
    by (cases f) (auto simp: has_prefix_def)
next
  case (J_str s)
  then show ?case by (cases f) (auto simp: json_string_def json_body_escape json_space_def json_read_body)
next
  case (J_arr vs)
  obtain f' where f: "f = Suc f'" using J_arr.prems(2) by (cases f) auto
  show ?case
  proof (cases "vs = []")
    case True
    then show ?thesis by (simp add: f json_space_def has_prefix_def)
  next
    case False
    obtain c t where c: "json_marshal (hd vs) = c # t" "\<not> json_space c" "c \<noteq> CHR '']''" using marshal_first by blast
    obtain t' where t: "join '','' (map json_marshal vs) @ CHR '']'' # r = c # t'"
      using join_first [of "map json_marshal vs" c t "'',''"] False c(1) by (auto simp: hd_map)
    have "parse_items f' (join '','' (map json_marshal vs) @ CHR '']'' # r) = Some (vs, r)"
      by (rule parse_items_marshal) (use J_arr False in \<open>auto simp: f list_all_iff\<close>)
    then show ?thesis using c(2,3) by (simp add: f t json_space_def has_prefix_def)
  qed
next
  case (J_obj fs)
  obtain f' where f: "f = Suc f'" using J_obj.prems(2) by (cases f) auto
  have fields: "json_marshal (J_obj fs) = ''{'' @ join '','' (map field_text fs) @ ''}''"
    by (simp add: field_text_def)
  show ?case
  proof (cases "fs = []")
    case True
    then show ?thesis by (simp add: f json_space_def has_prefix_def)
  next
    case False
    have "\<exists>t. field_text x = CHR 0x22 # t" for x by (cases x) (simp add: field_text_def json_string_def)
    then obtain q where "hd (map field_text fs) = CHR 0x22 # q" using False by (metis hd_map)
    then obtain t where t: "join '','' (map field_text fs) @ CHR ''}'' # r = CHR 0x22 # t"
      using join_first [of "map field_text fs" "CHR 0x22" q "'',''"] False by auto
    have "parse_fields f' (join '','' (map field_text fs) @ CHR ''}'' # r) = Some (fs, r)"
      by (rule parse_fields_marshal) (use J_obj False in \<open>auto simp: f list_all_iff\<close>)
    then show ?thesis unfolding fields by (simp add: f t json_space_def has_prefix_def)
  qed
qed

text \<open>Fuel enough for a text by its length.\<close>

lemma length_join_char:
  "xs \<noteq> [] \<Longrightarrow> Suc (length (join [c] xs)) = sum_list (map length xs) + length xs"
  by (induction "[c]" xs rule: join.induct) auto

lemma sum_fuel:
  assumes "\<And>x. x \<in> set xs \<Longrightarrow> f x \<le> 2 * length (g x)" and "xs \<noteq> []"
  shows "Suc (Suc (sum_list (map (\<lambda>x. Suc (f x)) xs))) \<le> 2 * length (join '','' (map g xs)) + 4"
proof -
  have "sum_list (map (\<lambda>x. Suc (f x)) xs) \<le> 2 * sum_list (map (length \<circ> g) xs) + length xs"
    using assms(1) by (induction xs) fastforce+
  moreover have "Suc (length (join '','' (map g xs))) = sum_list (map (length \<circ> g) xs) + length xs"
    using length_join_char [of "map g xs" "CHR '',''"] assms(2) by simp
  moreover have "0 < length xs" using assms(2) by simp
  ultimately show ?thesis by linarith
qed

lemma fuel_by_length: "json_fuel v \<le> 2 * length (json_marshal v)"
proof (induction v)
  case (J_int n)
  obtain c t where "itoa n = c # t" using itoa_first by blast
  then show ?case by simp
next
  case (J_arr vs)
  then show ?case using sum_fuel [of vs json_fuel json_marshal] by (cases "vs = []") auto
next
  case (J_obj fs)
  have m: "json_marshal (J_obj fs) = ''{'' @ join '','' (map field_text fs) @ ''}''" by (simp add: field_text_def)
  have s: "(\<lambda>(k, v). Suc (json_fuel v)) = (\<lambda>x. Suc (json_fuel (snd x)))" by auto
  have "json_fuel (snd x) \<le> 2 * length (field_text x)" if "x \<in> set fs" for x
    using J_obj [of x "snd x"] that by (cases x) (auto simp: field_text_def)
  then show ?case unfolding m using sum_fuel [of fs "\<lambda>x. json_fuel (snd x)" field_text] by (cases "fs = []") (auto simp: s)
qed (simp_all add: json_string_def)

lemma text_marshal: "json_ok v \<Longrightarrow> json_text (2 * length (json_marshal v)) (json_marshal v) = Some v"
  using parse_marshal [of v "2 * length (json_marshal v)" "[]"] fuel_by_length [of v]
  by (simp add: json_text_def no_digit_def next_token_def)

section \<open>Descriptions\<close>

text \<open>
  \<^verbatim>\<open>DescriptionText\<close>. A struct is decoded field by field, in any capitalisation of its keys; the last of several
  wins, \<^verbatim>\<open>null\<close> clears a slice and leaves a string as it is, and a value of another type is an error.
\<close>

fun desc_fields :: "string \<Rightarrow> json list \<Rightarrow> (string \<times> json) list \<Rightarrow> (string \<times> json list) option" where
  "desc_fields t ex [] = Some (t, ex)"
| "desc_fields t ex ((k, v) # fs) =
     (if to_lower k = ''text'' then
        (case v of J_str s \<Rightarrow> desc_fields s ex fs | J_null \<Rightarrow> desc_fields t ex fs | _ \<Rightarrow> None)
      else if to_lower k = ''extra'' then
        (case v of J_arr vs \<Rightarrow> desc_fields t vs fs | J_null \<Rightarrow> desc_fields t [] fs | _ \<Rightarrow> None)
      else desc_fields t ex fs)"

lemma desc_fields_smaller:
  "desc_fields t ex fs = Some (t', ex') \<Longrightarrow> v \<in> set ex' \<Longrightarrow> v \<in> set ex \<or> size v < size (J_obj fs)"
proof (induction t ex fs rule: desc_fields.induct)
  case (2 t ex k w fs)
  have arr: "size v < size (J_obj ((k, w) # fs))" if "w = J_arr vs" "v \<in> set vs" for vs
    using that size_list_estimation' [of v vs "size v" size] by simp
  show ?case using 2 arr by (auto split: if_splits json.splits)
qed simp

function description_text :: "json \<Rightarrow> string" where
  "description_text (J_str s) = s"
| "description_text (J_obj fs) =
     (case desc_fields [] [] fs of
        None \<Rightarrow> []
      | Some (t, ex) \<Rightarrow> t @ concat (map description_text ex))"
| "description_text J_null = []"
| "description_text (J_bool b) = []"
| "description_text (J_int n) = []"
| "description_text (J_arr vs) = []"
  by pat_completeness auto
termination by (relation "measure size") (auto dest: desc_fields_smaller)

text \<open>The letters of a component, and components whose strings are valid UTF-8.\<close>

fun plain_text :: "text_comp \<Rightarrow> string" where
  "plain_text (Text s color bold italic click hover extra) = s @ concat (map plain_text extra)"

fun chat_ok :: "text_comp \<Rightarrow> bool" where
  "chat_ok (Text s color bold italic click hover extra) \<longleftrightarrow>
     utf8_valid (bytes s) \<and> utf8_valid (bytes color) \<and> utf8_valid (bytes click)
     \<and> (case hover of None \<Rightarrow> True | Some h \<Rightarrow> chat_ok h) \<and> list_all chat_ok extra"

lemma json_value_ok: "chat_ok t \<Longrightarrow> json_ok (json_value t)"
proof (induction t)
  case (Text s color bold italic click hover extra)
  have keys: "utf8_valid (bytes ''text'')" "utf8_valid (bytes ''color'')" "utf8_valid (bytes ''bold'')" "utf8_valid (bytes ''italic'')"
    "utf8_valid (bytes ''clickEvent'')" "utf8_valid (bytes ''hoverEvent'')" "utf8_valid (bytes ''extra'')"
    "utf8_valid (bytes ''action'')" "utf8_valid (bytes ''value'')" "utf8_valid (bytes ''run_command'')" "utf8_valid (bytes ''show_text'')"
    by (rule ascii_valid, simp add: bytes_def ascii_def byte_of_char_def)+
  show ?case using Text keys by (cases hover) (auto simp: opt_field_def list_all_iff)
qed

lemma description_of_value: "description_text (json_value t) = plain_text t"
proof (induction t)
  case (Text s color bold italic click hover extra)
  have ex: "concat (map (description_text \<circ> json_value) extra) = concat (map plain_text extra)"
    using Text by (auto intro!: arg_cong [where f = concat] map_cong)
  show ?case
    by (cases hover) (auto simp: opt_field_def ex to_lower_def ascii_lower_def)
qed

section \<open>Properties\<close>

text \<open>C13: a kick message arrives as it was meant, whatever server names and player names it quotes: the client reads one packet
  of the right kind, whose string is one JSON text and decodes to exactly the component's fields, and as plain
  text it is the component's letters.\<close>

theorem disconnect_read:
  assumes "chat_ok t" and "length (text_json t) \<le> 1048576"
  shows "\<exists>p r j. read_frame (login_disconnect t @ rest) = Inr ((login_disconnect t, p), rest)
    \<and> read_varint p = Inr (LoginDisconnectID, r) \<and> read_byte_array 1048576 r = Inr (bytes j, [])
    \<and> json_text (2 * length j) j = Some (json_value t) \<and> description_text (json_value t) = plain_text t"
proof (intro exI conjI)
  define p where "p = b_string (text_json t) (new_packet LoginDisconnectID)"
  have d: "login_disconnect t = frame_of p" by (simp only: login_disconnect_def p_def)
  have app: "p = new_packet LoginDisconnectID @ b_string (text_json t) []" by (simp add: p_def b_string_def append_varint_def b_byte_array_def)
  have l: "length (bytes (text_json t)) \<le> 1048576" using assms(2) by simp
  have "length p \<le> 1048576 + 10"
    using assms(2) length_append_varint [of "append_varint [] 0" "to_int32 (int (length (text_json t)))"]
      length_append_varint [of "[]" 0]
    by (simp add: p_def b_string_def b_byte_array_def new_packet_def)
  then have "p \<noteq> []" "length p \<le> MaxFrameLen" by (auto simp: app new_packet_def append_varint_def MaxFrameLen_def varint_loop.simps)
  then show "read_frame (login_disconnect t @ rest) = Inr ((login_disconnect t, p), rest)"
    unfolding d by (rule read_frame_put)
  show "read_varint p = Inr (LoginDisconnectID, b_string (text_json t) [])"
    using read_varint_put [of LoginDisconnectID "b_string (text_json t) []"]
    by (simp add: app new_packet_def append_varint_def int32_range_def)
  show "read_byte_array 1048576 (b_string (text_json t) []) = Inr (bytes (text_json t), [])"
    using read_byte_array_put [of "1048576" "bytes (text_json t)" "[]"] l by (simp add: b_string_def byte_array_ok_def)
  show "json_text (2 * length (text_json t)) (text_json t) = Some (json_value t)"
    unfolding text_json_def by (rule text_marshal [OF json_value_ok [OF assms(1)]])
qed (rule description_of_value)

theorem disconnect_read_witness:
  "\<exists>p r j. read_frame (login_disconnect (Join [C ''Bob's \"hub\"'' ''yellow'', C '' is offline right now.'' ''red'']) @ [1])
      = Inr ((login_disconnect (Join [C ''Bob's \"hub\"'' ''yellow'', C '' is offline right now.'' ''red'']), p), [1])
    \<and> json_text (2 * length j) j = Some (json_value (Join [C ''Bob's \"hub\"'' ''yellow'', C '' is offline right now.'' ''red'']))
    \<and> read_varint p = Inr (LoginDisconnectID, r) \<and> read_byte_array 1048576 r = Inr (bytes j, [])"
proof -
  have "chat_ok (Join [C ''Bob's \"hub\"'' ''yellow'', C '' is offline right now.'' ''red''])"
    "length (text_json (Join [C ''Bob's \"hub\"'' ''yellow'', C '' is offline right now.'' ''red''])) \<le> 1048576"
    by code_simp+
  from disconnect_read [OF this, of "[1]"] show ?thesis by blast
qed

end
