(* ===== verification/State_File.thy ===== *)
theory State_File
  imports Json Kv_Store
begin

text \<open>
  The state file of \<^verbatim>\<open>internal/store/store.go\<close>, byte by byte: \<open>data_json\<close> is what \<^verbatim>\<open>json.Marshal\<close> makes of the
  maps (keys sorted, a zero expiry left out), \<open>data_of\<close> what \<^verbatim>\<open>json.Unmarshal\<close> of such a text puts into them, and
  \<open>write_file\<close> is \<^verbatim>\<open>write\<close>: the text goes to a temporary file, which then replaces the state file. Each of its system
  calls can fail, a write also after some bytes, and the process can die between any two of them.

  The lemmas show that the file is always the text of a complete snapshot, and that a gateway that opens it again
  finds everything that the snapshot held.
\<close>

section \<open>The text of the data\<close>

definition entry_json :: "kv_entry \<Rightarrow> json" where
  "entry_json e = J_obj ((''v'', J_str (kv_value e)) # opt_field (kv_expires e \<noteq> 0) ''e'' (J_int (kv_expires e)))"

definition sorted_obj :: "(string \<times> json) list \<Rightarrow> json" where
  "sorted_obj fs = J_obj (sort_key fst fs)"

definition bucket_json :: "bucket \<Rightarrow> json" where
  "bucket_json b = sorted_obj (map (\<lambda>(k, e). (k, entry_json e)) b)"

definition data_json :: "kv_data \<Rightarrow> json" where
  "data_json d = sorted_obj (map (\<lambda>(b, m). (b, bucket_json m)) d)"

definition data_text :: "kv_data \<Rightarrow> string" where
  "data_text d = json_marshal (data_json d)"

text \<open>Decoding, as far as the gateway's own texts need it.\<close>

definition entry_of :: "json \<Rightarrow> kv_entry option" where
  "entry_of j =
     (case j of
        J_obj fs \<Rightarrow>
          (case (map_of fs ''v'', map_of fs ''e'') of
             (Some (J_str v), None) \<Rightarrow> Some \<lparr>kv_value = v, kv_expires = 0\<rparr>
           | (Some (J_str v), Some (J_int n)) \<Rightarrow> Some \<lparr>kv_value = v, kv_expires = n\<rparr>
           | _ \<Rightarrow> None)
      | _ \<Rightarrow> None)"

fun map_fields :: "('a \<Rightarrow> 'b option) \<Rightarrow> (string \<times> 'a) list \<Rightarrow> (string \<times> 'b) list option" where
  "map_fields f [] = Some []"
| "map_fields f ((k, v) # fs) =
     (case (f v, map_fields f fs) of (Some y, Some ys) \<Rightarrow> Some ((k, y) # ys) | _ \<Rightarrow> None)"

definition bucket_of_json :: "json \<Rightarrow> bucket option" where
  "bucket_of_json j = (case j of J_obj fs \<Rightarrow> map_fields entry_of fs | _ \<Rightarrow> None)"

definition data_of :: "json \<Rightarrow> kv_data option" where
  "data_of j = (case j of J_obj fs \<Rightarrow> map_fields bucket_of_json fs | _ \<Rightarrow> None)"

text \<open>\<^verbatim>\<open>Open\<close>: the file is empty, does not decode, or holds the data.\<close>

definition open_file :: "time \<Rightarrow> string \<Rightarrow> string option \<Rightarrow> kv_store option" where
  "open_file now path content =
     (case content of
        None \<Rightarrow> Some (store_open now path None)
      | Some raw \<Rightarrow>
          if path = [] then Some (store_open now path None)
          else if raw = [] then Some (store_open now path (Some []))
          else (case json_text (2 * length raw) raw of
                  None \<Rightarrow> None
                | Some j \<Rightarrow> map_option (\<lambda>d. store_open now path (Some d)) (data_of j)))"

section \<open>Writing the file\<close>

type_synonym files = "string \<rightharpoonup> string"

text \<open>How far \<^verbatim>\<open>write\<close> got before it failed or the process died.\<close>

datatype write_outcome = W_done | W_no_directory | W_partial nat | W_not_renamed

definition tmp_path :: "string \<Rightarrow> string" where
  "tmp_path path = path @ ''.tmp''"

definition write_file :: "write_outcome \<Rightarrow> string \<Rightarrow> string \<Rightarrow> files \<Rightarrow> bool \<times> files" where
  "write_file w path raw fs =
     (case w of
        W_no_directory \<Rightarrow> (False, fs)
      | W_partial n \<Rightarrow> (False, fs(tmp_path path \<mapsto> take n raw))
      | W_not_renamed \<Rightarrow> (False, fs(tmp_path path \<mapsto> raw))
      | W_done \<Rightarrow> (True, (fs(tmp_path path \<mapsto> raw))(path := Some raw, tmp_path path := None)))"

text \<open>The gateway with its files: \<^verbatim>\<open>Flush\<close> with \<^verbatim>\<open>write\<close> in it. The store's part is that of \<open>disk\<close>.\<close>

record machine =
  mc_disk :: disk
  mc_files :: files

datatype machine_op = M_store time store_op | M_begin | M_write write_outcome

fun machine_step :: "machine_op \<Rightarrow> machine \<Rightarrow> machine" where
  "machine_step (M_store now op) m = m\<lparr>mc_disk := disk_step (D_store now op) (mc_disk m)\<rparr>"
| "machine_step M_begin m = m\<lparr>mc_disk := flush_begin (mc_disk m)\<rparr>"
| "machine_step (M_write w) m =
     (case dk_flushing (mc_disk m) of
        None \<Rightarrow> m
      | Some d \<Rightarrow>
          (case write_file w (st_path (dk_store (mc_disk m))) (data_text d) (mc_files m) of
             (ok, fs) \<Rightarrow> \<lparr>mc_disk = flush_end ok (mc_disk m), mc_files = fs\<rparr>))"

definition machine_run :: "machine_op list \<Rightarrow> machine \<Rightarrow> machine" where
  "machine_run ops m = foldl (\<lambda>m op. machine_step op m) m ops"

section \<open>The file holds a snapshot\<close>

definition abstract_op :: "machine_op \<Rightarrow> disk_op" where
  "abstract_op op = (case op of M_store now o' \<Rightarrow> D_store now o' | M_begin \<Rightarrow> D_begin | M_write w \<Rightarrow> D_end (w = W_done))"

lemma tmp_path_ne [simp]: "tmp_path path \<noteq> path" "path \<noteq> tmp_path path"
  by (simp_all add: tmp_path_def)

lemma write_file_path:
  "write_file w path raw fs = (ok, fs') \<Longrightarrow> ok = (w = W_done) \<and> fs' path = (if w = W_done then Some raw else fs path)"
  by (auto simp: write_file_def split: write_outcome.splits)

lemma machine_disk: "mc_disk (machine_run ops m) = disk_run (map abstract_op ops) (mc_disk m)"
proof (induction ops arbitrary: m)
  case (Cons op ops)
  have "mc_disk (machine_step op m) = disk_step (abstract_op op) (mc_disk m)"
    by (cases op) (auto simp: abstract_op_def flush_end_def dest!: write_file_path split: option.splits prod.splits)
  then show ?case using Cons.IH [of "machine_step op m"] by (simp add: machine_run_def disk_run_def)
qed (simp add: machine_run_def disk_run_def)

text \<open>The file of a machine is what it was at the start, or the text of a snapshot.\<close>

definition file_inv :: "string option \<Rightarrow> kv_data option \<Rightarrow> machine \<Rightarrow> bool" where
  "file_inv raw content m \<longleftrightarrow>
     (let file = mc_files m (st_path (dk_store (mc_disk m))); d = dk_file (mc_disk m) in
      file = raw \<and> d = content \<or> (\<exists>x. d = Some x \<and> file = Some (data_text x)))"

lemma disk_step_path: "st_path (dk_store (disk_step op d)) = st_path (dk_store d)"
  using store_step_clean by (cases op) (auto simp: flush_begin_def flush_end_def Let_def split: option.splits)

lemma flush_path [simp]: "st_path (dk_store (flush_begin d)) = st_path (dk_store d)" "st_path (dk_store (flush_end ok d)) = st_path (dk_store d)"
  using disk_step_path [of D_begin d] disk_step_path [of "D_end ok" d] by simp_all

lemma machine_step_file: "file_inv raw content m \<Longrightarrow> file_inv raw content (machine_step op m)"
proof (cases op)
  case (M_store now o')
  assume "file_inv raw content m"
  then show ?thesis using store_step_clean [of now o' "dk_store (mc_disk m)"] by (simp add: M_store file_inv_def)
next
  case M_begin
  assume "file_inv raw content m"
  moreover have "dk_file (flush_begin d) = dk_file d" for d by (simp add: flush_begin_def Let_def)
  ultimately show ?thesis by (simp add: M_begin file_inv_def)
next
  case (M_write w)
  assume inv: "file_inv raw content m"
  show ?thesis
  proof (cases "dk_flushing (mc_disk m)")
    case (Some d)
    obtain ok fs where w: "write_file w (st_path (dk_store (mc_disk m))) (data_text d) (mc_files m) = (ok, fs)"
      by (metis prod.exhaust)
    have "dk_file (flush_end ok (mc_disk m)) = (if ok then Some d else dk_file (mc_disk m))"
      using Some by (simp add: flush_end_def)
    then show ?thesis using inv write_file_path [OF w] Some w by (auto simp: M_write file_inv_def)
  qed (use inv in \<open>simp add: M_write\<close>)
qed

lemma machine_run_file: "file_inv raw content m \<Longrightarrow> file_inv raw content (machine_run ops m)"
  by (induction ops arbitrary: m) (simp_all add: machine_run_def machine_step_file)

section \<open>Reading the file back\<close>

text \<open>Data with one entry per key, and with keys and values that JSON can hold.\<close>

definition data_ok :: "kv_data \<Rightarrow> bool" where
  "data_ok d \<longleftrightarrow> distinct (map fst d)
     \<and> list_all (\<lambda>(b, m). utf8_valid (bytes b) \<and> distinct (map fst m)
         \<and> list_all (\<lambda>(k, e). utf8_valid (bytes k) \<and> utf8_valid (bytes (kv_value e))) m) d"

lemma map_of_sort_key: "distinct (map fst xs) \<Longrightarrow> map_of (sort_key fst xs) = map_of xs"
proof -
  assume d: "distinct (map fst xs)"
  then have "distinct (map fst (sort_key fst xs))" by (simp add: distinct_map)
  then show ?thesis using d by (simp add: map_of_inject_set)
qed

lemma entry_back: "entry_of (entry_json e) = Some e"
  by (cases e) (auto simp: entry_of_def entry_json_def opt_field_def)

lemma map_fields_sorted:
  assumes "\<And>k x. (k, x) \<in> set xs \<Longrightarrow> f (h x) = Some (g x)"
  shows "map_fields f (sort_key fst (map (\<lambda>(k, x). (k, h x)) xs)) = Some (map (\<lambda>(k, x). (k, g x)) (sort_key fst xs))"
proof -
  have fst: "(\<lambda>x. fst (case x of (k, x) \<Rightarrow> (k, h x))) = fst" by auto
  have "map_fields f (map (\<lambda>(k, x). (k, h x)) ys) = Some (map (\<lambda>(k, x). (k, g x)) ys)" if "set ys \<subseteq> set xs" for ys
    using that assms by (induction ys) auto
  then show ?thesis unfolding sort_key_map fst by simp
qed

definition sorted_bucket :: "bucket \<Rightarrow> bucket" where
  "sorted_bucket m = sort_key fst m"

definition sorted_data :: "kv_data \<Rightarrow> kv_data" where
  "sorted_data d = map (\<lambda>(b, m). (b, sorted_bucket m)) (sort_key fst d)"

lemma data_back: "data_of (data_json d) = Some (sorted_data d)"
proof -
  have b: "bucket_of_json (bucket_json m) = Some (sorted_bucket m)" for m
    using map_fields_sorted [of m entry_of entry_json "\<lambda>e. e"] entry_back
    by (simp add: bucket_of_json_def bucket_json_def sorted_obj_def sorted_bucket_def)
  then show ?thesis
    using map_fields_sorted [of d bucket_of_json bucket_json sorted_bucket]
    by (simp add: data_of_def data_json_def sorted_obj_def sorted_data_def)
qed

lemma data_json_ok: "data_ok d \<Longrightarrow> json_ok (data_json d)"
proof -
  assume d: "data_ok d"
  have k: "utf8_valid (bytes ''v'')" "utf8_valid (bytes ''e'')"
    by (rule ascii_valid, simp add: bytes_def ascii_def byte_of_char_def)+
  have e: "json_ok (entry_json e)" if "utf8_valid (bytes (kv_value e))" for e
    using that k by (simp add: entry_json_def opt_field_def)
  have "json_ok (bucket_json m)" if "list_all (\<lambda>(k, e). utf8_valid (bytes k) \<and> utf8_valid (bytes (kv_value e))) m" for m
    using that e by (auto simp: bucket_json_def sorted_obj_def list_all_iff)
  then show ?thesis using d by (auto simp: data_ok_def data_json_def sorted_obj_def list_all_iff)
qed

text \<open>Sorting changes no lookup.\<close>

lemma sorted_lookup:
  assumes "data_ok d"
  shows "map_of (bucket_of (sorted_data d) b) = map_of (bucket_of d b)"
proof -
  have "map_of (sorted_data d) b = map_option sorted_bucket (map_of (sort_key fst d) b)"
    unfolding sorted_data_def by (simp add: map_of_map)
  then have s: "map_of (sorted_data d) b = map_option sorted_bucket (map_of d b)"
    using assms by (simp add: map_of_sort_key data_ok_def)
  show ?thesis
  proof (cases "map_of d b")
    case (Some m)
    then have "distinct (map fst m)" using assms by (auto simp: data_ok_def list_all_iff dest!: map_of_SomeD)
    then show ?thesis using s Some by (simp add: bucket_of_def sorted_bucket_def map_of_sort_key)
  qed (simp add: s bucket_of_def)
qed

lemma sorted_inv: "data_ok d \<Longrightarrow> kv_inv \<lparr>st_path = path, st_data = sorted_data d, st_dirty = False\<rparr>"
proof -
  assume d: "data_ok d"
  have k: "map fst (sorted_data d) = map fst (sort_key fst d)" by (simp add: sorted_data_def case_prod_beta comp_def)
  have "distinct (map fst (sorted_data d))" using d unfolding k by (simp add: data_ok_def distinct_map)
  moreover have "distinct (map fst (sorted_bucket m))" if "(b, m) \<in> set d" for b m
    using d that by (auto simp: data_ok_def list_all_iff sorted_bucket_def distinct_map)
  ultimately show ?thesis by (auto simp: kv_inv_def list_all_iff sorted_data_def)
qed

lemma open_written:
  assumes "data_ok d" and "path \<noteq> []"
  shows "open_file t path (Some (data_text d)) = Some (store_open t path (Some (sorted_data d)))"
proof -
  have "data_text d \<noteq> []" using marshal_first [of "data_json d"] by (auto simp: data_text_def)
  then show ?thesis
    using text_marshal [OF data_json_ok [OF assms(1)]] assms(2)
    by (simp add: open_file_def data_text_def [symmetric] data_back)
qed

lemma opened_lookup:
  assumes "data_ok d" and "path \<noteq> []"
  shows "fst (store_get t b k (store_open t path (Some (sorted_data d))))
    = (case map_of (bucket_of d b) k of None \<Rightarrow> None | Some e \<Rightarrow> if dead t e then None else Some (kv_value e))"
proof -
  let ?s = "\<lparr>st_path = path, st_data = sorted_data d, st_dirty = False\<rparr>"
  have "fst (store_get t b k (store_prune t ?s)) = fst (store_get t b k ?s)"
    by (rule store_prune_get [OF sorted_inv [OF assms(1)] order_refl])
  then show ?thesis
    using assms(2) by (simp add: store_open_def Let_def fst_store_get sorted_lookup [OF assms(1)])
qed

section \<open>Snapshots can be written\<close>

fun op_valid :: "machine_op \<Rightarrow> bool" where
  "op_valid (M_store now (S_set b k v ttl)) = (utf8_valid (bytes b) \<and> utf8_valid (bytes k) \<and> utf8_valid (bytes v))"
| "op_valid _ = True"

definition bucket_ok :: "bucket \<Rightarrow> bool" where
  "bucket_ok m \<longleftrightarrow> distinct (map fst m) \<and> list_all (\<lambda>(k, e). utf8_valid (bytes k) \<and> utf8_valid (bytes (kv_value e))) m"

lemma data_ok_buckets:
  "data_ok d \<longleftrightarrow> distinct (map fst d) \<and> list_all (\<lambda>(b, m). utf8_valid (bytes b) \<and> bucket_ok m) d"
  by (auto simp: data_ok_def bucket_ok_def list_all_iff)

lemma bucket_of_ok: "data_ok d \<Longrightarrow> bucket_ok (bucket_of d b)"
  by (auto simp: data_ok_buckets bucket_of_def bucket_ok_def [of "[]"] list_all_iff split: option.splits dest: map_of_SomeD)

lemma data_ok_update: "data_ok d \<Longrightarrow> utf8_valid (bytes b) \<Longrightarrow> bucket_ok m \<Longrightarrow> data_ok (AList.update b m d)"
  by (simp add: data_ok_buckets distinct_update list_all_update)

lemma drop_key_ok:
  assumes "data_ok (st_data s)" and "map_of (bucket_of (st_data s) b) k = Some e"
  shows "data_ok (st_data (drop_key b k s))"
proof -
  obtain m where "map_of (st_data s) b = Some m" using assms(2) by (auto simp: bucket_of_def split: option.splits)
  then have b: "utf8_valid (bytes b)" using assms(1) by (auto simp: data_ok_buckets list_all_iff dest!: map_of_SomeD)
  have "bucket_ok (AList.delete k (bucket_of (st_data s) b))"
    using bucket_of_ok [OF assms(1), of b] by (simp add: bucket_ok_def distinct_delete list_all_delete)
  then show ?thesis using data_ok_update [OF assms(1) b] by (simp add: drop_key_def)
qed

lemma data_ok_map:
  assumes "data_ok d" and "\<And>m. bucket_ok m \<Longrightarrow> bucket_ok (g m)"
  shows "data_ok (map (\<lambda>(b, m). (b, g m)) d)"
proof -
  have "map fst (map (\<lambda>(b, m). (b, g m)) d) = map fst d" by (induction d) auto
  then show ?thesis using assms by (auto simp: data_ok_buckets list_all_iff simp del: map_map)
qed

lemma sort_key_ok:
  "data_ok d \<Longrightarrow> data_ok (sort_key fst d)" "bucket_ok m \<Longrightarrow> bucket_ok (sorted_bucket m)"
  by (auto simp: data_ok_buckets bucket_ok_def sorted_bucket_def list_all_iff distinct_map)

lemma store_step_ok:
  assumes "data_ok (st_data s)" and "op_valid (M_store now op)"
  shows "data_ok (st_data (store_step now op s))"
proof (cases op)
  case (S_set b k v ttl)
  then show ?thesis using assms bucket_of_ok [OF assms(1), of b]
    by (auto simp: store_set_def Let_def bucket_ok_def distinct_update list_all_update intro!: data_ok_update)
next
  case (S_get b k)
  then show ?thesis using assms(1) drop_key_ok [OF assms(1)] by (auto simp: store_get_def split: option.splits)
next
  case (S_delete b k)
  then show ?thesis using assms(1) drop_key_ok [OF assms(1)] by (auto simp: store_delete_def split: option.splits)
next
  case S_prune
  have "bucket_ok (filter (\<lambda>(k, e). \<not> dead now e) m)" if "bucket_ok m" for m
    using that by (auto simp: bucket_ok_def list_all_iff distinct_map_fst_filter)
  then show ?thesis using data_ok_map [OF assms(1)] by (simp add: S_prune store_prune_def)
qed

definition machine_ok :: "machine \<Rightarrow> bool" where
  "machine_ok m \<longleftrightarrow> data_ok (st_data (dk_store (mc_disk m)))
     \<and> pred_option data_ok (dk_flushing (mc_disk m)) \<and> pred_option data_ok (dk_file (mc_disk m))"

lemma machine_step_ok: "machine_ok m \<Longrightarrow> op_valid op \<Longrightarrow> machine_ok (machine_step op m)"
proof (cases op)
  case (M_store now o')
  assume "machine_ok m" "op_valid op"
  then show ?thesis using store_step_ok [of "dk_store (mc_disk m)" now o'] by (simp add: M_store machine_ok_def)
next
  case M_begin
  assume "machine_ok m"
  then show ?thesis by (auto simp: M_begin machine_ok_def flush_begin_def Let_def)
next
  case (M_write w)
  assume "machine_ok m"
  then show ?thesis by (auto simp: M_write machine_ok_def flush_end_def split: option.splits prod.splits)
qed

lemma machine_run_ok: "machine_ok m \<Longrightarrow> list_all op_valid ops \<Longrightarrow> machine_ok (machine_run ops m)"
  by (induction ops arbitrary: m) (simp_all add: machine_run_def machine_step_ok)

lemma sorted_ok: "data_ok d \<Longrightarrow> data_ok (sorted_data d)"
  unfolding sorted_data_def by (intro data_ok_map sort_key_ok)

section \<open>Properties\<close>

definition lookup_in :: "kv_data \<Rightarrow> time \<Rightarrow> string \<Rightarrow> string \<Rightarrow> string option" where
  "lookup_in d t b k =
     (case map_of (bucket_of d b) k of None \<Rightarrow> None | Some e \<Rightarrow> if dead t e then None else Some (kv_value e))"

text \<open>A gateway that starts with no state file (\<open>d0\<close> is \<open>None\<close>) or one that it wrote before.\<close>

definition boot :: "time \<Rightarrow> string \<Rightarrow> kv_data option \<Rightarrow> files \<Rightarrow> machine" where
  "boot t0 path d0 fs = \<lparr>mc_disk = disk_open t0 path (map_option sorted_data d0), mc_files = fs\<rparr>"

lemma boot_ok: "pred_option data_ok d0 \<Longrightarrow> machine_ok (boot t0 path d0 fs)"
proof -
  assume d: "pred_option data_ok d0"
  have "data_ok (st_data (store_open t0 path (map_option sorted_data d0)))"
  proof (cases d0)
    case (Some d)
    then have "data_ok (sorted_data d)" using d sorted_ok by simp
    then show ?thesis
      using Some store_step_ok [of "\<lparr>st_path = path, st_data = sorted_data d, st_dirty = False\<rparr>" t0 S_prune]
      by (simp add: store_open_def Let_def data_ok_def [of "[]"])
  qed (simp add: store_open_def Let_def data_ok_def)
  then show ?thesis using d sorted_ok by (cases d0) (auto simp: machine_ok_def boot_def disk_open_def)
qed

lemma boot_path: "st_path (dk_store (mc_disk (machine_run ops (boot t0 path d0 fs)))) = path"
proof -
  have "st_path (dk_store (disk_run ops d)) = st_path (dk_store d)" for ops d
    by (induction ops arbitrary: d) (simp_all add: disk_run_def disk_step_path)
  then show ?thesis unfolding machine_disk
    by (auto simp: boot_def disk_open_def store_open_def Let_def store_prune_def split: option.splits)
qed

lemma recovered:
  assumes "path \<noteq> []" and "raw0 = map_option data_text d0" and "pred_option data_ok d0" and "machine_ok m"
    and "st_path (dk_store (mc_disk m)) = path" and "file_inv raw0 (map_option sorted_data d0) m"
  shows "\<exists>s. open_file t path (mc_files m path) = Some s
    \<and> (\<forall>b k. fst (store_get t b k s) = (case dk_file (mc_disk m) of None \<Rightarrow> None | Some d \<Rightarrow> lookup_in d t b k))"
proof (cases "mc_files m path")
  case None
  then have "dk_file (mc_disk m) = None" using assms by (cases d0) (auto simp: file_inv_def)
  then show ?thesis using None by (simp add: open_file_def store_open_def Let_def fst_store_get bucket_of_def)
next
  case (Some raw)
  obtain d where d: "raw = data_text d" "data_ok d" "dk_file (mc_disk m) = Some d \<or> dk_file (mc_disk m) = Some (sorted_data d)"
    using assms Some by (cases d0) (auto simp: file_inv_def machine_ok_def Let_def)
  then show ?thesis
    using open_written [OF d(2) assms(1), of t] opened_lookup [OF d(2) assms(1), of t] sorted_lookup [OF d(2)]
    by (auto simp: Some lookup_in_def)
qed

text \<open>C23: the gateway can be killed at any moment, also in the middle of writing its state file and however often
  writes fail: the next start reads the file, finds exactly what the last completed flush wrote, and, if nothing
  changed since then, all that the killed gateway knew.\<close>

theorem crash_recovery:
  assumes "path \<noteq> []" and "fs path = map_option data_text d0" and "pred_option data_ok d0" and "list_all op_valid ops"
    and "m = machine_run ops (boot t0 path d0 fs)"
  shows "mc_disk m = disk_run (map abstract_op ops) (disk_open t0 path (map_option sorted_data d0))
    \<and> (\<exists>s. open_file t path (mc_files m path) = Some s
        \<and> (\<forall>b k. fst (store_get t b k s) = (case dk_file (mc_disk m) of None \<Rightarrow> None | Some d \<Rightarrow> lookup_in d t b k))
        \<and> (\<not> st_dirty (dk_store (mc_disk m)) \<and> dk_flushing (mc_disk m) = None \<longrightarrow>
             (\<forall>b k. fst (store_get t b k s) = fst (store_get t b k (dk_store (mc_disk m))))))"
proof -
  let ?c = "map_option sorted_data d0"
  have sim: "mc_disk m = disk_run (map abstract_op ops) (disk_open t0 path ?c)" using machine_disk assms(5) by (simp add: boot_def)
  have path: "st_path (dk_store (mc_disk m)) = path" using boot_path assms(5) by simp
  have "file_inv (fs path) ?c (boot t0 path d0 fs)"
    using boot_path [of "[]" t0 path d0 fs] by (simp add: file_inv_def boot_def machine_run_def disk_open_def)
  then have fi: "file_inv (fs path) ?c m" unfolding assms(5) by (rule machine_run_file)
  have ok: "machine_ok m" unfolding assms(5) by (rule machine_run_ok [OF boot_ok [OF assms(3)] assms(4)])
  have "\<exists>s. open_file t path (mc_files m path) = Some s
      \<and> (\<forall>b k. fst (store_get t b k s) = (case dk_file (mc_disk m) of None \<Rightarrow> None | Some d \<Rightarrow> lookup_in d t b k))"
    by (rule recovered [OF assms(1-3) ok path fi])
  then obtain s where s: "open_file t path (mc_files m path) = Some s"
    "\<forall>b k. fst (store_get t b k s) = (case dk_file (mc_disk m) of None \<Rightarrow> None | Some d \<Rightarrow> lookup_in d t b k)" by blast
  have "disk_inv (mc_disk m)" unfolding sim by (rule disk_run_inv [OF disk_open_inv])
  then have "st_data (dk_store (mc_disk m)) = (case dk_file (mc_disk m) of None \<Rightarrow> [] | Some d \<Rightarrow> d)"
    if "\<not> st_dirty (dk_store (mc_disk m))" "dk_flushing (mc_disk m) = None"
    using that path assms(1) by (simp add: disk_inv_def saved_def)
  then have "\<not> st_dirty (dk_store (mc_disk m)) \<and> dk_flushing (mc_disk m) = None \<longrightarrow>
      (\<forall>b k. fst (store_get t b k s) = fst (store_get t b k (dk_store (mc_disk m))))"
    using s(2) by (auto simp: fst_store_get lookup_in_def bucket_of_def split: option.splits)
  then show ?thesis using sim s by blast
qed

section \<open>Examples\<close>

text \<open>Alex's choice is written, a second one only partly when the gateway dies.\<close>

definition demo_run :: "machine_op list" where
  "demo_run = [M_store 5000000000 (S_set ''pending'' ''alex'' ''hub'' 0), M_begin, M_write W_done,
     M_store 6000000000 (S_set ''pending'' ''sam'' ''hub \"2\"'' 0), M_begin, M_write (W_partial 7)]"

theorem crash_recovery_witness:
  "\<exists>s. open_file 9000000000 ''state.json'' (mc_files (machine_run demo_run (boot 1 ''state.json'' None Map.empty)) ''state.json'') = Some s
    \<and> fst (store_get 9000000000 ''pending'' ''alex'' s) = Some ''hub'' \<and> fst (store_get 9000000000 ''pending'' ''sam'' s) = None"
proof -
  have "dk_file (mc_disk (machine_run demo_run (boot 1 ''state.json'' None Map.empty)))
      = Some [(''pending'', [(''alex'', \<lparr>kv_value = ''hub'', kv_expires = 0\<rparr>)])]"
    by (simp add: demo_run_def machine_run_def boot_def disk_open_def store_open_def store_set_def flush_begin_def
        flush_end_def write_file_def Let_def bucket_of_def)
  moreover have "list_all op_valid demo_run" by code_simp
  ultimately show ?thesis
    using crash_recovery [of "''state.json''" Map.empty None demo_run _ 1 9000000000]
    by (fastforce simp: lookup_in_def bucket_of_def dead_def)
qed

end
