(* ===== verification/Spec2Isabelle.thy ===== *)
theory Spec2Isabelle
  imports Match Pending Cookie Limiter Sideport Sessions Health Udp_Flows Tcp_Ports Api Agent Side_Dial State_File
begin

text \<open>
  A verification development for \<^verbatim>\<open>vecta\<close>, a gateway in Go that gives many independent Minecraft servers one public
  address. A player's client connects to the gateway, which reads the handshake and the login start, picks
  a backend server, replays what it has read and then pipes bytes. Owners register their servers over an
  HTTP API, by an agent beside the server or by a plugin, and get public ports for side services.

  \<^bigskip> \<^bold>\<open>Parts and theories.\<close> Paths are under \<^verbatim>\<open>src/\<close>; every definition has the name of its Go
  counterpart in snake case, or with a prefix where that name is taken.

  \<^item> Base, Strs, Utf8, Net_Addr: the prelude. Bytes are \<open>8 word\<close>, a Go string is a \<open>string\<close> whose characters are
    its bytes, times and durations are nanoseconds; the functions of \<^verbatim>\<open>strings\<close>, \<^verbatim>\<open>strconv\<close>, \<^verbatim>\<open>unicode/utf8\<close> and
    \<^verbatim>\<open>net\<close> that the code calls.
  \<^item> Codec, Packets, Nbt, Chat_Text, Forge_Status (\<^verbatim>\<open>internal/proto\<close>): VarInts, frames, the reading and writing
    buffers, handshake and login packets, NBT, chat components, and the mod lists that Forge servers hide
    in their status.
  \<^item> Registry, Health (\<^verbatim>\<open>internal/registry\<close>): the registered servers as an association list by id, with
    \<open>upsert\<close>, \<open>reg_remove\<close>, \<open>set_health\<close>, \<open>set_side_ports\<close>, expiry and pruning; one health check.
  \<^item> Match (\<^verbatim>\<open>internal/match\<close>): scoring, ranking and picking of servers for a client.
  \<^item> Kv_Store, State_File (\<^verbatim>\<open>internal/store\<close>): the store with expiring entries and its flush to disk in two halves, between
    which writes can happen; below it the bytes of the state file, the temporary file and the rename.
  \<^item> Netguard (\<^verbatim>\<open>internal/netguard\<close>), Guard (\<^verbatim>\<open>internal/guard\<close>): which backend addresses may be dialed; the signed
    header by which a backend knows that a connection comes from the gateway.
  \<^item> Proxy_Proto, Limiter, Pending, Cookie, Tickets, Router, Status_Page (\<^verbatim>\<open>internal/router\<close>): real client addresses,
    connection limits, remembered routes, signed route cookies, transfer tickets, the life of a connection
    from the first byte to the piped backend, and the answer to a server list ping. Sessions: the accept loop, with
    any number of connections at once, on the state they share with the rest of the gateway.
  \<^item> Lobby_Probe, Lobby (\<^verbatim>\<open>internal/router/lobby.go\<close>), Limbo_Packets, Limbo (\<^verbatim>\<open>internal/limbo\<close>): what happens to a
    player whose server is not clear: probing the client, matching it, dialogs and transfers for new
    clients, an empty world with a chat menu for old ones.
  \<^item> Sideport, Udp_Flows, Tcp_Ports (\<^verbatim>\<open>internal/sideport\<close>): the pool of public ports, and the goroutines that relay
    datagrams and connections, as step relations over their critical sections.
  \<^item> Api, Broker (\<^verbatim>\<open>internal/api\<close>): the HTTP handlers as one function from the request and the shared state, and
    the long polls of the broadcasts in every interleaving.
  \<^item> Hooks, Agent (\<^verbatim>\<open>internal/agent\<close>): the scan for mods, the heartbeat and the callbacks for side ports.
  \<^item> Metrics (\<^verbatim>\<open>internal/metrics\<close>): labelled counters, gauges and their text format.
  \<^item> Config, Gateway (\<^verbatim>\<open>cmd/vecta/main.go\<close>): environment references in configuration files, and \<open>start_gateway\<close>, which
    builds all components; \<open>gateway_step\<close> and \<open>gateway_reach\<close> are how they run together on the shared state
    (\<open>api_state\<close>: registry, side port manager, store, broker).
  \<^item> Json: a reader of JSON, the reference for every JSON text that the gateway writes, and \<^verbatim>\<open>DescriptionText\<close>.
  \<^item> Side_Dial, Exposition: components joined as \<^verbatim>\<open>main.go\<close> joins them, the side ports with the dial policy, and
    the metrics with the state they show and the handler that serves them.

  This theory adds the properties that span the API, the registry, the health checks and the router.

  \<^bigskip> \<^bold>\<open>What the lemmas show.\<close> Each theory proves the laws of its operations (what a lookup returns after an
  update, what an encoder's output reads back as), the invariant of its state and that every operation
  keeps it, and from these its properties, which are the theorems preceded by a numbered claim. The
  interfaces are locales with interpretations on the model: wire fields that read back what they write
  (\<open>wire_field\<close>, \<open>strict_field\<close> of Codec, for every buffer type, Forge channels, mod lists and NeoForge payloads), the contract
  of the key-value store (\<open>kv_contract\<close>, on which Pending, Cookie and Router rest) and a directory of
  servers (\<open>directory\<close> of Registry). Concurrency appears as step relations with invariants by rule induction
  (\<open>udp_reach\<close>, \<open>tcp_reach\<close>, \<open>hub_reach\<close>, \<open>gateway_reach\<close>, \<open>running_reach\<close>), elsewhere a mutex makes an operation one step.

  \<^bigskip> \<^bold>\<open>Bounds.\<close> Machine integers are \<open>8 word\<close> for bytes and \<open>int\<close> or \<open>nat\<close> with the wrap-around written out where the code's
  width shows (VarInts, ports, Unix seconds, packed Forge data). No loop of the program is given fuel: loops are
  recursions with a termination proof, by the length of what is left to read, or folds over a list. Only the
  reference parsers of NBT and JSON, which exist to state what is read back, have fuel for the nesting; their lemmas
  say how much suffices (\<open>nbt_fuel\<close>, and twice the length of a JSON text).

  \<^bigskip> \<^bold>\<open>Parameters.\<close> Code that is not in the repository is an argument of the definitions that use it: HMAC, SHA-256 and MD5,
  random bytes, the parsers of \<^verbatim>\<open>net\<close> and \<^verbatim>\<open>net/netip\<close>, the DNS, dialing and listening, the outcome of HTTP exchanges, file
  contents, the outcome of writes, callbacks, archives, \<^verbatim>\<open>encoding/json\<close> decoding of requests and configuration, the number format \<^verbatim>\<open>%g\<close>, and the embedded registry data of the
  limbo. The clock is an argument of every operation that reads it. Hypotheses about them are only what the code relies on (the length of a
  digest, for instance), and each property with a hypothesis has a witness at concrete values.

  \<^bigskip> \<^bold>\<open>Not modelled.\<close> \<^verbatim>\<open>strings.ToLower\<close> and \<^verbatim>\<open>strings.TrimSpace\<close> beyond ASCII letters and blanks; logs; the
  encoding of API replies and of the agent's state file as JSON; the HTML page; deadlines of reads and writes; the counting of metrics in the handlers; tickers as such, signals, flags and
  the HTTP server itself. Token buckets are rational and counters whole numbers
  where the code has \<^verbatim>\<open>float64\<close>. The Java plugin, the limbo data generator, tests and deployment files are outside
  the development.
\<close>

section \<open>From a registration to a player on the server\<close>

text \<open>The entry that a registration leaves, and what a health check makes of it.\<close>

lemma registered_entry:
  assumes "api_step hmac pa dns os opts now auth (Q_register i (Inr s)) st = Some (A_saved srv checks, st')"
    and "api_inv st" and "0 < ao_ttl opts"
  shows "reg_get t (as_reg st') (sv_id srv) = (if t \<le> now + ao_ttl opts then Some srv else None)"
    "id_pattern (sv_id srv)" "sv_id srv \<notin> set ReservedIDs" "\<exists>ow. api_owner opts auth = Some (sv_owner srv, ow)"
proof -
  have r: "api_register pa dns os opts now auth i (Inr s) st = Some (A_saved srv checks, st')" using assms(1) by simp
  have "reg_get t (as_reg st') (sv_id srv) = (if t \<le> now + ao_ttl opts then Some srv else None)
    \<and> id_pattern (sv_id srv) \<and> sv_id srv \<notin> set ReservedIDs \<and> (\<exists>ow. api_owner opts auth = Some (sv_owner srv, ow))"
    using r
  proof (cases rule: api_register_cases)
    case (2 name ow s v reg checks)
    have "reg_get t (set_side_ports (sv_id v) (sv_side_ports v) reg) (sv_id v) = (if t \<le> now + ao_ttl opts then Some v else None)"
      using stored_after_sync [OF 2(4) refl assms(3), of t] by simp
    moreover have "map_of reg (sv_id v) = Some v" using 2(4) by (auto simp: upsert_eq_Inr)
    then have "reg_get t (set_side_ports (sv_id v) (sv_side_ports v) reg) (sv_id v) = reg_get t reg (sv_id v)"
      by (simp add: set_side_ports_def reg_get_def)
    ultimately show ?thesis using 2 upsert_valid [OF 2(4)] upsert_ports(3) [OF 2(4)] by (simp add: valid_server_def)
  next
    case (3 name ow s v reg checks m out m')
    have "mg_inv m" using assms(2) 3(5) by (simp add: api_inv_def)
    then have "map sp_name out = map sp_name (sv_side_ports v)" by (rule sync_names [OF _ upsert_valid [OF 3(4)] 3(6)])
    then have "reg_get t (set_side_ports (sv_id v) out reg) (sv_id v)
        = (if t \<le> now + ao_ttl opts then Some (v\<lparr>sv_side_ports := out\<rparr>) else None)"
      by (rule stored_after_sync [OF 3(4) _ assms(3)])
    then show ?thesis using 3 upsert_valid [OF 3(4)] upsert_ports(3) [OF 3(4)] by (simp add: valid_server_def)
  qed simp
  then show "reg_get t (as_reg st') (sv_id srv) = (if t \<le> now + ao_ttl opts then Some srv else None)"
    "id_pattern (sv_id srv)" "sv_id srv \<notin> set ReservedIDs" "\<exists>ow. api_owner opts auth = Some (sv_owner srv, ow)" by blast+
qed

lemma online_after_check:
  assumes "reg_get t reg i = Some srv" and "h_online h"
  shows "\<exists>srv'. reg_get t (set_health i (sv_address srv) h t0 reg) i = Some srv' \<and> sv_online srv'
    \<and> sv_id srv' = sv_id srv \<and> sv_address srv' = sv_address srv \<and> sv_owner srv' = sv_owner srv
    \<and> (\<forall>p. accepts srv' p = accepts (srv\<lparr>sv_protocol := h_protocol h\<rparr>) p)"
proof -
  have "map_of reg i = Some srv" "\<not> expired t srv" using assms(1) by (auto simp: reg_get_eq)
  then show ?thesis using assms(2) by (simp add: set_health_def Let_def reg_get_def expired_def accepts_def)
qed


section \<open>From a ticket to a player on the next server\<close>

text \<open>C17: a transfer ticket that the API hands out is honoured: only the token of the owner of the server it is
  asked for gets one, and when the player it names comes back within two minutes with its cookie, in any
  capitalisation of the name, the gateway routes that player to the ticket's target (or opens the menu),
  whatever happened to the gateway in between.\<close>

theorem api_ticket_honoured:
  assumes "start_gateway pp pa sha os random file now0 cfg = Some (Inr gw)" and "file_ok file" and "gateway_reach gw st"
    and "api_step hmac pa' dns os' (gw_opts gw) now auth (Q_ticket i (Inr req)) st = Some (A_ticket tk, st1)"
    and "Proto1_20_5 \<le> tr_protocol req" and "- (2 ^ 63) \<le> unix_sec now" and "unix_sec (now + 120000000000) < 2 ^ 63"
    and "cookie = route_cookie hmac (gw_router gw) now (to_lower (trim_space (tr_target req))) (tr_player req)"
    and "length cookie \<le> 5120" and "hs_intent hs = IntentTransfer" and "hs_protocol hs = tr_protocol req"
    and "to_lower player = to_lower (tr_player req)" and "unix_sec t \<le> unix_sec (now + 120000000000)"
  shows "tk_mode tk = ''transfer'' \<and> tk_cookie tk = b64_std cookie
    \<and> fst (route_login hmac (gw_router gw) t reg hs player (cookie_answer cookie @ rest) kv)
      = (if to_lower (trim_space (tr_target req)) = lobbyRoute then R_lobby True
         else R_connect (to_lower (trim_space (tr_target req))) ''cookie'')
    \<and> (\<exists>src ow. reg_get now (as_reg st) (to_lower i) = Some src \<and> api_owner (gw_opts gw) auth = Some (sv_owner src, ow))"
proof -
  have inv: "reg_inv (as_reg st)"
    using gateway_reach_inv [OF assms(3) start_spec(1) [OF assms(1,2)]] by (simp add: api_inv_def)
  have "api_ticket hmac (gw_opts gw) now auth i (Inr req) st = (A_ticket tk, st1)" using assms(4) by simp
  then obtain src s where s: "owned_server (gw_opts gw) now auth i st = Inr src" "player_name (tr_player req)"
    "issue_ticket hmac (gw_router gw) now (as_reg st) (tr_player req) (tr_protocol req) (tr_target req) (as_store st) = (Inr tk, s)"
    using start_options(2) [OF assms(1)] by (cases rule: api_ticket_cases) auto
  obtain name where n: "ticket_target now (as_reg st) (tr_protocol req) (to_lower (trim_space (tr_target req))) = Inr name"
    using issue_ticket_Inr [of hmac "gw_router gw" now "as_reg st" "tr_player req" "tr_protocol req" "tr_target req" "as_store st" tk] s(3) by auto
  have "CHR ''|'' \<notin> set (tr_player req)"
    using s(2) by (auto simp: player_name_def list_all_iff name_char_def alnum_lower_def ascii_lower_def Let_def)
  then have "fst (route_login hmac (gw_router gw) t reg hs player (cookie_answer cookie @ rest) kv)
      = (if to_lower (trim_space (tr_target req)) = lobbyRoute then R_lobby True
         else R_connect (to_lower (trim_space (tr_target req))) ''cookie'')"
    unfolding assms(8)
    by (intro cookie_login_honoured) (use ticket_no_bar [OF inv n] assms in simp_all)
  moreover have "tk_mode tk = ''transfer'' \<and> tk_cookie tk = b64_std cookie"
    using s(3) n assms(5,8) by (auto simp: issue_ticket_def Let_def no_ticket_def split: if_splits)
  moreover have "\<exists>src ow. reg_get now (as_reg st) (to_lower i) = Some src \<and> api_owner (gw_opts gw) auth = Some (sv_owner src, ow)"
    using owned_server_Inr [OF s(1)] by auto
  ultimately show ?thesis by blast
qed

section \<open>Examples\<close>

text \<open>Alice registers a server, a check finds it online, a player joins it and asks for a ticket back to it.\<close>

definition demo_joined :: "(api_reply \<times> api_state) option" where
  "demo_joined = api_step no_hmac demo_lookup demo_dns (\<lambda>_ _. True) (gw_opts demo_gw) 9 ''Bearer s3cret''
     (Q_register ''survival'' (Inr demo_body)) (gw_state demo_gw)"

definition demo_healthy :: health where
  "demo_healthy = \<lparr>h_online = True, h_protocol = 767, h_version_name = ''1.21'', h_players = 1, h_max_players = 20,
     h_mods = [], h_forge_channels = [], h_forge_truncated = False\<rparr>"

definition demo_login_hs :: handshake where
  "demo_login_hs = \<lparr>hs_protocol = 767, hs_address = ''Survival.play.example.'', hs_port = 25565, hs_intent = IntentLogin\<rparr>"

definition demo_checked :: api_state where
  "demo_checked = (after_put demo_joined)\<lparr>as_reg :=
     set_health ''survival'' ''10.0.0.5:25565'' demo_healthy 10 (as_reg (after_put demo_joined))\<rparr>"

lemma demo_joined_eq:
  "api_step no_hmac demo_lookup demo_dns (\<lambda>_ _. True) (gw_opts demo_gw) 9 ''Bearer s3cret''
     (Q_register ''survival'' (Inr demo_body)) (gw_state demo_gw)
   = Some (A_saved (put_entry demo_joined) (put_checks demo_joined), after_put demo_joined)"
proof -
  have "case demo_joined of Some (A_saved _ _, _) \<Rightarrow> True | _ \<Rightarrow> False" by code_simp
  then show ?thesis
    by (auto simp: demo_joined_def put_entry_def put_checks_def after_put_def split: option.splits prod.splits api_reply.splits)
qed

lemma demo_entry_sel: "sv_id (put_entry demo_joined) = ''survival''" "sv_address (put_entry demo_joined) = ''10.0.0.5:25565''"
  by code_simp+

lemma demo_checked_reach: "gateway_reach demo_gw demo_checked"
proof -
  have "gateway_reach demo_gw (after_put demo_joined)"
    by (rule gateway_reach.step [OF gateway_reach.start gateway_step.request [OF _ demo_joined_eq]]) simp
  then show ?thesis unfolding demo_checked_def by (rule gateway_reach.step [OF _ gateway_step.health])
qed


definition demo_ticket_req :: ticket_request where
  "demo_ticket_req = \<lparr>tr_player = ''Alex'', tr_protocol = 767, tr_target = '' Survival''\<rparr>"

definition demo_asked :: "(api_reply \<times> api_state) option" where
  "demo_asked = api_step no_hmac demo_lookup demo_dns (\<lambda>_ _. True) (gw_opts demo_gw) 5000000000 ''Bearer s3cret''
     (Q_ticket ''survival'' (Inr demo_ticket_req)) demo_checked"

definition asked_ticket :: ticket where
  "asked_ticket = (case demo_asked of Some (A_ticket t, _) \<Rightarrow> t | _ \<Rightarrow> no_ticket)"

lemma demo_asked_eq:
  "api_step no_hmac demo_lookup demo_dns (\<lambda>_ _. True) (gw_opts demo_gw) 5000000000 ''Bearer s3cret''
     (Q_ticket ''survival'' (Inr demo_ticket_req)) demo_checked = Some (A_ticket asked_ticket, after_put demo_asked)"
proof -
  have "case demo_asked of Some (A_ticket _, _) \<Rightarrow> True | _ \<Rightarrow> False" by code_simp
  then show ?thesis
    by (auto simp: demo_asked_def asked_ticket_def after_put_def simp del: api_step.simps split: option.splits prod.splits api_reply.splits)
qed

theorem api_ticket_honoured_witness:
  "tk_mode asked_ticket = ''transfer''
   \<and> fst (route_login no_hmac (gw_router demo_gw) 65000000000 [] demo_hs ''ALEX''
        (cookie_answer (route_cookie no_hmac (gw_router demo_gw) 5000000000 ''survival'' ''Alex'') @ []) demo_store)
     = R_connect ''survival'' ''cookie''"
proof -
  have f: "Proto1_20_5 \<le> tr_protocol demo_ticket_req" "- (2 ^ 63) \<le> unix_sec 5000000000"
    "unix_sec (5000000000 + 120000000000) < 2 ^ 63" "hs_intent demo_hs = IntentTransfer"
    "hs_protocol demo_hs = tr_protocol demo_ticket_req" "to_lower ''ALEX'' = to_lower (tr_player demo_ticket_req)"
    "unix_sec 65000000000 \<le> unix_sec (5000000000 + 120000000000)"
    by code_simp+
  have t: "to_lower (trim_space (tr_target demo_ticket_req)) = ''survival''" "tr_player demo_ticket_req = ''Alex''"
    "''survival'' \<noteq> lobbyRoute" "length (route_cookie no_hmac (gw_router demo_gw) 5000000000 ''survival'' ''Alex'') \<le> 5120"
    by code_simp+
  show ?thesis
    using api_ticket_honoured [OF demo_started demo_file demo_checked_reach demo_asked_eq f(1-3) refl _ f(4-7),
        where reg = "[]" and rest = "[]" and kv = demo_store] t by simp
qed

end
